(* ===== verification/GoBase.thy ===== *)
theory GoBase
  imports Main "HOL-Library.Word"
begin

text \<open>
  Prelude. What the modules take from the Go language and its standard library, as far as
  they use it: instants and durations of package time, error values with errors.Is and
  errors.Join, panics of constructors, and contexts. The named collections that carry the
  component proofs are declared here too.

  \<^item> time.Duration is an int64 number of nanoseconds. It is modelled by the integer it
    denotes; is_dur is its range, and every operation that could leave the range writes
    out what Go does there (time_Sub saturates, wrap_i64 and wrap_u64 wrap around).
  \<^item> time.Time is the number of nanoseconds since the zero Time (year 1), so that the zero
    Time, for which IsZero holds, is 0. Its int64 count of seconds spans 292 billion years
    and is not bounded here. All instants are readings of one clock.
  \<^item> an error value is a leaf with an identity (errors.New) or a value that wraps others
    (fmt.Errorf with the verb w, errors.Join); nil is None.
  \<^item> a panic of a constructor or option is the left value of a sum.
  \<^item> code with effects passes a world explicitly. A context is an object that is asked for
    its error and its cause in the current world, because it may end at any moment.
\<close>

named_theorems go_time "unfolding of the operations on instants and durations"
named_theorems go_ctx "simplification of contexts"

section \<open>Instants and durations\<close>

type_synonym duration = int
type_synonym time = int

definition max_dur :: duration where
  "max_dur = 2 ^ 63 - 1"

definition min_dur :: duration where
  "min_dur = - (2 ^ 63)"

definition is_dur :: "int \<Rightarrow> bool" where
  "is_dur d \<longleftrightarrow> min_dur \<le> d \<and> d \<le> max_dur"

definition isZero :: "time \<Rightarrow> bool" where
  "isZero t \<longleftrightarrow> t = 0"

definition Before :: "time \<Rightarrow> time \<Rightarrow> bool" where
  "Before t u \<longleftrightarrow> t < u"

definition After_time :: "time \<Rightarrow> time \<Rightarrow> bool" where
  "After_time t u \<longleftrightarrow> u < t"

definition time_Add :: "time \<Rightarrow> duration \<Rightarrow> time" where
  "time_Add t d = t + d"

text \<open>Time.Sub saturates at the ends of the int64 range.\<close>

definition saturate :: "int \<Rightarrow> duration" where
  "saturate d = (if d < min_dur then min_dur else if max_dur < d then max_dur else d)"

definition time_Sub :: "time \<Rightarrow> time \<Rightarrow> duration" where
  "time_Sub t u = saturate (t - u)"

text \<open>Conversion to int64 and uint64, and the value of an operation of those types.\<close>

definition wrap_i64 :: "int \<Rightarrow> int" where
  "wrap_i64 x = (x + 2 ^ 63) mod 2 ^ 64 - 2 ^ 63"

definition wrap_u64 :: "int \<Rightarrow> int" where
  "wrap_u64 x = x mod 2 ^ 64"

lemmas [go_time] = max_dur_def min_dur_def is_dur_def isZero_def Before_def After_time_def
  time_Add_def saturate_def time_Sub_def

lemma saturate_is_dur [simp]: "is_dur (saturate d)"
  by (simp add: go_time)

lemma saturate_id [simp]: "is_dur d \<Longrightarrow> saturate d = d"
  by (simp add: go_time)

lemma saturate_mono: "c \<le> d \<Longrightarrow> saturate c \<le> saturate d"
  by (simp add: go_time)

lemma wrap_i64_id [simp]: "is_dur x \<Longrightarrow> wrap_i64 x = x"
  by (simp add: wrap_i64_def go_time)

lemma wrap_u64_id [simp]: "0 \<le> x \<Longrightarrow> x < 2 ^ 64 \<Longrightarrow> wrap_u64 x = x"
  by (simp add: wrap_u64_def)

lemma wrap_i64_is_dur [simp]: "is_dur (wrap_i64 x)"
  using pos_mod_bound [of "2 ^ 64" "x + 2 ^ 63"] pos_mod_sign [of "2 ^ 64" "x + 2 ^ 63"]
  by (simp add: wrap_i64_def go_time)

section \<open>Error values\<close>

datatype gerr = Err string | Wrap string "gerr list"

fun errors_is :: "gerr \<Rightarrow> gerr \<Rightarrow> bool" where
  "errors_is (Err n) t \<longleftrightarrow> Err n = t"
| "errors_is (Wrap m es) t \<longleftrightarrow> Wrap m es = t \<or> list_ex (\<lambda>e. errors_is e t) es"

definition errors_join :: "gerr list \<Rightarrow> gerr option" where
  "errors_join es = (if es = [] then None else Some (Wrap ''errors.Join'' es))"

definition Canceled :: gerr where
  "Canceled = Err ''context canceled''"

definition DeadlineExceeded :: gerr where
  "DeadlineExceeded = Err ''context deadline exceeded''"

lemma errors_is_refl [simp]: "errors_is e e"
  by (cases e) simp_all

lemma errors_is_wrap: "e \<in> set es \<Longrightarrow> errors_is e t \<Longrightarrow> errors_is (Wrap m es) t"
  by (auto simp: list_ex_iff)

lemma errors_is_trans: "errors_is a b \<Longrightarrow> errors_is b c \<Longrightarrow> errors_is a c"
  by (induction a b rule: errors_is.induct) (auto simp: list_ex_iff)

lemma errors_join_None [simp]: "errors_join es = None \<longleftrightarrow> es = []"
  by (simp add: errors_join_def)

lemma errors_join_is: "errors_join es = Some e \<Longrightarrow> x \<in> set es \<Longrightarrow> errors_is e x"
  by (auto simp del: errors_is.simps simp: errors_join_def split: if_splits
      intro: errors_is_wrap)

section \<open>Panics\<close>

text \<open>A constructor or option either panics with a message or returns.\<close>

type_synonym 'a go = "string + 'a"

fun go_bind :: "'a go \<Rightarrow> ('a \<Rightarrow> 'b go) \<Rightarrow> 'b go" where
  "go_bind (Inl p) f = Inl p"
| "go_bind (Inr a) f = f a"

lemma go_bind_Inr [simp]: "go_bind x f = Inr r \<longleftrightarrow> (\<exists>a. x = Inr a \<and> f a = Inr r)"
  by (cases x) auto

text \<open>The arguments of a variadic option list are evaluated before the call.\<close>

fun go_all :: "'a go list \<Rightarrow> 'a list go" where
  "go_all [] = Inr []"
| "go_all (x # xs) = go_bind x (\<lambda>a. go_bind (go_all xs) (\<lambda>as. Inr (a # as)))"

text \<open>Functional options are applied in order to the configuration.\<close>

definition apply_opts :: "('c \<Rightarrow> 'c) list \<Rightarrow> 'c \<Rightarrow> 'c" where
  "apply_opts opts c = fold (\<lambda>opt c. opt c) opts c"

lemma apply_opts_Nil [simp]: "apply_opts [] c = c"
  by (simp add: apply_opts_def)

lemma apply_opts_Cons [simp]: "apply_opts (opt # opts) c = apply_opts opts (opt c)"
  by (simp add: apply_opts_def)

lemma apply_opts_inv:
  assumes "P c" and "\<And>opt c. opt \<in> set opts \<Longrightarrow> P c \<Longrightarrow> P (opt c)"
  shows "P (apply_opts opts c)"
  using assms by (induction opts arbitrary: c) auto

section \<open>Contexts\<close>

text \<open>
  ctx.Err () and context.Cause (ctx), each in the world of the moment it is called. A
  context is sound when it has a cause exactly when it has an error, as package context
  documents; ctx.Done () is ready exactly when ctx.Err () is not nil.
\<close>

record 'w ctx =
  ctxErr :: "'w \<Rightarrow> gerr option"
  ctxCause :: "'w \<Rightarrow> gerr option"

definition ctx_sound :: "'w ctx \<Rightarrow> bool" where
  "ctx_sound x \<longleftrightarrow> (\<forall>w. ctxErr x w = None \<longleftrightarrow> ctxCause x w = None)"

definition background :: "'w ctx" where
  "background = \<lparr>ctxErr = (\<lambda>_. None), ctxCause = (\<lambda>_. None)\<rparr>"

lemma background_simps [simp, go_ctx]:
  "ctxErr background w = None" "ctxCause background w = None"
  by (simp_all add: background_def)

lemma background_sound [simp]: "ctx_sound background"
  by (simp add: ctx_sound_def)

section \<open>Clock and timers\<close>

text \<open>
  The runtime as code sees it that reads the clock and waits: nowOf is time.Now, and
  select_timer x d w is the outcome of waiting at once for a timer of d and for ctx.Done ():
  whether the timer's case was taken, and the world after the wait. When both are ready the
  runtime may take either, so the timer's case says nothing about the context.
\<close>

record 'w go_env =
  nowOf :: "'w \<Rightarrow> time"
  select_timer :: "'w ctx \<Rightarrow> duration \<Rightarrow> 'w \<Rightarrow> bool \<times> 'w"

definition env_ok :: "('w, 'e) go_env_scheme \<Rightarrow> bool" where
  "env_ok env \<longleftrightarrow> (\<forall>x d w w' fired. 0 < d \<longrightarrow> select_timer env x d w = (fired, w') \<longrightarrow>
     nowOf env w \<le> nowOf env w' \<and> (fired \<longrightarrow> nowOf env w + d \<le> nowOf env w') \<and>
     (\<not> fired \<longrightarrow> ctxErr x w' \<noteq> None))"

text \<open>
  The function sleep, which retry and throttle declare alike: a delay that is not positive
  only asks the context for its error.
\<close>

definition go_sleep ::
    "('w, 'e) go_env_scheme \<Rightarrow> 'w ctx \<Rightarrow> duration \<Rightarrow> 'w \<Rightarrow> gerr option \<times> 'w" where
  "go_sleep env x d w =
     (if d \<le> 0 then (ctxErr x w, w)
      else (case select_timer env x d w of
              (True, w') \<Rightarrow> (None, w')
            | (False, w') \<Rightarrow> (ctxErr x w', w')))"

lemma env_okD:
  assumes "env_ok env" and "0 < d" and "select_timer env x d w = (fired, w')"
  shows "nowOf env w \<le> nowOf env w'" and "fired \<Longrightarrow> nowOf env w + d \<le> nowOf env w'"
    and "\<not> fired \<Longrightarrow> ctxErr x w' \<noteq> None"
  using assms unfolding env_ok_def by blast+

lemma go_sleep_cases:
  assumes "go_sleep env x d w = (e, w')"
  shows "d \<le> 0 \<and> e = ctxErr x w \<and> w' = w \<or>
    d > 0 \<and> select_timer env x d w = (True, w') \<and> e = None \<or>
    d > 0 \<and> select_timer env x d w = (False, w') \<and> e = ctxErr x w'"
proof -
  obtain fired w1 where "select_timer env x d w = (fired, w1)" by (metis surj_pair)
  then show ?thesis using assms by (cases "d \<le> 0"; cases fired) (simp_all add: go_sleep_def)
qed

lemma go_sleep_ok:
  assumes "env_ok env" and "go_sleep env x d w = (None, w')"
  shows "nowOf env w + d \<le> nowOf env w'"
  using go_sleep_cases [OF assms(2)] env_okD(2) [OF assms(1), of d x w True w']
    env_okD(3) [OF assms(1), of d x w False w'] by auto

lemma go_sleep_err:
  assumes "go_sleep env x d w = (Some e, w')"
  shows "ctxErr x w' = Some e"
  using go_sleep_cases [OF assms] by auto

lemma go_sleep_mono:
  assumes "env_ok env" and "go_sleep env x d w = (e, w')"
  shows "nowOf env w \<le> nowOf env w'"
  using go_sleep_cases [OF assms(2)] env_okD(1) [OF assms(1), of d x w _ w'] by auto

section \<open>Decimal numerals\<close>

text \<open>strconv.Itoa of a number that is not negative.\<close>

fun itoa :: "nat \<Rightarrow> string" where
  "itoa n = (if n < 10 then [''0123456789'' ! n] else itoa (n div 10) @ [''0123456789'' ! (n mod 10)])"

declare itoa.simps [simp del]

end
