(* ===== verification/Lifecycle.thy ===== *)
theory Lifecycle
  imports GoBase "HOL-Library.Multiset"
begin

text \<open>
  Package lifecycle (lifecycle/lifecycle.go): the options and registrations of a Group, and
  its life as a step relation in which workers return, contexts end, signals arrive and
  callers register or shut down at any moment. A section that holds g.mu is one step; the
  once of shutdown, the cancellation, the handler call and the phases of run are steps of
  their own. The functions of workers and teardown callbacks are the environment's: only
  what they return, whether a callback panics, and when they are called matters here.
\<close>

section \<open>Options and configuration\<close>

definition ErrSignal :: gerr where
  "ErrSignal = Err ''signal received''"

definition defaultGracefulTimeout :: duration where
  "defaultGracefulTimeout = 30 * 10 ^ 9"

text \<open>Whether there is an error handler and a parent context is a bool each.\<close>

record config =
  graceful :: duration
  signals :: "string list"
  errHandler :: bool
  parentCtx :: bool

definition WithGracefulTimeout :: "duration \<Rightarrow> (config \<Rightarrow> config) go" where
  "WithGracefulTimeout d =
     (if d \<le> 0 then Inl ''lifecycle.WithGracefulTimeout: duration must be > 0''
      else Inr (\<lambda>c. c\<lparr>graceful := d\<rparr>))"

definition WithContext :: "bool \<Rightarrow> config \<Rightarrow> config" where
  "WithContext given = (\<lambda>c. c\<lparr>parentCtx := given\<rparr>)"

definition WithSignals :: "string list \<Rightarrow> config \<Rightarrow> config" where
  "WithSignals sigs = (\<lambda>c. c\<lparr>signals := signals c @ sigs\<rparr>)"

definition WithErrorHandler :: "bool \<Rightarrow> config \<Rightarrow> config" where
  "WithErrorHandler given = (\<lambda>c. c\<lparr>errHandler := given\<rparr>)"

section \<open>State\<close>

text \<open>A registered goroutine, by the kind and name of requireNamed.\<close>

record worker =
  kind :: string
  wname :: string

text \<open>The format verb q, for names that need no escapes.\<close>

definition label :: "worker \<Rightarrow> string" where
  "label w = kind w @ '' \"'' @ wname w @ ''\"''"

definition failure_cause :: "worker \<Rightarrow> gerr \<Rightarrow> gerr" where
  "failure_cause w e = Wrap (label w) [e]"

definition exit_cause :: "worker \<Rightarrow> gerr" where
  "exit_cause w = Err (label w @ '': unexpected exit'')"

definition ErrServerClosed :: gerr where
  "ErrServerClosed = Err ''http: Server closed''"

text \<open>What the function registered by Serve returns when ListenAndServe returned err.\<close>

definition serve_result :: "gerr option \<Rightarrow> gerr option" where
  "serve_result err =
     (case err of None \<Rightarrow> None | Some e \<Rightarrow> if \<not> errors_is e ErrServerClosed then err else None)"

text \<open>What the teardown of a server returns when server.Shutdown returned err.\<close>

definition server_teardown :: "string \<Rightarrow> gerr option \<Rightarrow> gerr option" where
  "server_teardown name err =
     (case err of None \<Rightarrow> None
      | Some e \<Rightarrow> Some (Wrap (''http server \"'' @ name @ ''\": shutdown'') [e]))"

definition isContextErr :: "gerr \<Rightarrow> bool" where
  "isContextErr err \<longleftrightarrow> errors_is err Canceled \<or> errors_is err DeadlineExceeded"

text \<open>A teardown callback, named by a number.\<close>

record teardown =
  timeout :: duration
  tfn :: nat

datatype lpc =
    LIdle
  | LServe string               \<comment> \<open>Serve: before requireNamed\<close>
  | LFn worker                  \<comment> \<open>a worker's fn is running\<close>
  | LReturned worker "gerr option" \<comment> \<open>requireNamed: fn has returned\<close>
  | LHandling worker gerr       \<comment> \<open>collectError: before the handler\<close>
  | LCollecting worker gerr     \<comment> \<open>collectError: before the append\<close>
  | LChecking worker            \<comment> \<open>requireNamed: before g.ctx.Err\<close>
  | LShut "gerr option"         \<comment> \<open>shutdown: before shutdownOnce\<close>
  | LCancel                     \<comment> \<open>shutdown: before g.cancel\<close>
  | LDone

text \<open>The driver of run; the drain keeps the results of the servers by index.\<close>

datatype rpc =
    RIdle
  | RSpawn "worker list"
  | RSignals
  | RReady
  | RBlocked
  | RStopping
  | RDrain "string list" "nat \<Rightarrow> gerr option option" "teardown list"
  | RTear "teardown list"
  | RJoin
  | RJoined
  | RFinished "gerr option"
  | RPanicked                  \<comment> \<open>a callback panicked, run was unwound\<close>

datatype event = EvReady | EvHandler gerr | EvServer nat | EvClose nat | EvTeardown teardown

text \<open>
  parentEnded, deadline, watching and sigWatching are the state of the runtime: whether the
  parent context and the graceful budget have ended, and whether the watchers are
  installed. failures, drained and events are not in the code: the errors of workers that
  counted as failures, the drain errors, and what happened in which order.
\<close>

record grp =
  cfg :: config
  ctxDone :: bool
  shutdownOnce :: bool
  cause :: "gerr option"
  started :: bool
  stopped :: bool
  pending :: "worker list"
  serverTeardowns :: "string list"
  teardowns :: "teardown list"
  errs :: "gerr list"
  wg :: "nat set"
  lpcs :: "nat \<Rightarrow> lpc"
  rpc :: rpc
  parentEnded :: bool
  deadline :: bool
  watching :: bool
  sigWatching :: bool
  failures :: "gerr list"
  drained :: "gerr list"
  events :: "event list"

text \<open>New, with every goroutine idle.\<close>

definition New :: "(config \<Rightarrow> config) list \<Rightarrow> grp" where
  "New opts = \<lparr>cfg = apply_opts opts \<lparr>graceful = defaultGracefulTimeout, signals = [],
       errHandler = False, parentCtx = False\<rparr>,
     ctxDone = False, shutdownOnce = False, cause = None, started = False, stopped = False,
     pending = [], serverTeardowns = [], teardowns = [], errs = [], wg = {},
     lpcs = (\<lambda>_. LIdle), rpc = RIdle, parentEnded = False, deadline = False, watching = False,
     sigWatching = False, failures = [], drained = [], events = []\<rparr>"

abbreviation lgo :: "grp \<Rightarrow> nat \<Rightarrow> lpc \<Rightarrow> grp" where
  "lgo g i p \<equiv> g\<lparr>lpcs := (lpcs g)(i := p)\<rparr>"

section \<open>Registrations\<close>

definition Defer :: "duration \<Rightarrow> nat \<Rightarrow> grp \<Rightarrow> grp go" where
  "Defer d fn g =
     (if d \<le> 0 then Inl ''lifecycle.Defer: timeout must be > 0''
      else Inr (if stopped g then g else g\<lparr>teardowns := teardowns g @ [\<lparr>timeout = d, tfn = fn\<rparr>]\<rparr>))"

text \<open>register: the body of a running group gets goroutine i.\<close>

definition register :: "nat \<Rightarrow> worker \<Rightarrow> grp \<Rightarrow> grp" where
  "register i w g =
     (if stopped g then lgo g i LIdle
      else if started g then lgo (g\<lparr>wg := insert i (wg g)\<rparr>) i (LFn w)
      else lgo (g\<lparr>pending := pending g @ [w]\<rparr>) i LIdle)"

definition serve_register :: "string \<Rightarrow> grp \<Rightarrow> grp" where
  "serve_register name g =
     (if \<not> stopped g then g\<lparr>serverTeardowns := serverTeardowns g @ [name]\<rparr> else g)"

text \<open>Serve up to the call of requireNamed, which goroutine i makes later.\<close>

definition Serve :: "nat \<Rightarrow> string \<Rightarrow> grp \<Rightarrow> grp" where
  "Serve i name g = lgo (serve_register name g) i (LServe name)"

definition Shutdown :: "nat \<Rightarrow> grp \<Rightarrow> grp" where
  "Shutdown i g = lgo g i (LShut None)"

text \<open>Whether a server is closed by force after server.Shutdown returned err.\<close>

definition forced_close :: "nat \<Rightarrow> gerr option \<Rightarrow> event list" where
  "forced_close n err = (if err \<noteq> None then [EvClose n] else [])"

definition shuttingDown :: "grp \<Rightarrow> bool" where
  "shuttingDown g \<longleftrightarrow> ctxDone g \<or> (parentCtx (cfg g) \<and> parentEnded g)"

text \<open>The test of requireNamed on the result of fn.\<close>

definition is_failure :: "grp \<Rightarrow> gerr option \<Rightarrow> bool" where
  "is_failure g err \<longleftrightarrow>
     (case err of None \<Rightarrow> False | Some e \<Rightarrow> \<not> shuttingDown g \<or> \<not> isContextErr e)"

definition required :: "string \<Rightarrow> worker" where
  "required name = \<lparr>kind = ''required process'', wname = name\<rparr>"

definition server :: "string \<Rightarrow> worker" where
  "server name = \<lparr>kind = ''http server'', wname = name\<rparr>"

text \<open>What a worker's function can return, given what it came to.\<close>

definition fn_result :: "worker \<Rightarrow> gerr option \<Rightarrow> gerr option" where
  "fn_result w r = (if kind w = ''http server'' then serve_result r else r)"

text \<open>The errors of a drain, in registration order.\<close>

definition drain_errs :: "string list \<Rightarrow> (nat \<Rightarrow> gerr option option) \<Rightarrow> gerr list" where
  "drain_errs sv r =
     concat (map (\<lambda>i. case r i of Some (Some e) \<Rightarrow> [e] | _ \<Rightarrow> []) [0..<length sv])"

section \<open>Steps\<close>

text \<open>pcause is context.Cause of the parent context once it has ended.\<close>

inductive lstep :: "gerr \<Rightarrow> grp \<Rightarrow> grp \<Rightarrow> bool" for pcause where
  require: "lpcs g i = LIdle \<Longrightarrow> lstep pcause g (register i (required name) g)"
| l_defer: "Defer d fn g = Inr g' \<Longrightarrow> lstep pcause g g'"
| serve: "lpcs g i = LIdle \<Longrightarrow> lstep pcause g (Serve i name g)"
| serve_require: "lpcs g i = LServe name \<Longrightarrow> lstep pcause g (register i (server name) g)"
| shutdown_call: "lpcs g i = LIdle \<Longrightarrow> lstep pcause g (Shutdown i g)"
| shutdown_first: "lpcs g i = LShut c \<Longrightarrow> \<not> shutdownOnce g \<Longrightarrow>
    lstep pcause g (lgo (g\<lparr>shutdownOnce := True, cause := c, stopped := True\<rparr>) i LCancel)"
| cancel: "lpcs g i = LCancel \<Longrightarrow> lstep pcause g (lgo (g\<lparr>ctxDone := True\<rparr>) i LDone)"
| shutdown_again: "lpcs g i = LShut c \<Longrightarrow> ctxDone g \<Longrightarrow> lstep pcause g (lgo g i LDone)"
| fn_return: "lpcs g i = LFn w \<Longrightarrow> lstep pcause g (lgo g i (LReturned w (fn_result w r)))"
| test_failure: "lpcs g i = LReturned w (Some e) \<Longrightarrow> is_failure g (Some e) \<Longrightarrow>
    lstep pcause g (lgo (g\<lparr>failures := failures g @ [e]\<rparr>) i (LHandling w e))"
| test_clean: "lpcs g i = LReturned w r \<Longrightarrow> \<not> is_failure g r \<Longrightarrow>
    lstep pcause g (lgo g i (LChecking w))"
| handle: "lpcs g i = LHandling w e \<Longrightarrow>
    lstep pcause g (lgo (g\<lparr>events := events g @ (if errHandler (cfg g) then [EvHandler e] else [])\<rparr>)
      i (LCollecting w e))"
| collect: "lpcs g i = LCollecting w e \<Longrightarrow>
    lstep pcause g (lgo (g\<lparr>errs := errs g @ [e]\<rparr>) i (LShut (Some (failure_cause w e))))"
| check_active: "lpcs g i = LChecking w \<Longrightarrow> \<not> ctxDone g \<Longrightarrow>
    lstep pcause g (lgo g i (LShut (Some (exit_cause w))))"
| check_stopped: "lpcs g i = LChecking w \<Longrightarrow> ctxDone g \<Longrightarrow> lstep pcause g (lgo g i LDone)"
| wg_done: "lpcs g i = LDone \<Longrightarrow> lstep pcause g (g\<lparr>wg := wg g - {i}\<rparr>)"
| parent_end: "parentCtx (cfg g) \<Longrightarrow> lstep pcause g (g\<lparr>parentEnded := True\<rparr>)"
| watch_fire: "watching g \<Longrightarrow> parentEnded g \<Longrightarrow> lpcs g i = LIdle \<Longrightarrow>
    lstep pcause g (lgo (g\<lparr>watching := False\<rparr>) i (LShut (Some pcause)))"
| signal_fire: "sigWatching g \<Longrightarrow> lpcs g i = LIdle \<Longrightarrow>
    lstep pcause g (lgo (g\<lparr>sigWatching := False\<rparr>) i (LShut (Some ErrSignal)))"
| signal_quit: "sigWatching g \<Longrightarrow> ctxDone g \<Longrightarrow> lstep pcause g (g\<lparr>sigWatching := False\<rparr>)"
| run_start: "rpc g = RIdle \<Longrightarrow>
    lstep pcause g (g\<lparr>started := True, rpc := RSpawn (pending g), pending := []\<rparr>)"
| run_spawn: "rpc g = RSpawn (w # ws) \<Longrightarrow> lpcs g i = LIdle \<Longrightarrow>
    lstep pcause g (lgo (g\<lparr>wg := insert i (wg g), rpc := RSpawn ws\<rparr>) i (LFn w))"
| run_watch: "rpc g = RSpawn [] \<Longrightarrow>
    lstep pcause g (g\<lparr>watching := parentCtx (cfg g), rpc := RSignals\<rparr>)"
| run_signals: "rpc g = RSignals \<Longrightarrow>
    lstep pcause g (g\<lparr>sigWatching := (signals (cfg g) \<noteq> []), rpc := RReady\<rparr>)"
| run_ready: "rpc g = RReady \<Longrightarrow>
    lstep pcause g (g\<lparr>events := events g @ [EvReady], rpc := RBlocked\<rparr>)"
| run_unblock: "rpc g = RBlocked \<Longrightarrow> ctxDone g \<Longrightarrow> lstep pcause g (g\<lparr>rpc := RStopping\<rparr>)"
| run_stop: "rpc g = RStopping \<Longrightarrow>
    lstep pcause g (g\<lparr>stopped := True, rpc := RDrain (serverTeardowns g) (\<lambda>_. None) (teardowns g)\<rparr>)"
| budget_end: "rpc g = RDrain sv r tds \<or> rpc g = RTear tds \<or> rpc g = RJoin \<Longrightarrow>
    lstep pcause g (g\<lparr>deadline := True\<rparr>)"
| drain_one: "rpc g = RDrain sv r tds \<Longrightarrow> n < length sv \<Longrightarrow> r n = None \<Longrightarrow>
    lstep pcause g (g\<lparr>events := events g @ EvServer n # forced_close n e,
      rpc := RDrain sv (r(n \<mapsto> server_teardown (sv ! n) e)) tds\<rparr>)"
| drain_done: "rpc g = RDrain sv r tds \<Longrightarrow> list_all (\<lambda>n. r n \<noteq> None) [0..<length sv] \<Longrightarrow>
    lstep pcause g (g\<lparr>errs := errs g @ drain_errs sv r, drained := drain_errs sv r, rpc := RTear tds\<rparr>)"
| tear_one: "rpc g = RTear (td # tds) \<Longrightarrow> \<not> deadline g \<Longrightarrow>
    lstep pcause g (g\<lparr>events := events g @ [EvTeardown td], rpc := RTear tds\<rparr>)"
| tear_panic: "rpc g = RTear (td # tds) \<Longrightarrow> \<not> deadline g \<Longrightarrow>
    lstep pcause g (g\<lparr>events := events g @ [EvTeardown td], watching := False, rpc := RPanicked\<rparr>)"
| tear_break: "rpc g = RTear (td # tds) \<Longrightarrow> deadline g \<Longrightarrow> lstep pcause g (g\<lparr>rpc := RJoin\<rparr>)"
| tear_end: "rpc g = RTear [] \<Longrightarrow> lstep pcause g (g\<lparr>rpc := RJoin\<rparr>)"
| join: "rpc g = RJoin \<Longrightarrow> wg g = {} \<or> deadline g \<Longrightarrow> lstep pcause g (g\<lparr>rpc := RJoined\<rparr>)"
| run_return: "rpc g = RJoined \<Longrightarrow>
    lstep pcause g (g\<lparr>watching := False, rpc := RFinished (errors_join (errs g))\<rparr>)"

inductive lreach :: "gerr \<Rightarrow> grp \<Rightarrow> bool" for pcause where
  lreach_new: "lreach pcause (New opts)"
| lreach_step: "lreach pcause g \<Longrightarrow> lstep pcause g g' \<Longrightarrow> lreach pcause g'"

lemmas reg_defs = register_def Defer_def serve_register_def Serve_def Shutdown_def

section \<open>Observations\<close>

text \<open>
  What the accessors show in a state. Run is what a call of Run returns, None while it
  blocks: runOnce lets one call drive run, and all calls wait for its end. If a callback
  panicked, the call that drove run panics, runErr keeps its zero value, and the other calls
  return nil.
\<close>

definition Context :: "grp ctx" where
  "Context = \<lparr>ctxErr = (\<lambda>g. if ctxDone g then Some Canceled else None),
     ctxCause = (\<lambda>g. if ctxDone g then Some Canceled else None)\<rparr>"

lemma Context_sound: "ctx_sound Context"
  by (simp add: ctx_sound_def Context_def)

definition ShutdownCause :: "grp \<Rightarrow> gerr option" where
  "ShutdownCause g = cause g"

definition Run :: "grp \<Rightarrow> gerr option option" where
  "Run g = (case rpc g of RFinished res \<Rightarrow> Some res | RPanicked \<Rightarrow> Some None | _ \<Rightarrow> None)"

definition Done :: "grp \<Rightarrow> bool" where
  "Done g \<longleftrightarrow> Run g \<noteq> None"

definition Ready :: "grp \<Rightarrow> bool" where
  "Ready g \<longleftrightarrow> EvReady \<in> set (events g)"

lemma Run_Some [simp]:
  "Run g = Some res \<longleftrightarrow> rpc g = RFinished res \<or> rpc g = RPanicked \<and> res = None"
  by (auto simp: Run_def split: rpc.splits)

lemma lstep_finished: "lstep pcause g g' \<Longrightarrow> rpc g = RFinished res \<or> rpc g = RPanicked \<Longrightarrow> rpc g' = rpc g"
  by (induction rule: lstep.induct) (auto simp: reg_defs split: if_splits)

lemma lsteps_Run:
  assumes "(lstep pcause)\<^sup>*\<^sup>* g g'" and "Run g = Some res"
  shows "Run g' = Some res"
  using assms
proof (induction rule: rtranclp_induct)
  case (step y z)
  then show ?case using lstep_finished [OF step.hyps(2), of res] by auto
qed simp

text \<open>Ready is closed only once every goroutine registered before has been spawned.\<close>

fun spawned :: "rpc \<Rightarrow> bool" where
  "spawned RIdle = False"
| "spawned (RSpawn ws) = False"
| "spawned RSignals = False"
| "spawned RReady = False"
| "spawned _ = True"

lemma ready_after_spawn: "lreach pcause g \<Longrightarrow> Ready g \<longleftrightarrow> spawned (rpc g)"
proof (induction rule: lreach.induct)
  case (lreach_new opts)
  then show ?case by (simp add: New_def Ready_def)
next
  case (lreach_step g g')
  from lreach_step.hyps(2) lreach_step.IH show ?case
    by (induction rule: lstep.induct) (auto simp: reg_defs Ready_def split: if_splits)
qed

section \<open>Control\<close>

fun working :: "lpc \<Rightarrow> bool" where
  "working (LFn w) = True"
| "working (LReturned w r) = True"
| "working (LHandling w e) = True"
| "working (LCollecting w e) = True"
| "working (LChecking w) = True"
| "working _ = False"

text \<open>The phases of run after ctx.Done, and after stopped was set.\<close>

fun unblocked :: "rpc \<Rightarrow> bool" where
  "unblocked RIdle = False"
| "unblocked (RSpawn ws) = False"
| "unblocked RSignals = False"
| "unblocked RReady = False"
| "unblocked RBlocked = False"
| "unblocked _ = True"

fun closing :: "rpc \<Rightarrow> bool" where
  "closing RStopping = False"
| "closing p = unblocked p"

fun joined :: "rpc \<Rightarrow> bool" where
  "joined RJoined = True"
| "joined (RFinished r) = True"
| "joined _ = False"

lemma phases: "joined p \<Longrightarrow> closing p" "closing p \<Longrightarrow> unblocked p"
  by (cases p; simp)+

definition once_inv :: "grp \<Rightarrow> bool" where
  "once_inv g \<longleftrightarrow> (ctxDone g \<longrightarrow> shutdownOnce g) \<and> (shutdownOnce g \<longrightarrow> stopped g) \<and>
     (unblocked (rpc g) \<longrightarrow> ctxDone g) \<and>
     (\<forall>i. lpcs g i = LCancel \<longrightarrow> shutdownOnce g) \<and>
     (shutdownOnce g \<longrightarrow> ctxDone g \<or> (\<exists>i. lpcs g i = LCancel))"

definition wg_inv :: "grp \<Rightarrow> bool" where
  "wg_inv g \<longleftrightarrow> (\<forall>i. working (lpcs g i) \<longrightarrow> i \<in> wg g) \<and>
     (joined (rpc g) \<and> \<not> deadline g \<longrightarrow> wg g = {})"

lemma once_invD:
  assumes "once_inv g"
  shows "ctxDone g \<Longrightarrow> shutdownOnce g" "shutdownOnce g \<Longrightarrow> stopped g" "unblocked (rpc g) \<Longrightarrow> ctxDone g"
    "lpcs g i = LCancel \<Longrightarrow> shutdownOnce g" "shutdownOnce g \<Longrightarrow> ctxDone g \<or> (\<exists>i. lpcs g i = LCancel)"
  using assms unfolding once_inv_def by blast+

text \<open>Steps that touch neither the once nor a goroutine that cancels keep the first invariant.\<close>

lemma once_inv_cong:
  assumes "once_inv g" and "ctxDone g' = ctxDone g" and "shutdownOnce g' = shutdownOnce g"
    and "stopped g \<longrightarrow> stopped g'" and "unblocked (rpc g') \<longrightarrow> unblocked (rpc g) \<or> ctxDone g"
    and "\<And>i. lpcs g' i = LCancel \<longleftrightarrow> lpcs g i = LCancel"
  shows "once_inv g'"
  using assms unfolding once_inv_def by auto

lemma lstep_once: "lstep pcause g g' \<Longrightarrow> once_inv g \<Longrightarrow> once_inv g'"
proof (induction rule: lstep.induct)
  case (shutdown_first g i c)
  then show ?case using once_invD [OF shutdown_first.prems] by (auto simp: once_inv_def)
next
  case (cancel g i)
  then show ?case using once_invD [OF cancel.prems] by (auto simp: once_inv_def)
qed (erule once_inv_cong; auto simp: reg_defs split: if_splits)+

lemma wg_inv_cong:
  assumes "wg_inv g" and "wg g' = wg g" and "joined (rpc g') \<and> \<not> deadline g' \<longrightarrow> joined (rpc g) \<and> \<not> deadline g \<or> wg g = {}"
    and "\<And>i. working (lpcs g' i) \<longrightarrow> working (lpcs g i)"
  shows "wg_inv g'"
  using assms unfolding wg_inv_def by auto

lemma wg_inv_insert:
  assumes "wg_inv g" and "wg g' = insert i (wg g)" and "\<not> joined (rpc g')"
    and "\<And>j. j \<noteq> i \<Longrightarrow> lpcs g' j = lpcs g j"
  shows "wg_inv g'"
  using assms unfolding wg_inv_def by (metis insertCI)

lemma lstep_wg: "lstep pcause g g' \<Longrightarrow> once_inv g \<Longrightarrow> wg_inv g \<Longrightarrow> wg_inv g'"
proof (induction rule: lstep.induct)
  case (require g i name)
  have j: "started g \<Longrightarrow> \<not> stopped g \<Longrightarrow> \<not> joined (rpc g)"
    using once_invD [OF require(2)] phases by blast
  show ?case
  proof (cases "started g \<and> \<not> stopped g")
    case True
    then show ?thesis using j by (intro wg_inv_insert [OF require(3), of _ i]) (auto simp: register_def)
  next
    case False
    then show ?thesis by (intro wg_inv_cong [OF require(3)]) (auto simp: register_def)
  qed
next
  case (serve_require g i name)
  have j: "started g \<Longrightarrow> \<not> stopped g \<Longrightarrow> \<not> joined (rpc g)"
    using once_invD [OF serve_require(2)] phases by blast
  show ?case
  proof (cases "started g \<and> \<not> stopped g")
    case True
    then show ?thesis using j by (intro wg_inv_insert [OF serve_require(3), of _ i]) (auto simp: register_def)
  next
    case False
    then show ?thesis by (intro wg_inv_cong [OF serve_require(3)]) (auto simp: register_def)
  qed
next
  case (run_spawn g w ws i)
  then show ?case by (intro wg_inv_insert [OF run_spawn(4), of _ i]) auto
next
  case (wg_done g i)
  then show ?case by (auto simp: wg_inv_def)
qed (erule wg_inv_cong; auto simp: reg_defs split: if_splits)+

lemma lreach_control: "lreach pcause g \<Longrightarrow> once_inv g \<and> wg_inv g"
proof (induction rule: lreach.induct)
  case (lreach_new opts)
  then show ?case by (simp add: once_inv_def wg_inv_def New_def)
next
  case (lreach_step g g')
  then show ?case using lstep_once lstep_wg by blast
qed

section \<open>Errors\<close>

fun reporting :: "lpc \<Rightarrow> gerr option" where
  "reporting (LHandling w e) = Some e"
| "reporting (LCollecting w e) = Some e"
| "reporting _ = None"

text \<open>The failures on their way into errs, f being what each goroutine reports.\<close>

definition pend :: "(nat \<Rightarrow> gerr option) \<Rightarrow> gerr multiset" where
  "pend f = image_mset (\<lambda>i. the (f i)) (mset_set {i. f i \<noteq> None})"

lemma pend_none [simp]: "pend (\<lambda>i. None) = {#}"
  by (simp add: pend_def)

lemma pend_add:
  assumes "finite {i. f i \<noteq> None}" and "f i = None"
  shows "pend (f(i := Some e)) = add_mset e (pend f)" and "finite {j. (f(i := Some e)) j \<noteq> None}"
proof -
  have s: "{j. (f(i := Some e)) j \<noteq> None} = insert i {j. f j \<noteq> None}" by auto
  show "finite {j. (f(i := Some e)) j \<noteq> None}" unfolding s using assms(1) by simp
  have "image_mset (\<lambda>j. the ((f(i := Some e)) j)) (mset_set {j. f j \<noteq> None}) = pend f"
    unfolding pend_def using assms by (intro image_mset_cong) auto
  then show "pend (f(i := Some e)) = add_mset e (pend f)"
    unfolding pend_def [of "f(i := Some e)"] s using assms by simp
qed

lemma pend_remove:
  assumes "finite {i. f i \<noteq> None}" and "f i = Some e"
  shows "pend f = add_mset e (pend (f(i := None)))" and "finite {j. (f(i := None)) j \<noteq> None}"
proof -
  show fin: "finite {j. (f(i := None)) j \<noteq> None}" by (rule finite_subset [OF _ assms(1)]) auto
  show "pend f = add_mset e (pend (f(i := None)))"
    using pend_add(1) [OF fin fun_upd_same, of e] assms(2) by (simp add: fun_upd_idem del: fun_upd_apply)
qed

definition reports :: "grp \<Rightarrow> nat \<Rightarrow> gerr option" where
  "reports g i = reporting (lpcs g i)"

definition err_inv :: "grp \<Rightarrow> bool" where
  "err_inv g \<longleftrightarrow> finite {i. reports g i \<noteq> None} \<and>
     mset (errs g) + pend (reports g) = mset (failures g) + mset (drained g) \<and>
     (\<forall>i e. reports g i = Some e \<longrightarrow> e \<in> set (failures g))"

lemma err_inv_cong:
  assumes "err_inv g" and "failures g' = failures g" and "errs g' = errs g" and "drained g' = drained g"
    and "\<And>i. reporting (lpcs g' i) = reporting (lpcs g i)"
  shows "err_inv g'"
proof -
  have "reports g' = reports g" using assms(5) by (simp add: reports_def fun_eq_iff)
  then show ?thesis using assms(1-4) unfolding err_inv_def by simp
qed

text \<open>The drain errors are added once.\<close>

definition drain_inv :: "grp \<Rightarrow> bool" where
  "drain_inv g \<longleftrightarrow> (\<not> closing (rpc g) \<longrightarrow> drained g = []) \<and> (\<forall>sv r tds. rpc g = RDrain sv r tds \<longrightarrow> drained g = [])"

lemma lstep_drain: "lstep pcause g g' \<Longrightarrow> drain_inv g \<Longrightarrow> drain_inv g'"
  by (induction rule: lstep.induct) (auto simp: drain_inv_def reg_defs split: if_splits)

lemma lstep_err: "lstep pcause g g' \<Longrightarrow> drain_inv g \<Longrightarrow> err_inv g \<Longrightarrow> err_inv g'"
proof (induction rule: lstep.induct)
  case (test_failure g i w e)
  let ?g = "lgo (g\<lparr>failures := failures g @ [e]\<rparr>) i (LHandling w e)"
  have r: "reports ?g = (reports g)(i := Some e)" by (simp add: reports_def fun_eq_iff)
  have "reports g i = None" using test_failure by (simp add: reports_def)
  from pend_add [where f = "reports g", OF _ this, of e] show ?case using test_failure(4) unfolding err_inv_def r by simp
next
  case (handle g i w e)
  then show ?case by (intro err_inv_cong [OF handle(3)]) auto
next
  case (collect g i w e)
  let ?g = "lgo (g\<lparr>errs := errs g @ [e]\<rparr>) i (LShut (Some (failure_cause w e)))"
  have r: "reports ?g = (reports g)(i := None)" by (simp add: reports_def fun_eq_iff)
  have "reports g i = Some e" using collect by (simp add: reports_def)
  from pend_remove [where f = "reports g", OF _ this] show ?case using collect(3) unfolding err_inv_def r by simp
next
  case (drain_done g sv r tds)
  then show ?case by (simp add: err_inv_def drain_inv_def reports_def [abs_def] ac_simps)
qed (erule err_inv_cong; auto simp: reg_defs split: if_splits)+

definition result_inv :: "grp \<Rightarrow> bool" where
  "result_inv g \<longleftrightarrow> (\<forall>res. rpc g = RFinished res \<longrightarrow> \<not> deadline g \<longrightarrow> res = errors_join (errs g))"

lemma lstep_result: "lstep pcause g g' \<Longrightarrow> wg_inv g \<Longrightarrow> result_inv g \<Longrightarrow> result_inv g'"
proof (induction rule: lstep.induct)
  case (collect g i w e)
  then have "i \<in> wg g" by (simp add: wg_inv_def)
  then have "joined (rpc g) \<Longrightarrow> deadline g" using collect(2) by (auto simp: wg_inv_def)
  then show ?case by (auto simp: result_inv_def)
qed (auto simp: result_inv_def reg_defs split: if_splits)

section \<open>Causes\<close>

text \<open>Where an autonomous shutdown can come from.\<close>

definition legit :: "gerr \<Rightarrow> grp \<Rightarrow> gerr \<Rightarrow> bool" where
  "legit pcause g c \<longleftrightarrow> c = ErrSignal \<and> signals (cfg g) \<noteq> [] \<or>
     c = pcause \<and> parentCtx (cfg g) \<and> parentEnded g \<or>
     (\<exists>w e. c = failure_cause w e \<and> e \<in> set (failures g)) \<or> (\<exists>w. c = exit_cause w)"

definition cause_inv :: "gerr \<Rightarrow> grp \<Rightarrow> bool" where
  "cause_inv pcause g \<longleftrightarrow>
     (\<forall>c. cause g = Some c \<longrightarrow> legit pcause g c) \<and>
     (\<forall>i c. lpcs g i = LShut (Some c) \<longrightarrow> legit pcause g c) \<and>
     (sigWatching g \<longrightarrow> signals (cfg g) \<noteq> []) \<and> (watching g \<longrightarrow> parentCtx (cfg g))"

lemma legit_mono:
  assumes "legit pcause g c" and "cfg g' = cfg g" and "parentEnded g \<longrightarrow> parentEnded g'"
    and "set (failures g) \<subseteq> set (failures g')"
  shows "legit pcause g' c"
  using assms(1,3,4) unfolding legit_def assms(2) by auto

lemma cause_inv_step:
  assumes "cause_inv pcause g" and "cfg g' = cfg g" and "parentEnded g \<longrightarrow> parentEnded g'"
    and "set (failures g) \<subseteq> set (failures g')"
    and "\<And>c. cause g' = Some c \<Longrightarrow> cause g = Some c \<or> legit pcause g c"
    and "\<And>i c. lpcs g' i = LShut (Some c) \<Longrightarrow> lpcs g i = LShut (Some c) \<or> legit pcause g c"
    and "sigWatching g' \<longrightarrow> sigWatching g \<or> signals (cfg g) \<noteq> []"
    and "watching g' \<longrightarrow> watching g \<or> parentCtx (cfg g)"
  shows "cause_inv pcause g'"
proof -
  note inv = assms(1) [unfolded cause_inv_def]
  have "legit pcause g' c" if "legit pcause g c" for c
    by (rule legit_mono [OF that assms(2-4)])
  then show ?thesis
    unfolding cause_inv_def using inv assms(5-8) unfolding assms(2) by blast
qed

lemma lstep_cause:
  "lstep pcause g g' \<Longrightarrow> err_inv g \<Longrightarrow> cause_inv pcause g \<Longrightarrow> cause_inv pcause g'"
proof (induction rule: lstep.induct)
  case (shutdown_first g i c)
  then show ?case by (intro cause_inv_step [OF shutdown_first(4)]) (auto simp: cause_inv_def split: if_splits)
next
  case (collect g i w e)
  then have "e \<in> set (failures g)" unfolding err_inv_def reports_def by (metis reporting.simps(2))
  then have "legit pcause g (failure_cause w e)" unfolding legit_def by blast
  then show ?case by (intro cause_inv_step [OF collect(3)]) (auto split: if_splits)
next
  case (check_active g i w)
  have "legit pcause g (exit_cause w)" unfolding legit_def by blast
  then show ?case by (intro cause_inv_step [OF check_active(4)]) (auto split: if_splits)
next
  case (watch_fire g i)
  then have "legit pcause g pcause" unfolding legit_def cause_inv_def by blast
  then show ?case by (intro cause_inv_step [OF watch_fire(5)]) (auto split: if_splits)
next
  case (signal_fire g i)
  then have "legit pcause g ErrSignal" unfolding legit_def cause_inv_def by blast
  then show ?case by (intro cause_inv_step [OF signal_fire(4)]) (auto split: if_splits)
qed (erule cause_inv_step; auto simp: reg_defs split: if_splits)+

lemma lreach_errors:
  "lreach pcause g \<Longrightarrow> drain_inv g \<and> err_inv g \<and> result_inv g \<and> cause_inv pcause g"
proof (induction rule: lreach.induct)
  case (lreach_new opts)
  then show ?case
    by (simp add: drain_inv_def err_inv_def reports_def [abs_def] result_inv_def cause_inv_def New_def)
next
  case (lreach_step g g')
  then show ?case
    using lstep_drain lstep_err lstep_result lstep_cause lreach_control by blast
qed

section \<open>What stays\<close>

lemma lstep_stays:
  assumes "lstep pcause g g'"
  shows "shutdownOnce g \<Longrightarrow> shutdownOnce g' \<and> cause g' = cause g"
    and "stopped g \<Longrightarrow> stopped g' \<and> teardowns g' = teardowns g \<and>
      serverTeardowns g' = serverTeardowns g \<and> set (pending g') \<subseteq> set (pending g)"
  using assms by (induction rule: lstep.induct) (auto simp: reg_defs split: if_splits)

lemma lsteps_stay:
  assumes "(lstep pcause)\<^sup>*\<^sup>* g g'"
  shows "shutdownOnce g \<Longrightarrow> shutdownOnce g' \<and> cause g' = cause g"
    and "stopped g \<Longrightarrow> stopped g' \<and> teardowns g' = teardowns g \<and>
      serverTeardowns g' = serverTeardowns g \<and> set (pending g') \<subseteq> set (pending g)"
proof -
  show "shutdownOnce g \<Longrightarrow> shutdownOnce g' \<and> cause g' = cause g"
    using assms by (induction rule: rtranclp_induct) (auto dest: lstep_stays(1))
  show "stopped g \<Longrightarrow> stopped g' \<and> teardowns g' = teardowns g \<and>
      serverTeardowns g' = serverTeardowns g \<and> set (pending g') \<subseteq> set (pending g)"
    using assms by (induction rule: rtranclp_induct) (auto dest: lstep_stays(2))
qed

section \<open>Order of teardown\<close>

fun shut_event :: "event \<Rightarrow> bool" where
  "shut_event (EvServer n) = True"
| "shut_event (EvTeardown td) = True"
| "shut_event _ = False"

definition shut_events :: "grp \<Rightarrow> event list" where
  "shut_events g = filter shut_event (events g)"

text \<open>All servers have been shut down, then the callbacks run that precede rest.\<close>

definition torn :: "grp \<Rightarrow> teardown list \<Rightarrow> bool" where
  "torn g rest \<longleftrightarrow> stopped g \<and> (\<exists>order dn. shut_events g = map EvServer order @ map EvTeardown dn \<and>
     distinct order \<and> set order = {..<length (serverTeardowns g)} \<and> dn @ rest = teardowns g)"

definition order_inv :: "grp \<Rightarrow> bool" where
  "order_inv g \<longleftrightarrow> (case rpc g of
       RDrain sv r tds \<Rightarrow> stopped g \<and> sv = serverTeardowns g \<and> tds = teardowns g \<and>
         (\<exists>order. shut_events g = map EvServer order \<and> distinct order \<and>
            set order = {n. r n \<noteq> None} \<and> set order \<subseteq> {..<length sv})
     | RTear rest \<Rightarrow> torn g rest
     | RJoin \<Rightarrow> \<exists>rest. torn g rest \<and> (rest = [] \<or> deadline g)
     | RJoined \<Rightarrow> \<exists>rest. torn g rest \<and> (rest = [] \<or> deadline g)
     | RFinished res \<Rightarrow> \<exists>rest. torn g rest \<and> (rest = [] \<or> deadline g)
     | RPanicked \<Rightarrow> \<exists>rest. torn g rest
     | _ \<Rightarrow> shut_events g = [])"

lemma order_inv_cong:
  assumes "order_inv g" and "rpc g' = rpc g" and "shut_events g' = shut_events g"
    and "stopped g \<Longrightarrow> stopped g' \<and> teardowns g' = teardowns g \<and> serverTeardowns g' = serverTeardowns g"
    and "deadline g \<longrightarrow> deadline g'"
  shows "order_inv g'"
proof -
  have "torn g rest \<Longrightarrow> torn g' rest" for rest
    using assms(3,4) unfolding torn_def by auto
  then show ?thesis
    using assms unfolding order_inv_def by (auto split: rpc.splits)
qed

lemma torn_cong:
  assumes "stopped g' = stopped g" "teardowns g' = teardowns g"
    "serverTeardowns g' = serverTeardowns g" "events g' = events g"
  shows "torn g' rest = torn g rest"
  using assms unfolding torn_def shut_events_def by simp

lemma torn_next:
  assumes "torn g (td # tds)" and "stopped g' = stopped g" "teardowns g' = teardowns g"
    "serverTeardowns g' = serverTeardowns g" "events g' = events g @ [EvTeardown td]"
  shows "torn g' tds"
proof -
  obtain order dn where "shut_events g = map EvServer order @ map EvTeardown dn" "distinct order"
    "set order = {..<length (serverTeardowns g)}" "dn @ td # tds = teardowns g" "stopped g"
    using assms(1) unfolding torn_def by blast
  then show ?thesis
    using assms(2-) unfolding torn_def
    by (intro conjI exI [of _ order] exI [of _ "dn @ [td]"]) (simp_all add: shut_events_def)
qed

lemma lstep_order: "lstep pcause g g' \<Longrightarrow> order_inv g \<Longrightarrow> order_inv g'"
proof (induction rule: lstep.induct)
  case (drain_one g sv r tds n e)
  then obtain order where o: "stopped g" "sv = serverTeardowns g" "tds = teardowns g"
    "shut_events g = map EvServer order" "distinct order" "set order = {n. r n \<noteq> None}"
    "set order \<subseteq> {..<length sv}" unfolding order_inv_def by auto
  then show ?case
    using drain_one(2,3) unfolding order_inv_def
    by (auto simp: shut_events_def forced_close_def intro!: exI [of _ "order @ [n]"])
next
  case (drain_done g sv r tds)
  then obtain order where o: "stopped g" "sv = serverTeardowns g" "tds = teardowns g"
    "shut_events g = map EvServer order" "distinct order" "set order = {n. r n \<noteq> None}"
    "set order \<subseteq> {..<length sv}" unfolding order_inv_def by auto
  moreover have "{..<length sv} \<subseteq> {n. r n \<noteq> None}"
    using drain_done(2) by (auto simp: list_all_iff)
  ultimately have "set order = {..<length (serverTeardowns g)}" by auto
  then show ?case
    using o unfolding order_inv_def torn_def
    by (auto simp: shut_events_def intro!: exI [of _ order])
next
  case (tear_one g td tds)
  then show ?case using torn_next [of g td tds] by (simp add: order_inv_def)
next
  case (tear_panic g td tds)
  then show ?case using torn_next [of g td tds] by (auto simp: order_inv_def intro!: exI [of _ tds])
next
  case (tear_break g td tds)
  then show ?case by (auto simp: order_inv_def torn_cong [of "g\<lparr>rpc := RJoin\<rparr>" g])
next
  case (tear_end g)
  then show ?case by (auto simp: order_inv_def torn_cong [of "g\<lparr>rpc := RJoin\<rparr>" g])
next
  case (join g)
  then show ?case by (auto simp: order_inv_def torn_cong [of "g\<lparr>rpc := RJoined\<rparr>" g])
next
  case (run_return g)
  then show ?case
    by (auto simp: order_inv_def torn_cong [of "g\<lparr>watching := False, rpc := RFinished (errors_join (errs g))\<rparr>" g])
next
  case (handle g i w e)
  then show ?case by (intro order_inv_cong [OF handle(2)]) (auto simp: shut_events_def)
qed ((erule order_inv_cong; auto simp: reg_defs shut_events_def split: if_splits; fail) |
    (auto simp: order_inv_def shut_events_def; fail))+

lemma lreach_order: "lreach pcause g \<Longrightarrow> order_inv g"
proof (induction rule: lreach.induct)
  case (lreach_new opts)
  then show ?case by (simp add: order_inv_def shut_events_def New_def)
qed (rule lstep_order)

section \<open>Finishing\<close>

text \<open>Calls of Run can return from here without any worker taking a step.\<close>

definition can_finish :: "gerr \<Rightarrow> grp \<Rightarrow> bool" where
  "can_finish pcause g \<longleftrightarrow>
     (\<exists>g' res. (lstep pcause)\<^sup>*\<^sup>* g g' \<and> Run g' = Some res \<and> lpcs g' = lpcs g)"

lemma can_finish_step:
  assumes "lstep pcause g g'" and "lpcs g' = lpcs g" and "can_finish pcause g'"
  shows "can_finish pcause g"
  using assms unfolding can_finish_def by (metis converse_rtranclp_into_rtranclp)

lemma finish_joined: "rpc g = RJoined \<Longrightarrow> can_finish pcause g"
  unfolding can_finish_def
  by (intro exI conjI, rule r_into_rtranclp, erule run_return) simp_all

lemma finish_join: "rpc g = RJoin \<Longrightarrow> can_finish pcause g"
proof -
  assume r: "rpc g = RJoin"
  let ?g = "g\<lparr>deadline := True\<rparr>"
  have "can_finish pcause (?g\<lparr>rpc := RJoined\<rparr>)" by (rule finish_joined) simp
  then have "can_finish pcause ?g"
    by (rule can_finish_step [rotated 2]) (use r in \<open>auto intro: join\<close>)
  then show ?thesis
    by (rule can_finish_step [rotated 2]) (use r in \<open>auto intro: budget_end\<close>)
qed

lemma finish_tear: "rpc g = RTear tds \<Longrightarrow> can_finish pcause g"
proof -
  assume r: "rpc g = RTear tds"
  let ?g = "g\<lparr>deadline := True\<rparr>"
  have "can_finish pcause (?g\<lparr>rpc := RJoin\<rparr>)" by (rule finish_join) simp
  then have "can_finish pcause ?g"
    by (rule can_finish_step [rotated 2])
      (use r in \<open>cases tds; auto intro: tear_break tear_end\<close>)+
  then show ?thesis
    by (rule can_finish_step [rotated 2]) (use r in \<open>auto intro: budget_end\<close>)
qed

lemma finish_drain: "rpc g = RDrain sv r tds \<Longrightarrow> can_finish pcause g"
proof (induction "card {n. n < length sv \<and> r n = None}" arbitrary: g r rule: less_induct)
  case less
  show ?case
  proof (cases "\<exists>n < length sv. r n = None")
    case True
    then obtain n where n: "n < length sv" "r n = None" by blast
    let ?r = "r(n \<mapsto> server_teardown (sv ! n) None)"
    let ?g = "g\<lparr>events := events g @ EvServer n # forced_close n None, rpc := RDrain sv ?r tds\<rparr>"
    have "{k. k < length sv \<and> ?r k = None} \<subset> {k. k < length sv \<and> r k = None}" using n by auto
    then have "card {k. k < length sv \<and> ?r k = None} < card {k. k < length sv \<and> r k = None}"
      by (intro psubset_card_mono) simp_all
    from less.hyps [OF this, of ?g] have "can_finish pcause ?g" by (simp del: fun_upd_apply)
    then show ?thesis
      by (rule can_finish_step [rotated 2]) (use drain_one [OF less.prems n] in auto)
  next
    case False
    then have a: "list_all (\<lambda>n. r n \<noteq> None) [0..<length sv]" by (simp add: list_all_iff)
    have "can_finish pcause (g\<lparr>errs := errs g @ drain_errs sv r, drained := drain_errs sv r, rpc := RTear tds\<rparr>)"
      by (rule finish_tear) simp
    then show ?thesis
      by (rule can_finish_step [rotated 2]) (use drain_done [OF less.prems a] in auto)
  qed
qed

lemma finish_stopping: "rpc g = RStopping \<Longrightarrow> can_finish pcause g"
proof -
  assume r: "rpc g = RStopping"
  have "can_finish pcause (g\<lparr>stopped := True, rpc := RDrain (serverTeardowns g) (\<lambda>_. None) (teardowns g)\<rparr>)"
    by (rule finish_drain) simp
  then show ?thesis by (rule can_finish_step [rotated 2]) (use run_stop [OF r] in auto)
qed

lemma finish_returned: "Run g = Some res \<Longrightarrow> can_finish pcause g"
  unfolding can_finish_def by blast

lemma finish_unblocked: "unblocked (rpc g) \<Longrightarrow> can_finish pcause g"
proof (cases "rpc g")
  case (RFinished res)
  then show ?thesis by (intro finish_returned [of g res]) simp
next
  case RPanicked
  then show ?thesis by (intro finish_returned [of g None]) simp
qed (auto intro: finish_stopping finish_drain finish_tear finish_join finish_joined)

lemma finish_blocked:
  assumes "rpc g = RBlocked" and "ctxDone g"
  shows "can_finish pcause g"
proof -
  have "can_finish pcause (g\<lparr>rpc := RStopping\<rparr>)" by (rule finish_stopping) simp
  then show ?thesis by (rule can_finish_step [rotated 2]) (use run_unblock [OF assms] in auto)
qed

section \<open>An example run\<close>

text \<open>
  A group with a parent context and one worker, run up to the wait for ctx.Done; then the
  parent ends, and the worker, which watches the parent itself, returns the parent's error.
\<close>

definition ex_group :: grp where
  "ex_group = (New [WithContext True])\<lparr>started := True, wg := {0}, lpcs := (\<lambda>_. LIdle)(0 := LFn (required ''worker'')),
     rpc := RBlocked, watching := True, events := [EvReady]\<rparr>"

lemma New_simps [simp]:
  "ctxDone (New opts) = False" "shutdownOnce (New opts) = False" "cause (New opts) = None"
  "started (New opts) = False" "stopped (New opts) = False" "pending (New opts) = []"
  "serverTeardowns (New opts) = []" "teardowns (New opts) = []" "errs (New opts) = []"
  "wg (New opts) = {}" "lpcs (New opts) = (\<lambda>_. LIdle)" "rpc (New opts) = RIdle"
  "parentEnded (New opts) = False" "deadline (New opts) = False" "watching (New opts) = False"
  "sigWatching (New opts) = False" "failures (New opts) = []" "drained (New opts) = []"
  "events (New opts) = []"
  by (simp_all add: New_def)

lemma New_parent: "cfg (New [WithContext True]) = \<lparr>graceful = defaultGracefulTimeout, signals = [],
    errHandler = False, parentCtx = True\<rparr>"
  by (simp add: New_def WithContext_def)

lemma lreach_ex: "lreach pcause ex_group"
proof -
  let ?n = "New [WithContext True]" and ?w = "required ''worker''"
  have 1: "lreach pcause (?n\<lparr>pending := [?w], lpcs := (\<lambda>_. LIdle)\<rparr>)"
    using lreach_step [OF lreach_new require [of _ 0 _ "''worker''"], of "[WithContext True]"]
    by (simp add: register_def fun_upd_idem)
  have 2: "lreach pcause (?n\<lparr>pending := [], lpcs := (\<lambda>_. LIdle), started := True, rpc := RSpawn [?w]\<rparr>)"
    using lreach_step [OF 1 run_start] by (simp add: New_def)
  have 3: "lreach pcause (?n\<lparr>pending := [], lpcs := (\<lambda>_. LIdle)(0 := LFn ?w), started := True, wg := {0}, rpc := RSpawn []\<rparr>)"
    using lreach_step [OF 2 run_spawn [of _ ?w "[]" 0]] by (simp add: New_def)
  have 4: "lreach pcause (?n\<lparr>pending := [], lpcs := (\<lambda>_. LIdle)(0 := LFn ?w), started := True, wg := {0},
      watching := True, rpc := RSignals\<rparr>)"
    using lreach_step [OF 3 run_watch] by (simp add: New_def WithContext_def)
  have 5: "lreach pcause (?n\<lparr>pending := [], lpcs := (\<lambda>_. LIdle)(0 := LFn ?w), started := True, wg := {0},
      watching := True, sigWatching := False, rpc := RReady\<rparr>)"
    using lreach_step [OF 4 run_signals] by (simp add: New_def WithContext_def)
  have e: "?n\<lparr>pending := [], sigWatching := False\<rparr> = ?n" by (simp add: New_def)
  have "lreach pcause (?n\<lparr>pending := [], sigWatching := False\<rparr>\<lparr>lpcs := (\<lambda>_. LIdle)(0 := LFn ?w), started := True, wg := {0},
      watching := True, rpc := RBlocked, events := [EvReady]\<rparr>)"
    using lreach_step [OF 5 run_ready] by (simp add: New_def)
  then show ?thesis unfolding e by (simp add: ex_group_def New_def)
qed

lemma ex_group_simps [simp]:
  "lpcs ex_group = (\<lambda>_. LIdle)(0 := LFn (required ''worker''))" "rpc ex_group = RBlocked"
  "ctxDone ex_group = False" "shutdownOnce ex_group = False" "watching ex_group = True"
  "parentCtx (cfg ex_group) = True" "parentEnded ex_group = False" "failures ex_group = []"
  "teardowns ex_group = []" "cause ex_group = None" "serverTeardowns ex_group = []" "pending ex_group = []"
  "errs ex_group = []" "wg ex_group = {0}" "deadline ex_group = False" "errHandler (cfg ex_group) = False"
  "drained ex_group = []" "started ex_group = True" "stopped ex_group = False" "events ex_group = [EvReady]"
  by (simp_all add: ex_group_def New_parent)

text \<open>The worker fails with an error of its own, and the failure is collected and acted on.\<close>

definition ex_failing :: "gerr \<Rightarrow> grp" where
  "ex_failing e = ex_group\<lparr>failures := [e], errs := [e],
     lpcs := (\<lambda>_. LIdle)(0 := LShut (Some (failure_cause (required ''worker'') e)))\<rparr>"

lemma lreach_failing: "lreach pcause (ex_failing e)"
proof -
  let ?w = "required ''worker''"
  have 1: "lreach pcause (lgo ex_group 0 (LReturned ?w (Some e)))"
    using lreach_step [OF lreach_ex fn_return [of _ 0 ?w _ "Some e"]] by (simp add: fn_result_def required_def)
  have 2: "lreach pcause (lgo (ex_group\<lparr>failures := [e]\<rparr>) 0 (LHandling ?w e))"
    using lreach_step [OF 1 test_failure [of _ 0 ?w e]] by (simp add: is_failure_def shuttingDown_def)
  have 3: "lreach pcause (lgo (ex_group\<lparr>failures := [e]\<rparr>) 0 (LCollecting ?w e))"
    using lreach_step [OF 2 handle [of _ 0 ?w e]] by (simp add: ex_group_def New_def WithContext_def)
  show ?thesis
    using lreach_step [OF 3 collect [of _ 0 ?w e]] by (simp add: ex_failing_def)
qed

text \<open>The example after the shutdown that the failure triggers, up to the end of Run.\<close>

lemma failing_shut:
  "lreach pcause (lgo ((ex_failing e)\<lparr>shutdownOnce := True,
     cause := Some (failure_cause (required ''worker'') e), stopped := True\<rparr>) 0 LCancel)"
  using lreach_step [OF lreach_failing shutdown_first [of _ 0]] by (simp add: ex_failing_def)

definition ex_finished :: "gerr \<Rightarrow> grp" where
  "ex_finished e = ex_group\<lparr>failures := [e], errs := [e], shutdownOnce := True, ctxDone := True,
     cause := Some (failure_cause (required ''worker'') e), stopped := True,
     lpcs := (\<lambda>_. LIdle)(0 := LDone), wg := {}, watching := False, rpc := RFinished (errors_join [e])\<rparr>"

lemma lreach_finished: "lreach pcause (ex_finished e)"
proof -
  let ?c = "Some (failure_cause (required ''worker'') e)"
  let ?s = "ex_group\<lparr>failures := [e], errs := [e], shutdownOnce := True, ctxDone := True, cause := ?c,
     stopped := True, lpcs := (\<lambda>_. LIdle)(0 := LDone)\<rparr>"
  have 1: "lreach pcause ?s"
    using lreach_step [OF failing_shut cancel [of _ 0]] by (simp add: ex_failing_def ex_group_def New_def)
  have 2: "lreach pcause (?s\<lparr>wg := {}\<rparr>)"
    using lreach_step [OF 1 wg_done [of _ 0]] by simp
  have 3: "lreach pcause (?s\<lparr>wg := {}, rpc := RStopping\<rparr>)"
    using lreach_step [OF 2 run_unblock] by simp
  have 4: "lreach pcause (?s\<lparr>wg := {}, rpc := RDrain [] (\<lambda>_. None) []\<rparr>)"
    using lreach_step [OF 3 run_stop] by (simp add: ex_group_def New_def)
  have 5: "lreach pcause (?s\<lparr>wg := {}, rpc := RTear []\<rparr>)"
    using lreach_step [OF 4 drain_done [of _ "[]" "\<lambda>_. None" "[]"]]
    by (simp add: drain_errs_def ex_group_def New_def)
  have 6: "lreach pcause (?s\<lparr>wg := {}, rpc := RJoin\<rparr>)"
    using lreach_step [OF 5 tear_end] by simp
  have 7: "lreach pcause (?s\<lparr>wg := {}, rpc := RJoined\<rparr>)"
    using lreach_step [OF 6 join] by simp
  show ?thesis
    using lreach_step [OF 7 run_return] by (simp add: ex_finished_def ex_group_def New_def)
qed

section \<open>Properties\<close>

text \<open>
  The cause is recorded once, before the context is cancelled. In every reachable state
  in which the group's context has ended, the once of shutdown has run and registration is
  closed; and from the moment the once is taken no later step changes the cause, whichever
  workers, signals, parents or callers ask for shutdown too.
\<close>

lemma shutdown_cause_recorded_once:
  assumes "lreach pcause g" and "ctxDone g \<or> shutdownOnce g" and "(lstep pcause)\<^sup>*\<^sup>* g g'"
  shows "shutdownOnce g \<and> stopped g \<and> ShutdownCause g' = ShutdownCause g"
  unfolding ShutdownCause_def using once_invD [of g] lreach_control [OF assms(1)] assms(2) lsteps_stay(1) [OF assms(3)] by blast



lemma finished_reports:
  assumes "lreach pcause g" and "rpc g = RFinished res" and "\<not> deadline g"
  shows "res = errors_join (errs g) \<and> mset (errs g) = mset (failures g) + mset (drained g) \<and>
    (\<forall>e. e \<in> set (failures g) \<union> set (drained g) \<longrightarrow> (\<exists>r. res = Some r \<and> errors_is r e))"
proof -
  have inv: "wg_inv g" "err_inv g" "result_inv g"
    using lreach_control [OF assms(1)] lreach_errors [OF assms(1)] by simp_all
  have "reporting (lpcs g i) = None" for i
  proof -
    have "wg g = {}" using inv(1) assms(2,3) unfolding wg_inv_def by simp
    then have "\<not> working (lpcs g i)" using inv(1) unfolding wg_inv_def by blast
    then show ?thesis by (cases "lpcs g i") simp_all
  qed
  then have m: "mset (errs g) = mset (failures g) + mset (drained g)"
    using inv(2) unfolding err_inv_def by (simp add: reports_def [abs_def])
  have r: "res = errors_join (errs g)" using inv(3) assms(2,3) unfolding result_inv_def by simp
  have "\<exists>r. res = Some r \<and> errors_is r e" if "e \<in> set (errs g)" for e
  proof (cases res)
    case None
    then show ?thesis using r that by simp
  next
    case (Some a)
    then show ?thesis using errors_join_is r that by metis
  qed
  moreover have "set (errs g) = set (failures g) \<union> set (drained g)"
    using m by (metis set_mset_mset set_mset_union)
  ultimately show ?thesis using r m by blast
qed



text \<open>
  A panic hides the failures: from a state in which a callback is next, whatever was
  collected, the panic of the callback makes the other calls of Run return nil.
\<close>

lemma panic_hides_failures:
  assumes "rpc g = RTear (td # tds)" and "\<not> deadline g"
  shows "\<exists>g'. lstep pcause g g' \<and> errs g' = errs g \<and> Run g' = Some None"
  by (intro exI conjI, rule tear_panic [OF assms]) simp_all

lemma lsteps_teardowns: "(lstep pcause)\<^sup>*\<^sup>* g g' \<Longrightarrow> \<exists>later. teardowns g' = teardowns g @ later"
proof (induction rule: rtranclp_induct)
  case (step y z)
  have "\<exists>later. teardowns z = teardowns y @ later"
    using step.hyps(2) by cases (auto simp: reg_defs split: if_splits)
  with step.IH show ?case by auto
qed simp

text \<open>
  C27. Teardown in order. When Run has returned, every server registered before shutdown was
  shut down exactly once and before any callback; the callbacks that ran are a prefix of the
  registered ones, in the order of registration, and all of them unless the graceful budget
  ended or one panicked. A callback that Defer accepted comes after all those registered before it.
\<close>

theorem teardown_in_order:
  assumes "lreach pcause g" and "Run g = Some res"
  shows "\<exists>order dn rest. shut_events g = map EvServer order @ map EvTeardown dn \<and>
    distinct order \<and> set order = {..<length (serverTeardowns g)} \<and>
    dn @ rest = teardowns g \<and> (rest = [] \<or> deadline g \<or> rpc g = RPanicked) \<and>
    (\<forall>d fn g0 g1. Defer d fn g0 = Inr g1 \<longrightarrow> \<not> stopped g0 \<longrightarrow> (lstep pcause)\<^sup>*\<^sup>* g1 g \<longrightarrow>
       (\<exists>later. teardowns g = teardowns g0 @ \<lparr>timeout = d, tfn = fn\<rparr> # later))"
proof -
  have reg: "\<exists>later. teardowns g = teardowns g0 @ \<lparr>timeout = d, tfn = fn\<rparr> # later"
    if "Defer d fn g0 = Inr g1" "\<not> stopped g0" "(lstep pcause)\<^sup>*\<^sup>* g1 g" for d fn g0 g1
    using lsteps_teardowns [OF that(3)] that(1,2) by (auto simp: Defer_def split: if_splits)
  obtain rest where "torn g rest" and d: "rest = [] \<or> deadline g \<or> rpc g = RPanicked"
    using lreach_order [OF assms(1)] assms(2) unfolding order_inv_def by auto
  then obtain order dn where "shut_events g = map EvServer order @ map EvTeardown dn" "distinct order"
    "set order = {..<length (serverTeardowns g)}" "dn @ rest = teardowns g"
    unfolding torn_def by blast
  with d reg show ?thesis by blast
qed

theorem teardown_in_order_witness: "shut_events (ex_finished (Err ''down'')) = []"
  using teardown_in_order [OF lreach_finished [of Canceled "Err ''down''"]]
  by (auto simp: ex_finished_def)



text \<open>
  Registration closes. Once registration is stopped, no step of any caller changes the
  teardown callbacks or the servers to shut down, and the goroutines waiting for Run can
  only become fewer.
\<close>

lemma registration_closes:
  assumes "stopped g" and "(lstep pcause)\<^sup>*\<^sup>* g g'"
  shows "stopped g' \<and> teardowns g' = teardowns g \<and> serverTeardowns g' = serverTeardowns g \<and>
    set (pending g') \<subseteq> set (pending g)"
  using lsteps_stay(2) [OF assms(2,1)] .

text \<open>
  The parent's cause can be lost: a worker that watches the parent itself may return the
  parent's error before the watcher of WithContext runs. The error counts as a clean stop,
  but the shutdown is recorded as the worker's unexpected exit.
\<close>

theorem parent_cause_can_be_lost:
  "\<exists>g. lreach pcause g \<and> parentCtx (cfg g) \<and> parentEnded g \<and> failures g = [] \<and> shutdownOnce g \<and>
     cause g = Some (exit_cause (required ''worker''))"
proof -
  let ?w = "required ''worker''" and ?p = "ex_group\<lparr>parentEnded := True\<rparr>"
  have 1: "lreach pcause ?p"
    by (rule lreach_step [OF lreach_ex parent_end]) simp
  have 2: "lreach pcause (lgo ?p 0 (LReturned ?w (Some Canceled)))"
    using lreach_step [OF 1 fn_return [of _ 0 ?w _ "Some Canceled"]]
    by (simp add: fn_result_def required_def)
  have 3: "lreach pcause (lgo ?p 0 (LChecking ?w))"
    using lreach_step [OF 2 test_clean [of _ 0 ?w "Some Canceled"]]
    by (simp add: is_failure_def shuttingDown_def isContextErr_def)
  have 4: "lreach pcause (lgo ?p 0 (LShut (Some (exit_cause ?w))))"
    using lreach_step [OF 3 check_active [of _ 0 ?w]] by simp
  have "lreach pcause (lgo ((lgo ?p 0 (LShut (Some (exit_cause ?w))))\<lparr>shutdownOnce := True,
      cause := Some (exit_cause ?w), stopped := True\<rparr>) 0 LCancel)"
    by (rule lreach_step [OF 4 shutdown_first]) simp_all
  then show ?thesis by (intro exI conjI, assumption) simp_all
qed

end
