(* ===== verification/LifecycleSpec.thy ===== *)
theory LifecycleSpec
  imports Lifecycle
begin

text \<open>
  What a Group promises, stated apart from how it works: the agreement of its fields with the
  phase of run, that run never gets stuck, and an abstract contract of a few operations that
  every interleaving of the detailed steps refines.
\<close>

section \<open>Agreement of the fields\<close>

text \<open>run before ctx.Done, which is before any graceful budget.\<close>

fun early :: "rpc \<Rightarrow> bool" where
  "early RIdle = True"
| "early (RSpawn ws) = True"
| "early RSignals = True"
| "early RReady = True"
| "early RBlocked = True"
| "early RStopping = True"
| "early _ = False"

definition group_ok :: "grp \<Rightarrow> bool" where
  "group_ok g \<longleftrightarrow>
     (started g \<longleftrightarrow> rpc g \<noteq> RIdle) \<and> (started g \<longrightarrow> pending g = []) \<and>
     (\<not> started g \<longrightarrow> wg g = {} \<and> events g = [] \<and> \<not> watching g \<and> \<not> sigWatching g) \<and>
     (early (rpc g) \<longrightarrow> \<not> deadline g) \<and>
     finite {i. lpcs g i \<noteq> LIdle} \<and> finite (wg g) \<and>
     count_list (events g) EvReady = (if spawned (rpc g) then 1 else 0) \<and>
     (\<forall>e. EvHandler e \<in> set (events g) \<longrightarrow> errHandler (cfg g)) \<and>
     (\<forall>td \<in> set (teardowns g). 0 < timeout td)"

lemma finite_idle_upd: "finite {i. f i \<noteq> LIdle} \<Longrightarrow> finite {j. (f(i := p)) j \<noteq> LIdle}"
  by (rule finite_subset [of _ "insert i {j. f j \<noteq> LIdle}"]) auto

lemma group_ok_cong:
  assumes "group_ok g" and "started g' = started g" "rpc g' = rpc g" "pending g' = pending g"
    "wg g' \<subseteq> wg g" "events g' = events g" "watching g' \<longrightarrow> watching g" "sigWatching g' \<longrightarrow> sigWatching g"
    "deadline g' = deadline g" "cfg g' = cfg g" "teardowns g' = teardowns g" "lpcs g' = lpcs g"
  shows "group_ok g'"
  using assms finite_subset [of "wg g'" "wg g"] unfolding group_ok_def by auto

lemma group_ok_lgo: "group_ok g \<Longrightarrow> group_ok (lgo g i p)"
  using finite_idle_upd [of "lpcs g" i p] unfolding group_ok_def by simp

lemma group_ok_register: "group_ok g \<Longrightarrow> group_ok (register i w g)"
proof -
  assume ok: "group_ok g"
  then have "group_ok (g\<lparr>wg := insert i (wg g)\<rparr>)" if "started g" using that by (simp add: group_ok_def)
  moreover have "group_ok (g\<lparr>pending := pending g @ [w]\<rparr>)" if "\<not> started g" using ok that by (simp add: group_ok_def)
  ultimately show ?thesis
    using group_ok_lgo [OF ok, of i LIdle] group_ok_lgo [of "g\<lparr>wg := insert i (wg g)\<rparr>" i "LFn w"]
      group_ok_lgo [of "g\<lparr>pending := pending g @ [w]\<rparr>" i LIdle]
    by (simp add: register_def)
qed

lemma lstep_group_ok: "lstep pcause g g' \<Longrightarrow> wg_inv g \<Longrightarrow> group_ok g \<Longrightarrow> group_ok g'"
proof (induction rule: lstep.induct)
  case (l_defer d fn g g')
  then have "g' = g \<or> 0 < d \<and> g' = g\<lparr>teardowns := teardowns g @ [\<lparr>timeout = d, tfn = fn\<rparr>]\<rparr>"
    by (simp add: Defer_def split: if_splits)
  moreover have "group_ok (g\<lparr>teardowns := teardowns g @ [\<lparr>timeout = d, tfn = fn\<rparr>]\<rparr>)" if "0 < d"
    using l_defer.prems that by (simp add: group_ok_def ball_Un)
  ultimately show ?case using l_defer.prems by blast
next
  case (handle g i w e)
  then have "started g" unfolding wg_inv_def group_ok_def by (metis empty_iff working.simps(3))
  then have "group_ok (g\<lparr>events := events g @ (if errHandler (cfg g) then [EvHandler e] else [])\<rparr>)"
    using handle.prems by (simp add: group_ok_def)
  then show ?case
    using group_ok_lgo [of "g\<lparr>events := events g @ (if errHandler (cfg g) then [EvHandler e] else [])\<rparr>" i] by simp
next
  case (run_spawn g w ws i)
  then have "group_ok (g\<lparr>wg := insert i (wg g), rpc := RSpawn ws\<rparr>)" by (simp add: group_ok_def)
  then show ?case using group_ok_lgo [of "g\<lparr>wg := insert i (wg g), rpc := RSpawn ws\<rparr>" i "LFn w"] by simp
next
  case (drain_one g sv r tds n e)
  then show ?case by (simp add: group_ok_def forced_close_def)
next
  case (serve g i name)
  then show ?case unfolding Serve_def serve_register_def
    by (intro group_ok_lgo) (erule group_ok_cong; simp)
next
  case (shutdown_call g i)
  then show ?case unfolding Shutdown_def by (intro group_ok_lgo)
next
  case (budget_end g sv r tds)
  then show ?case by (elim disjE) (simp_all add: group_ok_def)
qed ((rule group_ok_register, assumption) |
    ((rule group_ok_lgo)?, erule group_ok_cong; simp; fail) | (simp add: group_ok_def; fail))+

lemma lreach_group_ok: "lreach pcause g \<Longrightarrow> group_ok g"
proof (induction rule: lreach.induct)
  case (lreach_new opts)
  then show ?case by (simp add: group_ok_def)
next
  case (lreach_step g g')
  then show ?case using lstep_group_ok lreach_control by blast
qed

section \<open>Progress of run\<close>

text \<open>
  What run may wait for: the call of Run, the end of ctx, or the goroutines of the group.
\<close>

fun run_waits :: "grp \<Rightarrow> rpc \<Rightarrow> bool" where
  "run_waits g RIdle = True"
| "run_waits g RBlocked = (\<not> ctxDone g)"
| "run_waits g RJoin = (wg g \<noteq> {} \<and> \<not> deadline g)"
| "run_waits g (RFinished res) = True"
| "run_waits g RPanicked = True"
| "run_waits g _ = False"

lemma group_ok_idle: "group_ok g \<Longrightarrow> \<exists>i. lpcs g i = LIdle"
  using ex_new_if_finite [OF infinite_UNIV_nat, of "{i. lpcs g i \<noteq> LIdle}"] by (auto simp: group_ok_def)

lemma run_progress:
  assumes "group_ok g" and "\<not> run_waits g (rpc g)"
  shows "\<exists>g'. lstep pcause g g' \<and> rpc g' \<noteq> rpc g"
proof (cases "rpc g")
  case (RSpawn ws)
  then show ?thesis
  proof (cases ws)
    case Nil
    then show ?thesis using run_watch [of g] RSpawn by (intro exI conjI) (rule run_watch, simp_all)
  next
    case (Cons w ws')
    obtain i where i: "lpcs g i = LIdle" using group_ok_idle [OF assms(1)] by blast
    have "rpc (lgo (g\<lparr>wg := insert i (wg g), rpc := RSpawn ws'\<rparr>) i (LFn w)) \<noteq> rpc g" using RSpawn Cons by simp
    with run_spawn [OF _ i] show ?thesis using RSpawn Cons by blast
  qed
next
  case RSignals
  then show ?thesis by (intro exI conjI) (rule run_signals, simp_all)
next
  case RReady
  then show ?thesis by (intro exI conjI) (rule run_ready, simp_all)
next
  case RBlocked
  then show ?thesis using assms(2) by (intro exI conjI) (rule run_unblock, simp_all)
next
  case RStopping
  then show ?thesis by (intro exI conjI) (rule run_stop, simp_all)
next
  case (RDrain sv r tds)
  show ?thesis
  proof (cases "\<exists>n < length sv. r n = None")
    case True
    then obtain n where n: "n < length sv" "r n = None" by blast
    have "r(n \<mapsto> server_teardown (sv ! n) None) \<noteq> r" using n(2) by (auto simp: fun_eq_iff)
    then show ?thesis using RDrain by (intro exI conjI) (rule drain_one [OF RDrain n, of _ None], simp)
  next
    case False
    then show ?thesis using RDrain
      by (intro exI conjI) (rule drain_done [OF RDrain], simp_all add: list_all_iff)
  qed
next
  case (RTear tds)
  then show ?thesis
  proof (cases tds)
    case Nil
    then show ?thesis using RTear by (intro exI conjI) (rule tear_end, simp_all)
  next
    case (Cons td tds')
    then show ?thesis
      using RTear tear_one [of g td tds'] tear_break [of g td tds'] by (cases "deadline g") fastforce+
  qed
next
  case RJoin
  then show ?thesis using assms(2) by (intro exI conjI) (rule join, simp_all)
next
  case RJoined
  then show ?thesis by (intro exI conjI) (rule run_return, simp_all)
qed (use assms(2) in simp_all)

section \<open>The contract of a Group\<close>

text \<open>
  The abstract group: the phase of Run, the reason of the shutdown once there is one, and the
  servers and callbacks to tear down.
\<close>

datatype phase = Fresh | Running | Stopping | Over "gerr option"

text \<open>The phases are ordered; two different results of Run are not comparable.\<close>

fun rank :: "phase \<Rightarrow> nat" where
  "rank Fresh = 0"
| "rank Running = 1"
| "rank Stopping = 2"
| "rank (Over res) = 3"

instantiation phase :: order
begin

definition less_eq_phase :: "phase \<Rightarrow> phase \<Rightarrow> bool" where
  "p \<le> q \<longleftrightarrow> p = q \<or> rank p < rank q"

definition less_phase :: "phase \<Rightarrow> phase \<Rightarrow> bool" where
  "p < q \<longleftrightarrow> rank p < rank q"

instance
  by standard (auto simp: less_eq_phase_def less_phase_def)

end

record contract =
  phase :: phase
  reason :: "gerr option option"
  servers :: "string list"
  callbacks :: "teardown list"

inductive cstep :: "contract \<Rightarrow> contract \<Rightarrow> bool" where
  c_server: "reason a = None \<Longrightarrow> cstep a (a\<lparr>servers := servers a @ [name]\<rparr>)"
| c_callback: "reason a = None \<Longrightarrow> 0 < timeout td \<Longrightarrow> cstep a (a\<lparr>callbacks := callbacks a @ [td]\<rparr>)"
| c_shutdown: "reason a = None \<Longrightarrow> cstep a (a\<lparr>reason := Some c\<rparr>)"
| c_run: "phase a = Fresh \<Longrightarrow> cstep a (a\<lparr>phase := Running\<rparr>)"
| c_stop: "phase a = Running \<Longrightarrow> reason a \<noteq> None \<Longrightarrow> cstep a (a\<lparr>phase := Stopping\<rparr>)"
| c_return: "phase a = Stopping \<Longrightarrow> cstep a (a\<lparr>phase := Over res\<rparr>)"

fun phase_of :: "rpc \<Rightarrow> phase" where
  "phase_of RIdle = Fresh"
| "phase_of (RSpawn ws) = Running"
| "phase_of RSignals = Running"
| "phase_of RReady = Running"
| "phase_of RBlocked = Running"
| "phase_of (RFinished res) = Over res"
| "phase_of RPanicked = Over None"
| "phase_of _ = Stopping"

definition contract_of :: "grp \<Rightarrow> contract" where
  "contract_of g = \<lparr>phase = phase_of (rpc g),
     reason = (if shutdownOnce g then Some (ShutdownCause g) else None),
     servers = serverTeardowns g, callbacks = teardowns g\<rparr>"

lemma lstep_refines:
  assumes "lstep pcause g g'" and "once_inv g" and "stopped g \<longrightarrow> shutdownOnce g"
  shows "contract_of g' = contract_of g \<or> cstep (contract_of g) (contract_of g')"
  using assms
proof (induction rule: lstep.induct)
  case (l_defer d fn g g')
  then show ?case
    using c_callback [of "contract_of g" "\<lparr>timeout = d, tfn = fn\<rparr>"]
    by (auto simp: contract_of_def Defer_def ShutdownCause_def once_inv_def split: if_splits)
next
  case (serve g i name)
  then show ?case
    using c_server [of "contract_of g" name]
    by (auto simp: contract_of_def reg_defs ShutdownCause_def once_inv_def split: if_splits)
next
  case (shutdown_first g i c)
  then show ?case using c_shutdown [of "contract_of g" c] by (simp add: contract_of_def ShutdownCause_def)
next
  case (run_start g)
  then show ?case using c_run [of "contract_of g"]
    by (cases "shutdownOnce g") (simp_all add: contract_of_def ShutdownCause_def)
next
  case (run_unblock g)
  then show ?case
    using c_stop [of "contract_of g"] by (simp add: contract_of_def ShutdownCause_def once_inv_def)
next
  case (tear_panic g td tds)
  then show ?case using c_return [of "contract_of g" None]
    by (cases "shutdownOnce g") (simp_all add: contract_of_def ShutdownCause_def)
next
  case (run_return g)
  then show ?case
    using c_return [of "contract_of g" "errors_join (errs g)"]
    by (cases "shutdownOnce g") (simp_all add: contract_of_def ShutdownCause_def)
qed (auto simp: contract_of_def ShutdownCause_def register_def Shutdown_def)

lemma lreach_stopped: "lreach pcause g \<Longrightarrow> stopped g \<longrightarrow> shutdownOnce g"
proof (induction rule: lreach.induct)
  case (lreach_step g g')
  have "once_inv g" using lreach_control [OF lreach_step.hyps(1)] by simp
  then have run: "rpc g = RStopping \<Longrightarrow> shutdownOnce g"
    using once_invD(1,3) by simp
  from lreach_step.hyps(2) lreach_step.IH run show ?case
    by (induction rule: lstep.induct) (auto simp: reg_defs split: if_splits)
qed simp

definition new_contract :: contract where
  "new_contract = \<lparr>phase = Fresh, reason = None, servers = [], callbacks = []\<rparr>"

lemma contract_reached: "lreach pcause g \<Longrightarrow> cstep\<^sup>*\<^sup>* new_contract (contract_of g)"
proof (induction rule: lreach.induct)
  case (lreach_new opts)
  then show ?case by (simp add: contract_of_def new_contract_def)
next
  case (lreach_step g g')
  have "contract_of g' = contract_of g \<or> cstep (contract_of g) (contract_of g')"
    using lstep_refines [OF lreach_step.hyps(2)] lreach_control lreach_stopped lreach_step.hyps(1) by blast
  then show ?case using lreach_step.IH by (elim disjE) (simp, rule rtranclp.rtrancl_into_rtrancl)
qed

text \<open>What the contract itself gives: a recorded reason, and the lists it closes, stay.\<close>

lemma contract_closed:
  assumes "cstep\<^sup>*\<^sup>* a b" and "reason a = Some c"
  shows "reason b = Some c \<and> servers b = servers a \<and> callbacks b = callbacks a"
  using assms by (induction rule: rtranclp_induct) (auto elim: cstep.cases)

text \<open>The phase never goes back; a result, which is maximal, stays.\<close>

lemma cstep_phase: "cstep a b \<Longrightarrow> phase a \<le> phase b"
  by (erule cstep.cases) (simp_all add: less_eq_phase_def)

lemma contract_phase: "cstep\<^sup>*\<^sup>* a b \<Longrightarrow> phase a \<le> phase b"
  by (induction rule: rtranclp_induct) (auto dest: cstep_phase intro: order_trans)

lemma over_maximal: "Over res \<le> p \<Longrightarrow> p = Over res"
  by (cases p) (simp_all add: less_eq_phase_def)

lemma contract_over: "cstep\<^sup>*\<^sup>* a b \<Longrightarrow> phase a = Over res \<Longrightarrow> phase b = Over res"
  using contract_phase over_maximal by metis

lemma contract_needs_reason:
  assumes "cstep\<^sup>*\<^sup>* new_contract a" and "phase a = Stopping \<or> phase a = Over res"
  shows "reason a \<noteq> None"
proof -
  have "(phase a = Stopping \<or> (\<exists>res. phase a = Over res)) \<longrightarrow> reason a \<noteq> None"
    using assms(1) by (induction rule: rtranclp_induct) (auto elim!: cstep.cases simp: new_contract_def)
  then show ?thesis using assms(2) by blast
qed

section \<open>Properties\<close>

text \<open>
  C29. A group is well-formed and its run makes progress. In every reachable state the fields
  agree with the phase of run: started exactly once Run was called, no goroutine pending or
  counted out of turn, Ready closed exactly once and after all spawns, no budget before the
  wait has ended, handler calls only if a handler is set, and every callback with a positive
  timeout; and unless run waits for its call, for the end of ctx or, within the budget, for
  the goroutines, it can take a step.
\<close>

theorem group_well_formed:
  assumes "lreach pcause g"
  shows "group_ok g \<and> (run_waits g (rpc g) \<or> (\<exists>g'. lstep pcause g g' \<and> rpc g' \<noteq> rpc g))"
  using lreach_group_ok [OF assms] run_progress [of g pcause] by blast

theorem group_well_formed_witness: "count_list (events ex_group) EvReady = 1 \<and> finite (wg ex_group)"
  using group_well_formed [OF lreach_ex [of Canceled]] unfolding group_ok_def by simp

text \<open>
  C28. A group refines its contract. Every reachable state shows a state of the abstract
  group that its few operations reach: registrations before a reason is recorded, one
  reason, Run once, teardown only after there is a reason, and a result that stays; and
  every step of any goroutine is one of these operations or invisible, and the phase never
  goes back.
\<close>

theorem group_refines_contract:
  assumes "lreach pcause g"
  shows "cstep\<^sup>*\<^sup>* new_contract (contract_of g) \<and>
    (\<forall>g'. lstep pcause g g' \<longrightarrow> (contract_of g' = contract_of g \<or> cstep (contract_of g) (contract_of g')) \<and>
       phase (contract_of g) \<le> phase (contract_of g'))"
proof -
  have "contract_of g' = contract_of g \<or> cstep (contract_of g) (contract_of g')" if "lstep pcause g g'" for g'
    using lstep_refines [OF that] lreach_control [OF assms] lreach_stopped [OF assms] by blast
  with contract_reached [OF assms] show ?thesis using cstep_phase order_refl by metis
qed

theorem group_refines_contract_witness:
  "cstep\<^sup>*\<^sup>* new_contract \<lparr>phase = Over (errors_join [Err ''down'']),
     reason = Some (Some (failure_cause (required ''worker'') (Err ''down''))), servers = [], callbacks = []\<rparr>"
  using group_refines_contract [OF lreach_finished [of Canceled "Err ''down''"]]
  by (simp add: contract_of_def ShutdownCause_def ex_finished_def)

end
