(* ===== verification/CacheTtl.thy ===== *)
theory CacheTtl
  imports GoBase
begin

text \<open>
  Expiries and their resolution: cache/ttl.go, the options of cache/options.go, and the
  configuration checks of NewMemory (cache/memory.go). resolveExpiry is compared with an
  exact specification (spec_resolve) that has no saturation and clamps with min and max.
\<close>

section \<open>Expiry values\<close>

datatype expiryKind = expiryDefault | expiryNever | expiryKeep | expiryAfter | expiryAt

record expiry =
  kind :: expiryKind
  dur :: duration
  at :: time

definition After :: "duration \<Rightarrow> expiry" where
  "After d = \<lparr>kind = expiryAfter, dur = d, at = 0\<rparr>"

definition At :: "time \<Rightarrow> expiry" where
  "At t = \<lparr>kind = expiryAt, dur = 0, at = t\<rparr>"

definition Never :: expiry where
  "Never = \<lparr>kind = expiryNever, dur = 0, at = 0\<rparr>"

definition Default :: expiry where
  "Default = \<lparr>kind = expiryDefault, dur = 0, at = 0\<rparr>"

definition Keep :: expiry where
  "Keep = \<lparr>kind = expiryKeep, dur = 0, at = 0\<rparr>"

lemmas expiry_defs = After_def At_def Never_def Default_def Keep_def

section \<open>Configuration\<close>

record memoryConfig =
  defaultTTL :: duration
  minTTL :: duration
  maxTTL :: duration
  cleanupInterval :: duration
  rebuildInterval :: duration

type_synonym memoryOption = "memoryConfig \<Rightarrow> memoryConfig"

definition WithCleanupInterval :: "duration \<Rightarrow> memoryOption go" where
  "WithCleanupInterval d =
     (if d < 0 then Inl ''cache.WithCleanupInterval: interval must not be negative''
      else Inr (\<lambda>c. c\<lparr>cleanupInterval := d\<rparr>))"

definition WithRebuildInterval :: "duration \<Rightarrow> memoryOption go" where
  "WithRebuildInterval d =
     (if d < 0 then Inl ''cache.WithRebuildInterval: interval must not be negative''
      else Inr (\<lambda>c. c\<lparr>rebuildInterval := d\<rparr>))"

definition WithDefaultTTL :: "duration \<Rightarrow> memoryOption go" where
  "WithDefaultTTL d =
     (if d \<le> 0 then Inl ''cache.WithDefaultTTL: ttl must be positive''
      else Inr (\<lambda>c. c\<lparr>defaultTTL := d\<rparr>))"

definition WithMinTTL :: "duration \<Rightarrow> memoryOption go" where
  "WithMinTTL d =
     (if d < 0 then Inl ''cache.WithMinTTL: ttl must not be negative''
      else Inr (\<lambda>c. c\<lparr>minTTL := d\<rparr>))"

definition WithMaxTTL :: "duration \<Rightarrow> memoryOption go" where
  "WithMaxTTL d =
     (if d < 0 then Inl ''cache.WithMaxTTL: ttl must not be negative''
      else Inr (\<lambda>c. c\<lparr>maxTTL := d\<rparr>))"

definition zero_config :: memoryConfig where
  "zero_config = \<lparr>defaultTTL = 0, minTTL = 0, maxTTL = 0, cleanupInterval = 0,
     rebuildInterval = 0\<rparr>"

text \<open>The configuration part of NewMemory: apply the options, then check the bounds.\<close>

definition NewMemory_config :: "memoryOption list \<Rightarrow> memoryConfig go" where
  "NewMemory_config opts =
     (let cfg = apply_opts opts zero_config in
      if maxTTL cfg > 0 \<and> minTTL cfg > maxTTL cfg
      then Inl ''cache.NewMemory: WithMinTTL exceeds WithMaxTTL''
      else Inr cfg)"

lemmas option_defs = WithCleanupInterval_def WithRebuildInterval_def WithDefaultTTL_def
  WithMinTTL_def WithMaxTTL_def

text \<open>
  The fields of memoryConfig are not exported, so an option is one that the package's
  constructors return, at a duration of the int64 range.
\<close>

definition memory_option :: "memoryOption \<Rightarrow> bool" where
  "memory_option opt \<longleftrightarrow>
     (\<exists>d. is_dur d \<and> (WithCleanupInterval d = Inr opt \<or> WithRebuildInterval d = Inr opt \<or>
        WithDefaultTTL d = Inr opt \<or> WithMinTTL d = Inr opt \<or> WithMaxTTL d = Inr opt))"

definition fields_ok :: "memoryConfig \<Rightarrow> bool" where
  "fields_ok c \<longleftrightarrow> 0 \<le> defaultTTL c \<and> 0 \<le> minTTL c \<and> 0 \<le> maxTTL c \<and>
     0 \<le> cleanupInterval c \<and> 0 \<le> rebuildInterval c \<and>
     is_dur (defaultTTL c) \<and> is_dur (minTTL c) \<and> is_dur (maxTTL c)"

definition wf_config :: "memoryConfig \<Rightarrow> bool" where
  "wf_config c \<longleftrightarrow> fields_ok c \<and> (maxTTL c > 0 \<longrightarrow> minTTL c \<le> maxTTL c)"

lemma zero_config_ok: "fields_ok zero_config"
  by (simp add: fields_ok_def zero_config_def go_time)

lemma memory_option_ok: "memory_option opt \<Longrightarrow> fields_ok c \<Longrightarrow> fields_ok (opt c)"
  by (auto simp: memory_option_def fields_ok_def option_defs split: if_splits)

lemma apply_memory_options_ok:
  "\<forall>opt \<in> set opts. memory_option opt \<Longrightarrow> fields_ok (apply_opts opts zero_config)"
  by (rule apply_opts_inv) (auto simp: zero_config_ok memory_option_ok)

lemma NewMemory_config_ok:
  assumes "\<forall>opt \<in> set opts. memory_option opt" and "NewMemory_config opts = Inr cfg"
  shows "wf_config cfg"
  using apply_memory_options_ok [OF assms(1)] assms(2)
  by (auto simp: NewMemory_config_def wf_config_def Let_def split: if_splits)

section \<open>Resolution\<close>

definition clampNever :: "memoryConfig \<Rightarrow> time \<Rightarrow> time" where
  "clampNever c now = (if maxTTL c > 0 then time_Add now (maxTTL c) else 0)"

definition clampLifetime :: "memoryConfig \<Rightarrow> time \<Rightarrow> duration \<Rightarrow> time" where
  "clampLifetime c now life0 =
     (let life1 = (if minTTL c > 0 \<and> life0 < minTTL c then minTTL c else life0);
          life = (if maxTTL c > 0 \<and> life1 > maxTTL c then maxTTL c else life1)
      in if life \<le> 0 then now else time_Add now life)"

definition resolveDefault :: "memoryConfig \<Rightarrow> time \<Rightarrow> time" where
  "resolveDefault c now =
     (if defaultTTL c > 0 then clampLifetime c now (defaultTTL c) else clampNever c now)"

definition resolveExpiry :: "memoryConfig \<Rightarrow> expiry \<Rightarrow> time \<Rightarrow> time \<Rightarrow> bool \<Rightarrow> time" where
  "resolveExpiry c exp now existing found =
     (case kind exp of
        expiryKeep \<Rightarrow> if found then existing else resolveDefault c now
      | expiryDefault \<Rightarrow> resolveDefault c now
      | expiryNever \<Rightarrow> clampNever c now
      | expiryAt \<Rightarrow>
          if isZero (at exp) then clampNever c now
          else (let life = time_Sub (at exp) now in
                if maxTTL c = 0 \<and> Before (time_Add now life) (at exp) then at exp
                else clampLifetime c now life)
      | expiryAfter \<Rightarrow> clampLifetime c now (dur exp))"

definition expired :: "time \<Rightarrow> time \<Rightarrow> bool" where
  "expired expiresAt now \<longleftrightarrow> \<not> isZero expiresAt \<and> \<not> Before now expiresAt"

lemmas resolve_defs = resolveExpiry_def resolveDefault_def clampLifetime_def clampNever_def

section \<open>Specification\<close>

text \<open>
  What the documentation of Expiry promises, over unbounded integers: the requested
  lifetime (None is forever), then clamped into [min, max], where no configured maximum is
  no ceiling. A lifetime that is not positive expires the entry at the moment of the set.
\<close>

definition spec_lifetime :: "memoryConfig \<Rightarrow> expiry \<Rightarrow> time \<Rightarrow> int option" where
  "spec_lifetime c e now =
     (case kind e of
        expiryAfter \<Rightarrow> Some (dur e)
      | expiryAt \<Rightarrow> if at e = 0 then None else Some (at e - now)
      | expiryNever \<Rightarrow> None
      | _ \<Rightarrow> if defaultTTL c = 0 then None else Some (defaultTTL c))"

definition spec_clamp :: "memoryConfig \<Rightarrow> int option \<Rightarrow> int option" where
  "spec_clamp c l =
     (let floor = map_option (max (minTTL c)) l in
      if maxTTL c = 0 then floor
      else Some (case floor of None \<Rightarrow> maxTTL c | Some n \<Rightarrow> min (maxTTL c) n))"

definition spec_resolve :: "memoryConfig \<Rightarrow> expiry \<Rightarrow> time \<Rightarrow> time" where
  "spec_resolve c e now =
     (case spec_clamp c (spec_lifetime c e now) of None \<Rightarrow> 0 | Some l \<Rightarrow> now + max 0 l)"

lemmas spec_defs = spec_resolve_def spec_clamp_def spec_lifetime_def

definition keeps :: "expiry \<Rightarrow> bool \<Rightarrow> bool" where
  "keeps e found \<longleftrightarrow> kind e = expiryKeep \<and> found"

lemma clampLifetime_eq:
  assumes "fields_ok c" and "maxTTL c > 0 \<longrightarrow> minTTL c \<le> maxTTL c"
  shows "clampLifetime c now l =
    now + max 0 (if maxTTL c = 0 then max (minTTL c) l else min (maxTTL c) (max (minTTL c) l))"
  using assms by (auto simp: clampLifetime_def fields_ok_def time_Add_def Let_def)

text \<open>Clamping cannot tell a saturated lifetime from the exact one, given a ceiling.\<close>

lemma clampLifetime_saturate:
  assumes "wf_config c" and "maxTTL c > 0 \<or> l \<le> max_dur"
  shows "clampLifetime c now (saturate l) = clampLifetime c now l"
  using assms
  by (auto simp: wf_config_def clampLifetime_eq fields_ok_def saturate_def is_dur_def
      min_dur_def max_dur_def)

lemma expired_iff: "expired e now \<longleftrightarrow> e \<noteq> 0 \<and> e \<le> now"
  by (auto simp: expired_def go_time)

lemma expired_mono: "expired e now \<Longrightarrow> now \<le> now' \<Longrightarrow> expired e now'"
  by (simp add: expired_iff)

lemma resolve_At_eq_spec:
  assumes "wf_config c" and "at e \<noteq> 0" and "kind e = expiryAt"
  shows "resolveExpiry c e now existing found = spec_resolve c e now"
proof -
  have ok: "fields_ok c" "maxTTL c > 0 \<longrightarrow> minTTL c \<le> maxTTL c"
    using assms(1) by (auto simp: wf_config_def)
  show ?thesis
  proof (cases "maxTTL c = 0 \<and> max_dur < at e - now")
    case True
    then show ?thesis
      using assms ok by (auto simp: resolveExpiry_def spec_defs fields_ok_def go_time)
  next
    case False
    then have "time_Add now (time_Sub (at e) now) \<ge> at e \<or> maxTTL c > 0"
      using ok by (auto simp: fields_ok_def go_time)
    moreover have "clampLifetime c now (time_Sub (at e) now) = clampLifetime c now (at e - now)"
      unfolding time_Sub_def
      by (rule clampLifetime_saturate) (use assms(1) False ok in \<open>auto simp: fields_ok_def\<close>)
    ultimately show ?thesis
      using assms ok
      by (auto simp: resolveExpiry_def spec_defs clampLifetime_eq isZero_def Before_def Let_def)
  qed
qed

lemma resolve_eq_spec:
  assumes "wf_config c" and "\<not> keeps e found"
  shows "resolveExpiry c e now existing found = spec_resolve c e now"
proof (cases "kind e = expiryAt \<and> at e \<noteq> 0")
  case True
  then show ?thesis using assms(1) by (simp add: resolve_At_eq_spec)
next
  case False
  have ok: "fields_ok c" "maxTTL c > 0 \<longrightarrow> minTTL c \<le> maxTTL c"
    using assms(1) by (auto simp: wf_config_def)
  with False assms(2) show ?thesis
    by (cases "kind e")
      (auto simp: resolveExpiry_def resolveDefault_def clampNever_def clampLifetime_eq
        spec_defs keeps_def isZero_def time_Add_def fields_ok_def)
qed

lemma spec_resolve_bounds:
  assumes "wf_config c"
  shows "(maxTTL c > 0 \<longrightarrow> now \<le> spec_resolve c e now \<and> spec_resolve c e now \<le> now + maxTTL c) \<and>
    (spec_resolve c e now = 0 \<or> now + minTTL c \<le> spec_resolve c e now)"
  using assms by (cases "kind e") (auto simp: spec_defs Let_def wf_config_def fields_ok_def)

lemma config_examples:
  "wf_config (zero_config\<lparr>minTTL := 5\<rparr>)" "wf_config (zero_config\<lparr>minTTL := 5, maxTTL := 50\<rparr>)"
  by (simp_all add: wf_config_def fields_ok_def zero_config_def go_time)

section \<open>Properties\<close>

text \<open>
  C4. Exactness of resolution. Whatever the requested expiry, except a Keep with something
  to keep, resolveExpiry returns the moment the specification gives over unbounded
  integers: the requested lifetime clamped into [min, max], zero for forever. The
  saturation of Time.Sub about 292 years out is never visible in the result.
\<close>

theorem resolve_exact:
  assumes "wf_config c" and "\<not> keeps e found"
  shows "resolveExpiry c e now existing found = spec_resolve c e now"
  using assms by (rule resolve_eq_spec)

theorem resolve_exact_witness:
  "resolveExpiry (zero_config\<lparr>minTTL := 5\<rparr>) (At (2 ^ 70)) 100 7 False
     = spec_resolve (zero_config\<lparr>minTTL := 5\<rparr>) (At (2 ^ 70)) 100"
  by (rule resolve_exact) (simp_all add: config_examples keeps_def)

text \<open>
  The bounds hold for every entry that a set creates. For a configuration that
  NewMemory accepted (from the package's own options), a set at any moment after the zero
  time resolves to an expiry that is never permanent and at most the maximum away when a
  maximum is configured, and at least the minimum away unless it is permanent.
\<close>

lemma resolve_bounds:
  assumes "\<forall>opt \<in> set opts. memory_option opt" and "NewMemory_config opts = Inr c"
    and "0 < now" and "\<not> keeps e found"
    and "r = resolveExpiry c e now existing found"
  shows "(maxTTL c > 0 \<longrightarrow> r \<noteq> 0 \<and> r \<le> now + maxTTL c) \<and>
    (r = 0 \<or> now + minTTL c \<le> r)"
  using spec_resolve_bounds [OF NewMemory_config_ok [OF assms(1,2)], of now e]
    resolve_eq_spec [OF NewMemory_config_ok [OF assms(1,2)] assms(4), of now existing] assms(3,5)
  by auto

text \<open>
  A returned expiry can be passed back to At. If a set at now resolved to r, then
  setting the key again at a later moment with At r resolves to r again, as long as r is
  permanent or still at least the minimum lifetime away.
\<close>

lemma resolve_reapply:
  assumes "wf_config c" and "0 < now" and "now \<le> now'" and "\<not> keeps e found"
    and "r = resolveExpiry c e now existing found"
    and "r = 0 \<or> now' + minTTL c \<le> r"
  shows "resolveExpiry c (At r) now' existing' found' = r"
proof -
  have "r = spec_resolve c e now"
    using resolve_eq_spec assms(1,4,5) by blast
  with spec_resolve_bounds [OF assms(1), of now e]
  have "maxTTL c > 0 \<longrightarrow> r \<noteq> 0 \<and> r \<le> now + maxTTL c"
    using assms(2) by auto
  moreover have "resolveExpiry c (At r) now' existing' found' = spec_resolve c (At r) now'"
    by (rule resolve_eq_spec) (simp_all add: assms keeps_def At_def)
  ultimately show ?thesis
    using assms by (auto simp: spec_defs At_def wf_config_def fields_ok_def)
qed

end
