(* ===== verification/CacheApi.thy ===== *)
theory CacheApi
  imports CacheTtl
begin

text \<open>
  The Cache interface (cache/cache.go) as a record of closures over a world, the helper
  miss, and the contracts that the layers rely on and provide: cache_api (the infallible
  form of every operation is its context form under a background context) and cache_store
  (the operations act on one live view, a partial map from keys to values).
\<close>

section \<open>The interface\<close>

text \<open>
  The body of a range loop over an iter.Seq2 takes the key, the value and the world; it
  returns whether the loop goes on. ItemsContext runs the sequence with a body to its end
  and then asks for the terminal error: its result is whether the body broke the loop, that
  error, and the new world. Closer is the outcome of the type assertion to io.Closer.
\<close>

type_synonym ('w, 'k, 'v) body = "'k \<Rightarrow> 'v \<Rightarrow> 'w \<Rightarrow> bool \<times> 'w"

record ('w, 'k, 'v) cache =
  Get :: "'k \<Rightarrow> 'w \<Rightarrow> ('v \<times> bool) \<times> 'w"
  Set :: "'k \<Rightarrow> 'v \<Rightarrow> expiry \<Rightarrow> 'w \<Rightarrow> time \<times> 'w"
  Delete :: "'k \<Rightarrow> 'w \<Rightarrow> 'w"
  Items :: "('w, 'k, 'v) body \<Rightarrow> 'w \<Rightarrow> bool \<times> 'w"
  GetContext :: "'w ctx \<Rightarrow> 'k \<Rightarrow> 'w \<Rightarrow> ('v \<times> bool \<times> gerr option) \<times> 'w"
  SetContext :: "'w ctx \<Rightarrow> 'k \<Rightarrow> 'v \<Rightarrow> expiry \<Rightarrow> 'w \<Rightarrow> (time \<times> gerr option) \<times> 'w"
  DeleteContext :: "'w ctx \<Rightarrow> 'k \<Rightarrow> 'w \<Rightarrow> gerr option \<times> 'w"
  ItemsContext :: "'w ctx \<Rightarrow> ('w, 'k, 'v) body \<Rightarrow> 'w \<Rightarrow> (bool \<times> gerr option) \<times> 'w"
  Closer :: "('w \<Rightarrow> gerr option \<times> 'w) option"

definition ErrCacheMiss :: gerr where
  "ErrCacheMiss = Err ''cache: miss''"

text \<open>The zero value of the value type is 0 of Isabelle's class zero.\<close>

definition miss :: "'v::zero \<Rightarrow> bool \<Rightarrow> gerr option \<Rightarrow> 'v \<times> bool" where
  "miss value ok err = (if err \<noteq> None then (0, False) else (value, ok))"

lemma miss_simps [simp]:
  "miss v ok None = (v, ok)" "miss v ok (Some e) = (0, False)"
  by (simp_all add: miss_def)

text \<open>How a live view answers a read.\<close>

definition answer :: "'v::zero option \<Rightarrow> 'v \<times> bool" where
  "answer r = (case r of None \<Rightarrow> (0, False) | Some v \<Rightarrow> (v, True))"

lemma answer_simps [simp]:
  "answer None = (0, False)" "answer (Some v) = (v, True)"
  by (simp_all add: answer_def)

section \<open>Contracts\<close>

locale cache_api =
  fixes c :: "('w, 'k, 'v::zero) cache"
  assumes get_dual: "Get c k w =
      (case GetContext c background k w of ((v, ok, e), w') \<Rightarrow> (miss v ok e, w'))"
    and set_dual: "Set c k v ex w =
      (case SetContext c background k v ex w of ((t, e), w') \<Rightarrow> (t, w'))"
    and delete_dual: "Delete c k w = snd (DeleteContext c background k w)"
    and items_dual: "Items c f w =
      (case ItemsContext c background f w of ((broke, e), w') \<Rightarrow> (broke, w'))"
begin

lemma get_error_is_miss:
  assumes "GetContext c background k w = ((v, ok, Some e), w')"
  shows "Get c k w = ((0, False), w')"
  by (simp add: get_dual assms)

end

locale cache_store = cache_api c
  for c :: "('w, 'k, 'v::zero) cache" +
  fixes inv :: "'w \<Rightarrow> bool"
    and view :: "'w \<Rightarrow> 'k \<rightharpoonup> 'v"
    and now :: "'w \<Rightarrow> time"
  assumes get_law: "inv w \<Longrightarrow> GetContext c x k w = ((v, ok, e), w') \<Longrightarrow>
      inv w' \<and> view w' = view w \<and> now w' = now w \<and> (e = None \<longrightarrow> (v, ok) = answer (view w k))"
    and set_law: "inv w \<Longrightarrow> SetContext c x k v ex w = ((t, e), w') \<Longrightarrow>
      inv w' \<and> now w' = now w \<and> (\<forall>k'. k' \<noteq> k \<longrightarrow> view w' k' = view w k') \<and>
      (e = None \<longrightarrow> view w' k = (if expired t (now w) then None else Some v))"
    and delete_law: "inv w \<Longrightarrow> DeleteContext c x k w = (e, w') \<Longrightarrow>
      inv w' \<and> now w' = now w \<and> (\<forall>k'. k' \<noteq> k \<longrightarrow> view w' k' = view w k') \<and>
      (e = None \<longrightarrow> view w' k = None)"
begin

text \<open>Read your writes, through the context forms.\<close>

lemma set_then_get:
  assumes "inv w" and "SetContext c x k v ex w = ((t, None), w1)"
    and "GetContext c y k' w1 = ((v', ok, None), w2)"
  shows "(v', ok) = (if k' = k then (if expired t (now w) then (0, False) else (v, True))
      else answer (view w k'))"
proof -
  from set_law [OF assms(1,2)] have "inv w1" and "now w1 = now w"
    and "\<forall>k'. k' \<noteq> k \<longrightarrow> view w1 k' = view w k'"
    and "view w1 k = (if expired t (now w) then None else Some v)" by auto
  then show ?thesis using get_law [OF \<open>inv w1\<close> assms(3)] by auto
qed

lemma delete_then_get:
  assumes "inv w" and "DeleteContext c x k w = (None, w1)"
    and "GetContext c y k' w1 = ((v', ok, None), w2)"
  shows "(v', ok) = (if k' = k then (0, False) else answer (view w k'))"
  using delete_law [OF assms(1,2)] get_law [OF _ assms(3)] by auto

lemma get_frame:
  assumes "inv w"
  shows "inv (snd (GetContext c x k w))" and "view (snd (GetContext c x k w)) = view w"
    and "now (snd (GetContext c x k w)) = now w"
  using get_law [OF assms, of x k] by (cases "GetContext c x k w"; fastforce)+

end

end
