(* ===== verification/CacheMemory.thy ===== *)
theory CacheMemory
  imports CacheApi
begin

text \<open>
  Memory (cache/memory.go): one map guarded by a lock. The operations are functions of the
  object and of the clock reading they take before the lock; the second half of the theory
  makes them methods of objects in a heap, the values of the Cache interface.

  A range over a Go map visits its keys in an unspecified order; the operations that range
  over the map take that order as a list, and valid_order says what the language
  guarantees of it.
\<close>

section \<open>The object\<close>

record 'v entry =
  evalue :: 'v
  expiresAt :: time

record ('k, 'v) memory =
  cfg :: memoryConfig
  m :: "'k \<rightharpoonup> 'v entry"
  closed :: bool

definition valid_order :: "'k list \<Rightarrow> ('k \<rightharpoonup> 'a) \<Rightarrow> bool" where
  "valid_order ks mp \<longleftrightarrow> distinct ks \<and> set ks = dom mp"

definition NewMemory :: "memoryOption list \<Rightarrow> ('k, 'v) memory go" where
  "NewMemory opts =
     (case NewMemory_config opts of
        Inl p \<Rightarrow> Inl p
      | Inr c \<Rightarrow> Inr \<lparr>cfg = c, m = Map.empty, closed = False\<rparr>)"

text \<open>lookup: the read under the read lock, then the re-check under the write lock.\<close>

datatype 'v lookup_read = Hit 'v | Stale | Absent

definition lookup_rlock :: "'k \<Rightarrow> time \<Rightarrow> ('k, 'v) memory \<Rightarrow> 'v lookup_read" where
  "lookup_rlock key now M =
     (case m M key of
        None \<Rightarrow> Absent
      | Some e \<Rightarrow> if \<not> expired (expiresAt e) now then Hit (evalue e) else Stale)"

definition lookup_lock :: "'k \<Rightarrow> time \<Rightarrow> ('k, 'v) memory \<Rightarrow> ('k, 'v) memory" where
  "lookup_lock key now M =
     (case m M key of
        None \<Rightarrow> M
      | Some cur \<Rightarrow> if expired (expiresAt cur) now then M\<lparr>m := (m M)(key := None)\<rparr> else M)"

definition lookup :: "'k \<Rightarrow> time \<Rightarrow> ('k, 'v::zero) memory \<Rightarrow> ('v \<times> bool) \<times> ('k, 'v) memory" where
  "lookup key now M =
     (case lookup_rlock key now M of
        Hit v \<Rightarrow> ((v, True), M)
      | Stale \<Rightarrow> ((0, False), lookup_lock key now M)
      | Absent \<Rightarrow> ((0, False), M))"

definition set_entry ::
    "'k \<Rightarrow> 'v \<Rightarrow> expiry \<Rightarrow> time \<Rightarrow> ('k, 'v) memory \<Rightarrow> time \<times> ('k, 'v) memory" where
  "set_entry key val exp now M =
     (let existing = (case m M key of None \<Rightarrow> 0 | Some e \<Rightarrow> expiresAt e);
          ok = (m M key \<noteq> None);
          found = (ok \<and> \<not> expired existing now);
          t = resolveExpiry (cfg M) exp now existing found
      in (t, M\<lparr>m := (m M)(key \<mapsto> \<lparr>evalue = val, expiresAt = t\<rparr>)\<rparr>))"

definition delete_entry :: "'k \<Rightarrow> ('k, 'v) memory \<Rightarrow> ('k, 'v) memory" where
  "delete_entry key M = M\<lparr>m := (m M)(key := None)\<rparr>"

text \<open>cleanup deletes while it ranges; rebuild fills a fresh map.\<close>

fun cleanup_loop :: "time \<Rightarrow> 'k list \<Rightarrow> ('k \<rightharpoonup> 'v entry) \<Rightarrow> ('k \<rightharpoonup> 'v entry)" where
  "cleanup_loop now [] mp = mp"
| "cleanup_loop now (k # ks) mp =
     (case mp k of
        None \<Rightarrow> cleanup_loop now ks mp
      | Some e \<Rightarrow> cleanup_loop now ks
          (if expired (expiresAt e) now then mp(k := None) else mp))"

definition cleanup :: "time \<Rightarrow> 'k list \<Rightarrow> ('k, 'v) memory \<Rightarrow> ('k, 'v) memory" where
  "cleanup now ks M = M\<lparr>m := cleanup_loop now ks (m M)\<rparr>"

fun rebuild_loop ::
    "time \<Rightarrow> 'k list \<Rightarrow> ('k \<rightharpoonup> 'v entry) \<Rightarrow> ('k \<rightharpoonup> 'v entry) \<Rightarrow> ('k \<rightharpoonup> 'v entry)" where
  "rebuild_loop now [] mp fresh = fresh"
| "rebuild_loop now (k # ks) mp fresh =
     (case mp k of
        None \<Rightarrow> rebuild_loop now ks mp fresh
      | Some e \<Rightarrow> rebuild_loop now ks mp
          (if \<not> expired (expiresAt e) now then fresh(k \<mapsto> e) else fresh))"

definition rebuild :: "time \<Rightarrow> 'k list \<Rightarrow> ('k, 'v) memory \<Rightarrow> ('k, 'v) memory" where
  "rebuild now ks M = M\<lparr>m := rebuild_loop now ks (m M) Map.empty\<rparr>"

fun snapshot :: "time \<Rightarrow> 'k list \<Rightarrow> ('k \<rightharpoonup> 'v entry) \<Rightarrow> ('k \<times> 'v) list" where
  "snapshot now [] mp = []"
| "snapshot now (k # ks) mp =
     (case mp k of
        None \<Rightarrow> snapshot now ks mp
      | Some e \<Rightarrow>
          if \<not> expired (expiresAt e) now then (k, evalue e) # snapshot now ks mp
          else snapshot now ks mp)"

definition close_memory :: "('k, 'v) memory \<Rightarrow> ('k, 'v) memory" where
  "close_memory M = M\<lparr>closed := True\<rparr>"

section \<open>The live view\<close>

definition live :: "('k, 'v) memory \<Rightarrow> time \<Rightarrow> 'k \<rightharpoonup> 'v" where
  "live M now k =
     (case m M k of
        None \<Rightarrow> None
      | Some e \<Rightarrow> if expired (expiresAt e) now then None else Some (evalue e))"

lemma lookup_answer: "fst (lookup key now M) = answer (live M now key)"
  by (auto simp: lookup_def lookup_rlock_def live_def split: option.splits)

lemma live_lookup_lock:
  "now \<le> t \<Longrightarrow> live (lookup_lock key now M) t = live M t"
  by (auto simp: lookup_lock_def live_def fun_eq_iff expired_iff split: option.splits)

lemma live_lookup: "now \<le> t \<Longrightarrow> live (snd (lookup key now M)) t = live M t"
  by (auto simp: lookup_def live_lookup_lock split: lookup_read.splits)

lemma live_set_entry:
  "live (snd (set_entry key val exp now M)) t =
     (live M t)(key := if expired (fst (set_entry key val exp now M)) t then None else Some val)"
  by (auto simp: set_entry_def live_def Let_def)

lemma live_delete: "live (delete_entry key M) t = (live M t)(key := None)"
  by (auto simp: delete_entry_def live_def)

text \<open>The loops do not depend on the order: they compute a restriction of the map.\<close>

definition restrict_live :: "time \<Rightarrow> ('k \<rightharpoonup> 'v entry) \<Rightarrow> ('k \<rightharpoonup> 'v entry)" where
  "restrict_live now mp k =
     (case mp k of None \<Rightarrow> None | Some e \<Rightarrow> if expired (expiresAt e) now then None else Some e)"

lemma cleanup_loop_eq:
  "cleanup_loop now ks mp = (\<lambda>k. if k \<in> set ks then restrict_live now mp k else mp k)"
  by (induction ks arbitrary: mp)
    (auto simp: restrict_live_def fun_eq_iff split: option.splits)

lemma rebuild_loop_eq:
  "distinct ks \<Longrightarrow> rebuild_loop now ks mp fresh =
     (\<lambda>k. if k \<in> set ks \<and> restrict_live now mp k \<noteq> None then restrict_live now mp k else fresh k)"
  by (induction ks arbitrary: fresh)
    (auto simp: restrict_live_def fun_eq_iff split: option.splits)

lemma cleanup_eq:
  "valid_order ks (m M) \<Longrightarrow> cleanup now ks M = M\<lparr>m := restrict_live now (m M)\<rparr>"
  by (auto simp: cleanup_def cleanup_loop_eq valid_order_def restrict_live_def fun_eq_iff
      intro!: memory.equality split: option.splits)

lemma rebuild_eq:
  "valid_order ks (m M) \<Longrightarrow> rebuild now ks M = M\<lparr>m := restrict_live now (m M)\<rparr>"
  by (auto simp: rebuild_def rebuild_loop_eq valid_order_def restrict_live_def fun_eq_iff
      intro!: memory.equality split: option.splits)

lemma live_restrict:
  "now \<le> t \<Longrightarrow> live (M\<lparr>m := restrict_live now (m M)\<rparr>) t = live M t"
  by (auto simp: live_def restrict_live_def fun_eq_iff expired_iff split: option.splits)

lemma snapshot_set:
  "set (snapshot now ks (m M)) = {(k, v). k \<in> set ks \<and> live M now k = Some v}"
  by (induction ks) (auto simp: live_def split: option.splits if_splits)

lemma snapshot_keys: "map fst (snapshot now ks mp) = filter (\<lambda>k. restrict_live now mp k \<noteq> None) ks"
  by (induction ks) (auto simp: restrict_live_def split: option.splits)

lemma map_of_snapshot:
  assumes "valid_order ks (m M)"
  shows "map_of (snapshot now ks (m M)) = live M now"
proof
  fix k
  have "distinct (map fst (snapshot now ks (m M)))"
    using assms by (simp add: snapshot_keys valid_order_def)
  moreover have "live M now k = Some v \<Longrightarrow> k \<in> set ks" for v
    using assms by (auto simp: live_def valid_order_def split: option.splits)
  ultimately have "map_of (snapshot now ks (m M)) k = Some v \<longleftrightarrow> live M now k = Some v" for v
    by (auto simp: snapshot_set)
  then show "map_of (snapshot now ks (m M)) k = live M now k"
    by (metis option.exhaust)
qed

section \<open>Methods of objects in the heap\<close>

text \<open>
  The world of the caches: the clock that time.Now reads, the order in which the runtime
  ranges over a map with the given keys, and the Memory objects by address. Other
  modules and callers extend the record with fields of their own.
\<close>

record ('k, 'v) heap =
  clock :: time
  rangeOrder :: "'k set \<Rightarrow> 'k list"
  brk :: nat
  mems :: "nat \<Rightarrow> ('k, 'v) memory"

definition heap_ok :: "('k, 'v, 'z) heap_scheme \<Rightarrow> bool" where
  "heap_ok w \<longleftrightarrow> (\<forall>S. finite S \<longrightarrow> distinct (rangeOrder w S) \<and> set (rangeOrder w S) = S) \<and>
     (\<forall>p. finite (dom (m (mems w p))))"

definition put_mem ::
    "nat \<Rightarrow> ('k, 'v) memory \<Rightarrow> ('k, 'v, 'z) heap_scheme \<Rightarrow> ('k, 'v, 'z) heap_scheme" where
  "put_mem p M w = w\<lparr>mems := (mems w)(p := M)\<rparr>"

definition new_memory ::
    "memoryOption list \<Rightarrow> ('k, 'v, 'z) heap_scheme \<Rightarrow> (nat \<times> ('k, 'v, 'z) heap_scheme) go" where
  "new_memory opts w =
     (case NewMemory opts of
        Inl msg \<Rightarrow> Inl msg
      | Inr M \<Rightarrow> Inr (brk w, (put_mem (brk w) M w)\<lparr>brk := Suc (brk w)\<rparr>))"

definition mem_get ::
    "nat \<Rightarrow> 'k \<Rightarrow> ('k, 'v::zero, 'z) heap_scheme \<Rightarrow> ('v \<times> bool) \<times> ('k, 'v, 'z) heap_scheme" where
  "mem_get p key w =
     (case lookup key (clock w) (mems w p) of (r, M) \<Rightarrow> (r, put_mem p M w))"

definition mem_get_context ::
    "nat \<Rightarrow> ('k, 'v, 'z) heap_scheme ctx \<Rightarrow> 'k \<Rightarrow> ('k, 'v::zero, 'z) heap_scheme \<Rightarrow>
      ('v \<times> bool \<times> gerr option) \<times> ('k, 'v, 'z) heap_scheme" where
  "mem_get_context p x key w = (case mem_get p key w of ((v, ok), w') \<Rightarrow> ((v, ok, None), w'))"

definition mem_set ::
    "nat \<Rightarrow> 'k \<Rightarrow> 'v \<Rightarrow> expiry \<Rightarrow> ('k, 'v, 'z) heap_scheme \<Rightarrow> time \<times> ('k, 'v, 'z) heap_scheme" where
  "mem_set p key val exp w =
     (case set_entry key val exp (clock w) (mems w p) of (t, M) \<Rightarrow> (t, put_mem p M w))"

definition mem_set_context ::
    "nat \<Rightarrow> ('k, 'v, 'z) heap_scheme ctx \<Rightarrow> 'k \<Rightarrow> 'v \<Rightarrow> expiry \<Rightarrow> ('k, 'v, 'z) heap_scheme \<Rightarrow>
      (time \<times> gerr option) \<times> ('k, 'v, 'z) heap_scheme" where
  "mem_set_context p x key val exp w =
     (case mem_set p key val exp w of (t, w') \<Rightarrow> ((t, None), w'))"

definition mem_delete ::
    "nat \<Rightarrow> 'k \<Rightarrow> ('k, 'v, 'z) heap_scheme \<Rightarrow> ('k, 'v, 'z) heap_scheme" where
  "mem_delete p key w = put_mem p (delete_entry key (mems w p)) w"

definition mem_delete_context ::
    "nat \<Rightarrow> ('k, 'v, 'z) heap_scheme ctx \<Rightarrow> 'k \<Rightarrow> ('k, 'v, 'z) heap_scheme \<Rightarrow>
      gerr option \<times> ('k, 'v, 'z) heap_scheme" where
  "mem_delete_context p x key w = (None, mem_delete p key w)"

text \<open>The loop over the snapshot, which runs the caller's body with no lock held.\<close>

fun items_loop ::
    "'w ctx \<Rightarrow> ('w, 'k, 'v) body \<Rightarrow> ('k \<times> 'v) list \<Rightarrow> 'w \<Rightarrow> (bool \<times> gerr option) \<times> 'w" where
  "items_loop x yield [] w = ((False, None), w)"
| "items_loop x yield ((k, v) # rest) w =
     (if ctxErr x w \<noteq> None then ((False, ctxCause x w), w)
      else (case yield k v w of
              (True, w') \<Rightarrow> items_loop x yield rest w'
            | (False, w') \<Rightarrow> ((True, None), w')))"

lemma items_loop_all:
  assumes "\<And>k v w. f k v w = (True, g k v w)"
  shows "items_loop background f xs w = ((False, None), fold (\<lambda>(k, v). g k v) xs w)"
  by (induction xs arbitrary: w) (auto simp: assms)

definition mem_items_context ::
    "nat \<Rightarrow> ('k, 'v, 'z) heap_scheme ctx \<Rightarrow> (('k, 'v, 'z) heap_scheme, 'k, 'v) body \<Rightarrow>
      ('k, 'v, 'z) heap_scheme \<Rightarrow> (bool \<times> gerr option) \<times> ('k, 'v, 'z) heap_scheme" where
  "mem_items_context p x yield w =
     (if ctxErr x w \<noteq> None then ((False, ctxCause x w), w)
      else (let now = clock w;
                mp = m (mems w p);
                keysvals = snapshot now (rangeOrder w (dom mp)) mp
            in items_loop x yield keysvals w))"

definition mem_items ::
    "nat \<Rightarrow> (('k, 'v, 'z) heap_scheme, 'k, 'v) body \<Rightarrow> ('k, 'v, 'z) heap_scheme \<Rightarrow>
      bool \<times> ('k, 'v, 'z) heap_scheme" where
  "mem_items p yield w =
     (case mem_items_context p background yield w of ((broke, err), w') \<Rightarrow> (broke, w'))"

definition mem_close ::
    "nat \<Rightarrow> ('k, 'v, 'z) heap_scheme \<Rightarrow> gerr option \<times> ('k, 'v, 'z) heap_scheme" where
  "mem_close p w = (None, put_mem p (close_memory (mems w p)) w)"

definition memory_cache :: "nat \<Rightarrow> (('k, 'v::zero, 'z) heap_scheme, 'k, 'v) cache" where
  "memory_cache p =
     \<lparr>Get = mem_get p, Set = mem_set p, Delete = mem_delete p, Items = mem_items p,
      GetContext = mem_get_context p, SetContext = mem_set_context p,
      DeleteContext = mem_delete_context p, ItemsContext = mem_items_context p,
      Closer = Some (mem_close p)\<rparr>"

definition mem_view :: "nat \<Rightarrow> ('k, 'v, 'z) heap_scheme \<Rightarrow> 'k \<rightharpoonup> 'v" where
  "mem_view p w = live (mems w p) (clock w)"

lemma put_mem_simps [simp]:
  "clock (put_mem p M w) = clock w" "rangeOrder (put_mem p M w) = rangeOrder w"
  "brk (put_mem p M w) = brk w" "mems (put_mem p M w) = (mems w)(p := M)"
  by (simp_all add: put_mem_def)

lemma mem_view_put: "mem_view q (put_mem p M w) = (if q = p then live M (clock w) else mem_view q w)"
  by (simp add: mem_view_def)

lemma heap_ok_put: "heap_ok w \<Longrightarrow> finite (dom (m M)) \<Longrightarrow> heap_ok (put_mem p M w)"
  by (simp add: heap_ok_def)

lemma finite_ops:
  assumes "finite (dom (m M))"
  shows "finite (dom (m (snd (lookup key now M))))"
    and "finite (dom (m (snd (set_entry key val exp now M))))"
    and "finite (dom (m (delete_entry key M)))"
  using assms
  by (auto simp: lookup_def lookup_lock_def set_entry_def delete_entry_def Let_def
      split: lookup_read.splits option.splits)

lemma heap_ok_ops:
  assumes "heap_ok w"
  shows "heap_ok (snd (mem_get p key w))" and "heap_ok (snd (mem_set p key val exp w))"
    and "heap_ok (mem_delete p key w)"
  using assms finite_ops [of "mems w p"]
  by (auto simp: mem_get_def mem_set_def mem_delete_def heap_ok_put heap_ok_def split: prod.splits)
    (metis finite_ops snd_conv)+

lemma mem_get_view:
  "fst (mem_get p key w) = answer (mem_view p w key)"
  "mem_view q (snd (mem_get p key w)) = mem_view q w"
  "clock (snd (mem_get p key w)) = clock w"
  using lookup_answer [of key "clock w" "mems w p"] live_lookup [of "clock w" "clock w" key "mems w p"]
  by (auto simp: mem_get_def mem_view_put mem_view_def [of p w] split: prod.splits)

lemma mem_set_view:
  "mem_view q (snd (mem_set p key val exp w)) =
     (if q = p then (mem_view p w)(key := if expired (fst (mem_set p key val exp w)) (clock w)
        then None else Some val) else mem_view q w)"
  "clock (snd (mem_set p key val exp w)) = clock w"
  using live_set_entry [of key val exp "clock w" "mems w p" "clock w"]
  by (auto simp: mem_set_def mem_view_put mem_view_def [of p w] split: prod.splits)

lemma mem_delete_view:
  "mem_view q (mem_delete p key w) =
     (if q = p then (mem_view p w)(key := None) else mem_view q w)"
  "clock (mem_delete p key w) = clock w"
  by (auto simp: mem_delete_def mem_view_put mem_view_def [of p w] live_delete)

lemma cfg_ops [simp]:
  "cfg (mems (snd (mem_get p k w)) q) = cfg (mems w q)"
  "cfg (mems (snd (mem_set p k v ex w)) q) = cfg (mems w q)"
  "cfg (mems (mem_delete p k w) q) = cfg (mems w q)"
  by (auto simp: mem_get_def lookup_def lookup_lock_def mem_set_def set_entry_def mem_delete_def
      delete_entry_def Let_def split: prod.splits lookup_read.splits option.splits)

lemma memory_cache_simps [simp]:
  "Get (memory_cache p) = mem_get p" "Set (memory_cache p) = mem_set p"
  "Delete (memory_cache p) = mem_delete p" "Items (memory_cache p) = mem_items p"
  "GetContext (memory_cache p) = mem_get_context p" "SetContext (memory_cache p) = mem_set_context p"
  "DeleteContext (memory_cache p) = mem_delete_context p"
  "ItemsContext (memory_cache p) = mem_items_context p" "Closer (memory_cache p) = Some (mem_close p)"
  by (simp_all add: memory_cache_def)

lemma memory_cache_api: "cache_api (memory_cache p)"
  by unfold_locales
    (auto simp: mem_get_context_def mem_set_context_def mem_delete_context_def mem_items_def
      split: prod.splits)

interpretation mem: cache_store "memory_cache p" heap_ok "mem_view p" clock for p
proof (intro cache_store.intro cache_store_axioms.intro memory_cache_api)
  fix w x k v ok e w'
  assume "heap_ok w" "GetContext (memory_cache p) x k w = ((v, ok, e), w')"
  then show "heap_ok w' \<and> mem_view p w' = mem_view p w \<and> clock w' = clock w \<and>
      (e = None \<longrightarrow> (v, ok) = answer (mem_view p w k))"
    using heap_ok_ops(1) [of w p k] mem_get_view(1,3) [of p k w] mem_get_view(2) [of p p k w]
    by (auto simp: mem_get_context_def split: prod.splits)
next
  fix w x k v ex t e w'
  assume "heap_ok w" "SetContext (memory_cache p) x k v ex w = ((t, e), w')"
  then show "heap_ok w' \<and> clock w' = clock w \<and>
      (\<forall>k'. k' \<noteq> k \<longrightarrow> mem_view p w' k' = mem_view p w k') \<and>
      (e = None \<longrightarrow> mem_view p w' k = (if expired t (clock w) then None else Some v))"
    using heap_ok_ops(2) [of w p k v ex] mem_set_view(1) [of p p k v ex w] mem_set_view(2) [of p k v ex w]
    by (auto simp: mem_set_context_def split: prod.splits)
next
  fix w x k e w'
  assume "heap_ok w" "DeleteContext (memory_cache p) x k w = (e, w')"
  then show "heap_ok w' \<and> clock w' = clock w \<and>
      (\<forall>k'. k' \<noteq> k \<longrightarrow> mem_view p w' k' = mem_view p w k') \<and>
      (e = None \<longrightarrow> mem_view p w' k = None)"
    using heap_ok_ops(3) [of w p k] mem_delete_view(1) [of p p k w] mem_delete_view(2) [of p k w]
    by (auto simp: mem_delete_context_def)
qed

section \<open>Runs of operations\<close>

datatype ('k, 'v) mem_op =
    OpGet 'k | OpSet 'k 'v expiry | OpDelete 'k | OpCleanup "'k list" | OpRebuild "'k list"
  | OpClose

fun exec_op :: "time \<Rightarrow> ('k, 'v::zero) mem_op \<Rightarrow> ('k, 'v) memory \<Rightarrow> ('k, 'v) memory" where
  "exec_op now (OpGet k) M = snd (lookup k now M)"
| "exec_op now (OpSet k v e) M = snd (set_entry k v e now M)"
| "exec_op now (OpDelete k) M = delete_entry k M"
| "exec_op now (OpCleanup ks) M = cleanup now ks M"
| "exec_op now (OpRebuild ks) M = rebuild now ks M"
| "exec_op now OpClose M = close_memory M"

fun run_ops :: "(time \<times> ('k, 'v::zero) mem_op) list \<Rightarrow> ('k, 'v) memory \<Rightarrow> ('k, 'v) memory" where
  "run_ops [] M = M"
| "run_ops ((now, op) # ops) M = run_ops ops (exec_op now op M)"

definition bounded_entries :: "time \<Rightarrow> ('k, 'v) memory \<Rightarrow> bool" where
  "bounded_entries T M \<longleftrightarrow> wf_config (cfg M) \<and>
     (\<forall>k e. m M k = Some e \<longrightarrow> maxTTL (cfg M) > 0 \<longrightarrow>
        expiresAt e \<noteq> 0 \<and> expiresAt e \<le> T + maxTTL (cfg M))"

lemma cleanup_loop_sub: "cleanup_loop now ks mp k = Some e \<Longrightarrow> mp k = Some e"
  by (auto simp: cleanup_loop_eq restrict_live_def split: if_splits option.splits)

lemma rebuild_loop_sub:
  "rebuild_loop now ks mp fresh k = Some e \<Longrightarrow> mp k = Some e \<or> fresh k = Some e"
  by (induction ks arbitrary: fresh)
    (auto split: option.splits if_splits, (metis fun_upd_apply option.inject)+)

lemma set_entry_bounded:
  assumes "bounded_entries T M" and "0 < now" and "now \<le> T"
  shows "bounded_entries T (snd (set_entry k v ex now M))"
proof -
  let ?old = "case m M k of None \<Rightarrow> 0 | Some e \<Rightarrow> expiresAt e"
  let ?found = "m M k \<noteq> None \<and> \<not> expired ?old now"
  let ?t = "resolveExpiry (cfg M) ex now ?old ?found"
  have "maxTTL (cfg M) > 0 \<longrightarrow> ?t \<noteq> 0 \<and> ?t \<le> T + maxTTL (cfg M)"
  proof (cases "keeps ex ?found")
    case True
    then have "?t = ?old" by (simp add: keeps_def resolveExpiry_def)
    then show ?thesis
      using True assms(1) by (auto simp: keeps_def bounded_entries_def)
  next
    case False
    then have "?t = spec_resolve (cfg M) ex now"
      using assms(1) by (intro resolve_eq_spec) (auto simp: bounded_entries_def)
    then show ?thesis
      using spec_resolve_bounds [of "cfg M" now ex] assms by (auto simp: bounded_entries_def)
  qed
  then show ?thesis
    using assms(1) by (auto simp: bounded_entries_def set_entry_def Let_def)
qed

lemma exec_op_bounded:
  assumes "bounded_entries T M" and "0 < now" and "now \<le> T"
  shows "bounded_entries T (exec_op now op M)"
proof (cases op)
  case (OpSet k v e)
  then show ?thesis using set_entry_bounded [OF assms] by simp
next
  case (OpGet k)
  then show ?thesis
    using assms by (auto simp: bounded_entries_def lookup_def lookup_lock_def
        split: lookup_read.splits option.splits)
next
  case (OpCleanup ks)
  then show ?thesis
    using assms by (auto simp: bounded_entries_def cleanup_def dest!: cleanup_loop_sub)
next
  case (OpRebuild ks)
  then show ?thesis
    using assms by (auto simp: bounded_entries_def rebuild_def dest!: rebuild_loop_sub)
qed (use assms in \<open>auto simp: bounded_entries_def delete_entry_def close_memory_def\<close>)

lemma run_ops_bounded:
  "bounded_entries T M \<Longrightarrow> \<forall>(now, op) \<in> set ops. 0 < now \<and> now \<le> T \<Longrightarrow>
     bounded_entries T (run_ops ops M)"
  by (induction ops arbitrary: M) (auto simp: exec_op_bounded)

lemma NewMemory_bounded:
  "\<forall>opt \<in> set opts. memory_option opt \<Longrightarrow> NewMemory opts = Inr M \<Longrightarrow> bounded_entries T M"
  by (auto simp: NewMemory_def bounded_entries_def NewMemory_config_ok split: sum.splits)

lemma cfg_exec_op [simp]: "cfg (exec_op now op M) = cfg M"
  by (cases op) (auto simp: lookup_def lookup_lock_def set_entry_def delete_entry_def cleanup_def
      rebuild_def close_memory_def Let_def split: lookup_read.splits option.splits)

lemma cfg_run_ops [simp]: "cfg (run_ops ops M) = cfg M"
  by (induction ops M rule: run_ops.induct) auto

section \<open>Properties\<close>

text \<open>
  C1. Memory refines a timed map. Seen through the live view at any moment t from now on,
  a read answers with the view and changes nothing, a set stores the value under its key
  until the expiry it returned, a delete removes the key, and neither the janitor nor the
  rebuild, in whatever order they range over the map, removes an entry that is still live
  or keeps one visible that is not.
\<close>

theorem memory_refines_timed_map:
  assumes "valid_order ks (m M)" and "now \<le> t"
  shows "fst (lookup key now M) = answer (live M now key) \<and>
    live (snd (lookup key now M)) t = live M t \<and>
    live (snd (set_entry key v ex now M)) t =
      (live M t)(key := if expired (fst (set_entry key v ex now M)) t then None else Some v) \<and>
    live (delete_entry key M) t = (live M t)(key := None) \<and>
    live (cleanup now ks M) t = live M t \<and>
    live (rebuild now ks M) t = live M t"
  using assms
  by (simp add: lookup_answer live_lookup live_set_entry live_delete cleanup_eq rebuild_eq
      live_restrict)

definition example_memory :: "(nat, nat) memory" where
  "example_memory = \<lparr>cfg = zero_config\<lparr>defaultTTL := 10, maxTTL := 50\<rparr>,
     m = [1 \<mapsto> \<lparr>evalue = 7, expiresAt = 90\<rparr>, 2 \<mapsto> \<lparr>evalue = 8, expiresAt = 120\<rparr>],
     closed = False\<rparr>"

theorem memory_refines_timed_map_witness:
  "live example_memory 100 = [2 \<mapsto> 8] \<and>
   fst (lookup 1 100 example_memory) = (0, False) \<and>
   live (snd (lookup 1 100 example_memory)) 105 = live example_memory 105 \<and>
   live (cleanup 100 [2, 1] example_memory) 105 = live example_memory 105"
proof -
  have "valid_order [2, 1] (m example_memory)"
    by (auto simp: valid_order_def example_memory_def)
  from memory_refines_timed_map [OF this, of 100 105 1]
  have "fst (lookup 1 100 example_memory) = answer (live example_memory 100 1) \<and>
    live (snd (lookup 1 100 example_memory)) 105 = live example_memory 105 \<and>
    live (cleanup 100 [2, 1] example_memory) 105 = live example_memory 105"
    by simp
  moreover have "live example_memory 100 = [2 \<mapsto> 8]"
    by (auto simp: live_def example_memory_def fun_eq_iff expired_iff)
  ultimately show ?thesis by simp
qed

text \<open>
  With a maximum configured no entry is ever permanent. Take a Memory that NewMemory
  made from the package's options, and any sequence of operations (reads, sets with any
  expiry, Keep included, deletes, janitor and rebuild rounds, Close) at moments up to T, in
  any order: every entry that is then in the map has an expiry, at most the maximum after T.
\<close>

lemma no_permanent_entry_with_max:
  assumes "\<forall>opt \<in> set opts. memory_option opt" and "NewMemory opts = Inr M"
    and "\<forall>(now, op) \<in> set ops. 0 < now \<and> now \<le> T"
    and "m (run_ops ops M) k = Some e" and "maxTTL (cfg M) > 0"
  shows "expiresAt e \<noteq> 0 \<and> expiresAt e \<le> T + maxTTL (cfg M)"
  using run_ops_bounded [OF NewMemory_bounded [OF assms(1,2)] assms(3)] assms(4,5)
  by (simp add: bounded_entries_def)

text \<open>
  The janitor and the rebuild leave the same map, whatever the orders in which they
  range over it: exactly the entries that are live at their clock reading.
\<close>

lemma cleanup_rebuild_agree:
  assumes "valid_order ks (m M)" and "valid_order ks' (m M)"
  shows "cleanup now ks M = rebuild now ks' M \<and>
    (\<forall>k. m (cleanup now ks M) k =
       (case m M k of None \<Rightarrow> None | Some e \<Rightarrow> if expired (expiresAt e) now then None else Some e))"
  using assms by (simp add: cleanup_eq rebuild_eq restrict_live_def)

text \<open>
  Keep. Setting a key with Keep while its entry is live replaces the value and leaves
  the expiry exactly as it is, even outside the bounds; when the key is absent, or expired
  and not yet swept, the set is the one Default would make.
\<close>

lemma keep_preserves_expiry:
  "set_entry k v Keep now M =
     (if live M now k \<noteq> None
      then (expiresAt (the (m M k)), M\<lparr>m := (m M)(k \<mapsto> (the (m M k))\<lparr>evalue := v\<rparr>)\<rparr>)
      else set_entry k v Default now M)"
proof (cases "m M k")
  case None
  then show ?thesis by (simp add: set_entry_def live_def resolveExpiry_def Keep_def Default_def)
next
  case (Some e)
  then show ?thesis
    by (cases e) (simp add: set_entry_def live_def resolveExpiry_def Keep_def Default_def Let_def)
qed

text \<open>
  Iteration is a snapshot. Under a background context, ranging over Items with a body
  that always continues and whose effect on the world is g calls the body once for every
  live entry of the moment the loop starts, with its value then, and for nothing else; it
  does not matter what the body does to the cache meanwhile.
\<close>

lemma items_is_a_snapshot:
  assumes "heap_ok w" and "\<And>k v w. f k v w = (True, g k v w)"
  shows "\<exists>xs. distinct (map fst xs) \<and> map_of xs = mem_view p w \<and>
    Items (memory_cache p) f w = (False, fold (\<lambda>(k, v). g k v) xs w)"
proof -
  let ?xs = "snapshot (clock w) (rangeOrder w (dom (m (mems w p)))) (m (mems w p))"
  have ord: "valid_order (rangeOrder w (dom (m (mems w p)))) (m (mems w p))"
    using assms(1) by (auto simp: heap_ok_def valid_order_def)
  have "Items (memory_cache p) f w = (False, fold (\<lambda>(k, v). g k v) ?xs w)"
    by (simp add: mem_items_def mem_items_context_def Let_def items_loop_all [OF assms(2)])
  moreover have "map_of ?xs = mem_view p w" "distinct (map fst ?xs)"
    using ord map_of_snapshot [OF ord]
    by (simp_all add: mem_view_def snapshot_keys valid_order_def)
  ultimately show ?thesis by blast
qed

definition example_heap :: "(nat, nat) heap" where
  "example_heap = \<lparr>clock = 100, rangeOrder = sorted_list_of_set, brk = 1,
     mems = (\<lambda>_. example_memory)\<rparr>"

lemma example_heap_ok: "heap_ok example_heap"
  by (auto simp: heap_ok_def example_heap_def example_memory_def)

end
