(* ===== verification/CacheMemoryConc.thy ===== *)
theory CacheMemoryConc
  imports CacheMemory
begin

text \<open>
  Memory under concurrent use. A step is one goroutine doing one atomic piece of a method
  of cache/memory.go: reading the clock, or one critical section. A method reads the clock
  before it takes the lock, so the reading may be old when the section runs; a lookup that
  found an expired entry runs a second section later, when its answer is settled. An
  iteration takes its snapshot in one section; handing it out is not a step of the map. The
  maintenance goroutines are threads that wait in the select of loop.
\<close>

section \<open>Steps\<close>

datatype maintenance = Cleanup | Rebuild

datatype ('k, 'v) pc =
    Idle
  | Reading 'k time              \<comment> \<open>lookup: has the time, before the read lock\<close>
  | Evicting 'k time             \<comment> \<open>lookup: found an expired entry, before the write lock\<close>
  | Listing time                 \<comment> \<open>ItemsContext: has the time, before the read lock\<close>
  | Setting 'k 'v expiry time    \<comment> \<open>set: has the time, before the write lock\<close>
  | Looping maintenance          \<comment> \<open>loop: in the select\<close>
  | Maintaining maintenance time \<comment> \<open>cleanup or rebuild: has the time, before the write lock\<close>

record ('k, 'v) msys =
  mem :: "('k, 'v) memory"
  mtime :: time
  pcs :: "nat \<Rightarrow> ('k, 'v) pc"

definition maintain :: "maintenance \<Rightarrow> time \<Rightarrow> 'k list \<Rightarrow> ('k, 'v) memory \<Rightarrow> ('k, 'v) memory" where
  "maintain f now ks M = (case f of Cleanup \<Rightarrow> cleanup now ks M | Rebuild \<Rightarrow> rebuild now ks M)"

text \<open>A label names the key that the step writes by a set (with the stored value and expiry)
  or by a delete, or what a reader with the given clock reading found: for one key, or in a
  snapshot of all. Other steps are silent.\<close>

datatype ('k, 'v) label =
    Wrote 'k 'v time
  | Deleted 'k
  | Found time 'k "'v option"
  | Listed time "('k \<times> 'v) list"
  | Silent

fun lookup_found :: "'v lookup_read \<Rightarrow> 'v option" where
  "lookup_found (Hit v) = Some v"
| "lookup_found _ = None"

inductive mstep :: "('k, 'v::zero) msys \<Rightarrow> ('k, 'v) label \<Rightarrow> ('k, 'v) msys \<Rightarrow> bool" where
  tick: "mtime s \<le> t \<Longrightarrow> mstep s Silent (s\<lparr>mtime := t\<rparr>)"
| get_now: "pcs s i = Idle \<Longrightarrow>
    mstep s Silent (s\<lparr>pcs := (pcs s)(i := Reading k (mtime s))\<rparr>)"
| get_read: "pcs s i = Reading k now \<Longrightarrow>
    mstep s (Found now k (lookup_found (lookup_rlock k now (mem s)))) (s\<lparr>pcs := (pcs s)(i :=
      (case lookup_rlock k now (mem s) of Stale \<Rightarrow> Evicting k now | _ \<Rightarrow> Idle))\<rparr>)"
| get_evict: "pcs s i = Evicting k now \<Longrightarrow>
    mstep s Silent (s\<lparr>mem := lookup_lock k now (mem s), pcs := (pcs s)(i := Idle)\<rparr>)"
| items_now: "pcs s i = Idle \<Longrightarrow>
    mstep s Silent (s\<lparr>pcs := (pcs s)(i := Listing (mtime s))\<rparr>)"
| items_read: "pcs s i = Listing now \<Longrightarrow> valid_order ks (m (mem s)) \<Longrightarrow>
    mstep s (Listed now (snapshot now ks (m (mem s)))) (s\<lparr>pcs := (pcs s)(i := Idle)\<rparr>)"
| set_now: "pcs s i = Idle \<Longrightarrow>
    mstep s Silent (s\<lparr>pcs := (pcs s)(i := Setting k v ex (mtime s))\<rparr>)"
| set_write: "pcs s i = Setting k v ex now \<Longrightarrow> set_entry k v ex now (mem s) = (r, M) \<Longrightarrow>
    mstep s (Wrote k v r) (s\<lparr>mem := M, pcs := (pcs s)(i := Idle)\<rparr>)"
| delete: "pcs s i = Idle \<Longrightarrow> mstep s (Deleted k) (s\<lparr>mem := delete_entry k (mem s)\<rparr>)"
| close: "pcs s i = Idle \<Longrightarrow> mstep s Silent (s\<lparr>mem := close_memory (mem s)\<rparr>)"
| loop_tick: "pcs s i = Looping f \<Longrightarrow>
    mstep s Silent (s\<lparr>pcs := (pcs s)(i := Maintaining f (mtime s))\<rparr>)"
| loop_work: "pcs s i = Maintaining f now \<Longrightarrow> valid_order ks (m (mem s)) \<Longrightarrow>
    mstep s Silent (s\<lparr>mem := maintain f now ks (mem s), pcs := (pcs s)(i := Looping f)\<rparr>)"
| loop_done: "pcs s i = Looping f \<Longrightarrow> closed (mem s) \<Longrightarrow>
    mstep s Silent (s\<lparr>pcs := (pcs s)(i := Idle)\<rparr>)"

inductive mrun :: "('k, 'v::zero) msys \<Rightarrow> ('k, 'v) label list \<Rightarrow> ('k, 'v) msys \<Rightarrow> bool" where
  mrun_nil: "mrun s [] s"
| mrun_cons: "mstep s l s' \<Longrightarrow> mrun s' ls s'' \<Longrightarrow> mrun s (l # ls) s''"

inductive_cases mrun_nilE [elim!]: "mrun s [] t"
inductive_cases mrun_consE [elim!]: "mrun s (l # ls) t"

text \<open>No clock reading is from the future.\<close>

fun reading :: "('k, 'v) pc \<Rightarrow> time option" where
  "reading (Reading k now) = Some now"
| "reading (Evicting k now) = Some now"
| "reading (Listing now) = Some now"
| "reading (Setting k v ex now) = Some now"
| "reading (Maintaining f now) = Some now"
| "reading _ = None"

definition no_future :: "('k, 'v) msys \<Rightarrow> bool" where
  "no_future s \<longleftrightarrow> (\<forall>i now. reading (pcs s i) = Some now \<longrightarrow> now \<le> mtime s)"

lemma no_futureD: "no_future s \<Longrightarrow> reading (pcs s i) = Some now \<Longrightarrow> now \<le> mtime s"
  by (simp add: no_future_def)

lemma no_future_mem [simp]: "no_future (s\<lparr>mem := M\<rparr>) = no_future s"
  by (simp add: no_future_def)

lemma no_future_upd:
  "no_future s \<Longrightarrow> (\<And>now. reading p = Some now \<Longrightarrow> now \<le> mtime s) \<Longrightarrow>
     no_future (s\<lparr>pcs := (pcs s)(i := p)\<rparr>)"
  "no_future s \<Longrightarrow> (\<And>now. reading p = Some now \<Longrightarrow> now \<le> mtime s) \<Longrightarrow>
     no_future (s\<lparr>mem := M, pcs := (pcs s)(i := p)\<rparr>)"
  by (auto simp: no_future_def)

lemma mstep_no_future: "mstep s l s' \<Longrightarrow> no_future s \<Longrightarrow> no_future s'"
proof (induction rule: mstep.induct)
  case (tick s t)
  then show ?case by (fastforce simp: no_future_def)
next
  case (get_read s i k now)
  then show ?case
    using no_futureD [of s i now] by (intro no_future_upd) (auto split: lookup_read.splits)
qed (auto intro!: no_future_upd)

lemma mstep_time: "mstep s l s' \<Longrightarrow> mtime s \<le> mtime s'"
  by (induction rule: mstep.induct) auto

lemma maintain_eq: "valid_order ks (m M) \<Longrightarrow> maintain f now ks M = M\<lparr>m := restrict_live now (m M)\<rparr>"
  by (cases f) (simp_all add: maintain_def cleanup_eq rebuild_eq)

lemma live_maintain:
  "valid_order ks (m M) \<Longrightarrow> now \<le> t \<Longrightarrow> live (maintain f now ks M) t = live M t"
  by (simp add: maintain_eq live_restrict)

lemma live_close: "live (close_memory M) t = live M t"
  by (simp add: live_def close_memory_def fun_eq_iff)

text \<open>The effect of one step on the live view, at any later moment.\<close>

fun label_effect :: "('k, 'v) label \<Rightarrow> time \<Rightarrow> ('k \<rightharpoonup> 'v) \<Rightarrow> ('k \<rightharpoonup> 'v)" where
  "label_effect (Wrote k v r) t view = view(k := if expired r t then None else Some v)"
| "label_effect (Deleted k) t view = view(k := None)"
| "label_effect _ t view = view"

lemma mstep_view:
  "mstep s l s' \<Longrightarrow> no_future s \<Longrightarrow> mtime s \<le> t \<Longrightarrow>
     live (mem s') t = label_effect l t (live (mem s) t)"
proof (induction rule: mstep.induct)
  case (get_evict s i k now)
  then show ?case using no_futureD [of s i now] by (simp add: live_lookup_lock)
next
  case (set_write s i k v ex now r M)
  then show ?case using live_set_entry [of k v ex now "mem s" t] by simp
next
  case (loop_work s i f now ks)
  then show ?case using no_futureD [of s i now] by (simp add: live_maintain)
qed (simp_all add: live_delete live_close)

lemma mrun_no_future: "mrun s ls s' \<Longrightarrow> no_future s \<Longrightarrow> no_future s' \<and> mtime s \<le> mtime s'"
proof (induction rule: mrun.induct)
  case (mrun_cons s l s' ls s'')
  then show ?case
    using mstep_no_future [OF mrun_cons.hyps(1)] mstep_time [OF mrun_cons.hyps(1)] by auto
qed simp

lemma mrun_view:
  "mrun s ls s' \<Longrightarrow> no_future s \<Longrightarrow> mtime s' \<le> t \<Longrightarrow>
     live (mem s') t = fold (\<lambda>l. label_effect l t) ls (live (mem s) t)"
proof (induction rule: mrun.induct)
  case (mrun_cons s l s' ls s'')
  then have "no_future s'" "mtime s \<le> mtime s'" "mtime s' \<le> mtime s''"
    using mstep_no_future mstep_time mrun_no_future by blast+
  with mrun_cons show ?case by (simp add: mstep_view)
qed simp

section \<open>The log of the writes\<close>

text \<open>
  The abstract memory: for each key the value and expiry of the last completed write, never
  removed by anything but a delete.
\<close>

fun label_log :: "('k, 'v) label \<Rightarrow> ('k \<rightharpoonup> 'v \<times> time) \<Rightarrow> ('k \<rightharpoonup> 'v \<times> time)" where
  "label_log (Wrote k v r) W = W(k \<mapsto> (v, r))"
| "label_log (Deleted k) W = W(k := None)"
| "label_log _ W = W"

definition writes_of :: "('k, 'v) memory \<Rightarrow> 'k \<rightharpoonup> 'v \<times> time" where
  "writes_of M k = map_option (\<lambda>e. (evalue e, expiresAt e)) (m M k)"

text \<open>The memory holds the logged writes, except some that have expired by t.\<close>

definition logged :: "('k \<rightharpoonup> 'v \<times> time) \<Rightarrow> ('k, 'v) memory \<Rightarrow> time \<Rightarrow> bool" where
  "logged W M t \<longleftrightarrow>
     (\<forall>k. W k = writes_of M k \<or> writes_of M k = None \<and> (\<exists>v e. W k = Some (v, e) \<and> expired e t))"

text \<open>
  A correct answer for a key to a reader with clock reading now that is answered at time t: a
  value is that of the last write, not expired at now; no value means no write, or an
  expired one.
\<close>

definition answers :: "('k \<rightharpoonup> 'v \<times> time) \<Rightarrow> time \<Rightarrow> time \<Rightarrow> 'k \<Rightarrow> 'v option \<Rightarrow> bool" where
  "answers W now t k r \<longleftrightarrow> (case r of
       Some v \<Rightarrow> \<exists>e. W k = Some (v, e) \<and> \<not> expired e now
     | None \<Rightarrow> \<forall>v e. W k = Some (v, e) \<longrightarrow> expired e t)"

lemma logged_self [simp]: "logged (writes_of M) M t"
  by (simp add: logged_def)

lemma logged_later: "logged W M t \<Longrightarrow> t \<le> t' \<Longrightarrow> logged W M t'"
  unfolding logged_def by (meson expired_mono)

lemma logged_answers:
  assumes "logged W M t" and "now \<le> t"
  shows "answers W now t k (live M now k)"
proof -
  have "W k = writes_of M k \<or> writes_of M k = None \<and> (\<exists>v e. W k = Some (v, e) \<and> expired e t)"
    using assms(1) unfolding logged_def by blast
  then show ?thesis
    using expired_mono [of _ now t] assms(2)
    by (auto simp: answers_def live_def writes_of_def split: option.splits)
qed

lemma logged_restrict:
  assumes "logged W M t" and "now \<le> t" and "\<And>k. m M' k = m M k \<or> m M' k = None \<and> live M now k = None"
  shows "logged W M' t"
  unfolding logged_def
proof
  fix k
  have W: "W k = writes_of M k \<or> writes_of M k = None \<and> (\<exists>v e. W k = Some (v, e) \<and> expired e t)"
    using assms(1) unfolding logged_def by blast
  show "W k = writes_of M' k \<or> writes_of M' k = None \<and> (\<exists>v e. W k = Some (v, e) \<and> expired e t)"
  proof (cases "m M' k = m M k")
    case True
    then show ?thesis using W by (simp add: writes_of_def)
  next
    case False
    then obtain e where "m M k = Some e" "m M' k = None" "expired (expiresAt e) now"
      using assms(3) [of k] by (cases "m M k") (auto simp: live_def split: if_splits)
    moreover have "expired (expiresAt e) t" using calculation(3) assms(2) by (rule expired_mono)
    ultimately show ?thesis using W by (auto simp: writes_of_def)
  qed
qed

lemma logged_update: "logged W M t \<Longrightarrow> logged (W(k := w)) (M\<lparr>m := (m M)(k := x)\<rparr>) t"
  if "w = map_option (\<lambda>e. (evalue e, expiresAt e)) x"
  using that by (auto simp: logged_def writes_of_def)

lemma mstep_logged:
  "mstep s l s' \<Longrightarrow> no_future s \<Longrightarrow> logged W (mem s) (mtime s) \<Longrightarrow> logged (label_log l W) (mem s') (mtime s')"
proof (induction rule: mstep.induct)
  case (tick s t)
  then show ?case by (simp add: logged_later)
next
  case (get_evict s i k now)
  then have "now \<le> mtime s" using no_futureD [of s i now] by simp
  with get_evict show ?case
    by simp (erule logged_restrict, auto simp: lookup_lock_def live_def split: option.splits)
next
  case (set_write s i k v ex now r M)
  then have "M = (mem s)\<lparr>m := (m (mem s))(k \<mapsto> \<lparr>evalue = v, expiresAt = r\<rparr>)\<rparr>"
    by (auto simp: set_entry_def Let_def)
  then show ?case
    using logged_update [OF refl set_write.prems(2), where x = "Some \<lparr>evalue = v, expiresAt = r\<rparr>" and k = k]
    by (simp add: fun_upd_def)
next
  case (delete s i k)
  then show ?case using logged_update [OF refl delete.prems(2), where x = None and k = k]
    by (simp add: delete_entry_def fun_upd_def)
next
  case (close s i)
  then show ?case by (simp add: close_memory_def logged_def writes_of_def)
next
  case (loop_work s i f now ks)
  then have "now \<le> mtime s" using no_futureD [of s i now] by simp
  with loop_work show ?case
    by simp (erule logged_restrict, auto simp: maintain_eq restrict_live_def live_def split: option.splits)
qed simp_all

lemma mrun_logged:
  "mrun s ls s' \<Longrightarrow> no_future s \<Longrightarrow> logged W (mem s) (mtime s) \<Longrightarrow> logged (fold label_log ls W) (mem s') (mtime s')"
proof (induction arbitrary: W rule: mrun.induct)
  case (mrun_cons s l s' ls s'')
  have "logged (label_log l W) (mem s') (mtime s')" "no_future s'"
    using mstep_logged [OF mrun_cons.hyps(1)] mstep_no_future [OF mrun_cons.hyps(1)] mrun_cons.prems
    by simp_all
  then show ?case using mrun_cons.IH by simp
qed simp

lemma lookup_found_live: "lookup_found (lookup_rlock k now M) = live M now k"
  by (simp add: lookup_rlock_def live_def split: option.splits)

section \<open>An example run\<close>

text \<open>
  Thread 0 reads key 1, finds its entry expired, and evicts only after thread 1 has set the
  key afresh.
\<close>

definition example_msys :: "(nat, nat) msys" where
  "example_msys = \<lparr>mem = example_memory, mtime = 100, pcs = (\<lambda>_. Idle)\<rparr>"

definition before_set :: "(nat, nat) msys" where
  "before_set = example_msys\<lparr>pcs := (\<lambda>_. Idle)(0 := Evicting 1 100, 1 := Setting 1 9 Default 100)\<rparr>"

definition after_set :: "(nat, nat) msys" where
  "after_set = before_set\<lparr>mem := snd (set_entry 1 9 Default 100 example_memory),
     pcs := (\<lambda>_. Idle)(0 := Evicting 1 100)\<rparr>"

definition after_evict :: "(nat, nat) msys" where
  "after_evict = after_set\<lparr>mem := lookup_lock 1 100 (mem after_set), pcs := (\<lambda>_. Idle)\<rparr>"

lemma example_to_before_set: "mrun example_msys [Silent, Found 100 1 None, Silent] before_set"
proof -
  let ?s1 = "example_msys\<lparr>pcs := (pcs example_msys)(0 := Reading 1 (mtime example_msys))\<rparr>"
  let ?s2 = "?s1\<lparr>pcs := (pcs ?s1)(0 := (case lookup_rlock 1 100 (mem ?s1) of
      Stale \<Rightarrow> Evicting 1 100 | _ \<Rightarrow> Idle))\<rparr>"
  let ?s3 = "?s2\<lparr>pcs := (pcs ?s2)(1 := Setting 1 9 Default (mtime ?s2))\<rparr>"
  have "mstep example_msys Silent ?s1" by (rule get_now) (simp add: example_msys_def)
  moreover have "lookup_rlock 1 100 (mem ?s1) = Stale"
    by (simp add: example_msys_def lookup_rlock_def example_memory_def expired_iff)
  then have "mstep ?s1 (Found 100 1 None) ?s2"
    using get_read [of ?s1 0 1 100] by (simp add: example_msys_def)
  moreover have "mstep ?s2 Silent ?s3" by (rule set_now) (simp add: example_msys_def)
  ultimately have "mrun example_msys [Silent, Found 100 1 None, Silent] ?s3"
    by (blast intro: mrun.intros)
  moreover have "?s3 = before_set"
    by (simp add: before_set_def example_msys_def lookup_rlock_def example_memory_def expired_iff)
  ultimately show ?thesis by simp
qed

lemma example_set: "mstep before_set (Wrote 1 9 110) after_set"
proof -
  have "set_entry 1 9 Default 100 example_memory =
      (110, snd (set_entry 1 9 Default 100 example_memory))"
    by (simp add: set_entry_def example_memory_def resolve_defs Default_def zero_config_def
        time_Add_def)
  then have "mstep before_set (Wrote 1 9 110)
    (before_set\<lparr>mem := snd (set_entry 1 9 Default 100 example_memory),
       pcs := (pcs before_set)(1 := Idle)\<rparr>)"
    by (intro set_write [where ex = Default and now = 100])
      (simp_all add: before_set_def example_msys_def)
  moreover have "(pcs before_set)(1 := Idle) = (\<lambda>_. Idle)(0 := Evicting 1 100)"
    by (auto simp: before_set_def)
  ultimately show ?thesis by (simp add: after_set_def)
qed

lemma example_evict: "mrun after_set [Silent] after_evict"
proof -
  have "mstep after_set Silent
      (after_set\<lparr>mem := lookup_lock 1 100 (mem after_set), pcs := (pcs after_set)(0 := Idle)\<rparr>)"
    by (rule get_evict) (simp add: after_set_def)
  then show ?thesis
    by (auto intro!: mrun.intros simp: after_evict_def after_set_def fun_upd_def if_distrib
        cong: if_cong)
qed

section \<open>Properties\<close>

text \<open>
  C2. Memory is linearised by its writes. In every interleaving of readers, writers,
  deleters, the janitor, the rebuild and Close, with clock readings as old as the locks
  make them, what the map shows as live at any later moment is the result of applying the
  completed sets and deletes, in the order of their critical sections, to what it showed
  before; eviction and maintenance are invisible.
\<close>

theorem memory_linearised_by_writes:
  assumes "mrun s ls s'" and "\<And>i. pcs s i = Idle \<or> (\<exists>f. pcs s i = Looping f)"
    and "mtime s' \<le> t"
  shows "live (mem s') t = fold (\<lambda>l. label_effect l t) ls (live (mem s) t)"
proof -
  have "reading (pcs s i) = None" for i
    using assms(2) [of i] by auto
  then have "no_future s" by (simp add: no_future_def)
  then show ?thesis using assms(1,3) by (intro mrun_view)
qed

theorem memory_linearised_by_writes_witness:
  "live (mem before_set) 105 = live (mem example_msys) 105"
  using memory_linearised_by_writes [OF example_to_before_set, of 105]
  by (simp add: example_msys_def before_set_def)

text \<open>
  A fresh set is never evicted. If a set of key k completes, and the key is neither set
  nor deleted again, then whatever else runs the key shows the stored value until the
  expiry that the set returned, even when a reader had found the previous entry expired and
  evicts after the set.
\<close>

lemma fresh_set_survives:
  assumes "mstep s0 (Wrote k v r) s" and "mrun s ls s'"
    and "no_future s0"
    and "\<forall>l \<in> set ls. \<nexists>v' r'. l = Wrote k v' r' \<or> l = Deleted k"
  shows "live (mem s') (mtime s') k = (if expired r (mtime s') then None else Some v)"
proof -
  have f: "no_future s" "mtime s0 \<le> mtime s" "mtime s \<le> mtime s'"
    using assms(1-3) mstep_no_future mstep_time mrun_no_future by blast+
  have eff: "(\<nexists>v' r'. l = Wrote k v' r' \<or> l = Deleted k) \<Longrightarrow> label_effect l t view k = view k"
    for l t and view :: "'a \<rightharpoonup> 'b"
    by (cases l) auto
  have skip: "\<forall>l \<in> set ls. \<nexists>v' r'. l = Wrote k v' r' \<or> l = Deleted k \<Longrightarrow>
      fold (\<lambda>l. label_effect l t) ls view k = view k" for ls t and view :: "'a \<rightharpoonup> 'b"
    by (induction ls arbitrary: view) (auto simp: eff)
  have "live (mem s') (mtime s') k = live (mem s) (mtime s') k"
    using mrun_view [OF assms(2) f(1) order_refl] skip [OF assms(4)] by simp
  also have "\<dots> = (if expired r (mtime s') then None else Some v)"
    using mstep_view [OF assms(1,3), of "mtime s'"] f by simp
  finally show ?thesis .
qed

text \<open>
  C3. Readers see the last write. In every interleaving, what a lookup or an iteration finds
  for a key, with whatever clock reading it took beforehand, is the value of the last
  completed write of that key, unexpired at that reading; it finds nothing only if the key
  was never written, was deleted last, or its last write has expired by the time of the
  answer.
\<close>

theorem readers_see_last_write:
  assumes "mrun s ls s1" and "no_future s" and "mstep s1 l s2"
  shows "case l of
      Found now k r \<Rightarrow> now \<le> mtime s1 \<and> answers (fold label_log ls (writes_of (mem s))) now (mtime s1) k r
    | Listed now kvs \<Rightarrow> now \<le> mtime s1 \<and> distinct (map fst kvs) \<and>
        (\<forall>k. answers (fold label_log ls (writes_of (mem s))) now (mtime s1) k (map_of kvs k))
    | _ \<Rightarrow> True"
proof -
  have nf: "no_future s1" using mrun_no_future [OF assms(1,2)] by simp
  have log: "logged (fold label_log ls (writes_of (mem s))) (mem s1) (mtime s1)"
    by (rule mrun_logged [OF assms(1,2) logged_self])
  show ?thesis using assms(3)
  proof cases
    case (get_read i k now)
    then have "now \<le> mtime s1" using no_futureD [OF nf, of i now] by simp
    then show ?thesis using logged_answers [OF log, of now k] get_read by (simp add: lookup_found_live)
  next
    case (items_read i now ks)
    then have "now \<le> mtime s1" using no_futureD [OF nf, of i now] by simp
    then show ?thesis
      using logged_answers [OF log, of now] items_read map_of_snapshot [OF items_read(4), of now]
      by (simp add: snapshot_keys valid_order_def)
  qed simp_all
qed

theorem readers_see_last_write_witness:
  "answers (writes_of example_memory) 100 100 1 None"
proof -
  let ?s = "example_msys\<lparr>pcs := (\<lambda>_. Idle)(0 := Reading 1 100)\<rparr>"
  have "lookup_rlock 1 100 (mem ?s) = Stale"
    by (simp add: example_msys_def lookup_rlock_def example_memory_def expired_iff)
  then have "mstep ?s (Found 100 1 None) (?s\<lparr>pcs := (pcs ?s)(0 := Evicting 1 100)\<rparr>)"
    using get_read [of ?s 0 1 100] by simp
  from readers_see_last_write [OF mrun_nil _ this] show ?thesis
    by (simp add: no_future_def example_msys_def)
qed

end
