(* ===== verification/CacheSharded.thy ===== *)
theory CacheSharded
  imports CacheMemory
begin

text \<open>
  Sharded (cache/sharded.go): keys partitioned over backend caches by a shard function. The
  locale shard_stores is what Sharded relies on (each backend keeps the contract of a
  store and leaves the views of the others alone); under it Sharded keeps the contract
  itself, with the view that asks for each key the backend it is routed to.
\<close>

section \<open>Shard functions\<close>

text \<open>maphash.Comparable is the runtime's, with a fresh seed per call: a parameter here.\<close>

definition HashShard :: "('seed \<Rightarrow> 'k \<Rightarrow> 64 word) \<Rightarrow> 'seed \<Rightarrow> 'k \<Rightarrow> 64 word" where
  "HashShard maphash seed = (\<lambda>key. maphash seed key)"

text \<open>The conversion uint64 (key) of an integer key keeps its value modulo 2 ^ 64.\<close>

definition ModuloShard :: "int \<Rightarrow> 64 word" where
  "ModuloShard key = word_of_int key"

section \<open>Sharded\<close>

record ('w, 'k, 'v) sharded =
  algorithm :: "'k \<Rightarrow> 64 word"
  shards :: "('w, 'k, 'v) cache list"

fun build_shards ::
    "nat \<Rightarrow> ('w \<Rightarrow> (('w, 'k, 'v) cache \<times> 'w) go) \<Rightarrow> 'w \<Rightarrow> (('w, 'k, 'v) cache list \<times> 'w) go" where
  "build_shards 0 constructor w = Inr ([], w)"
| "build_shards (Suc n) constructor w =
     go_bind (constructor w) (\<lambda>(c, w1).
       go_bind (build_shards n constructor w1) (\<lambda>(cs, w2). Inr (c # cs, w2)))"

text \<open>A nil function argument is None.\<close>

definition NewSharded ::
    "int \<Rightarrow> ('k \<Rightarrow> 64 word) option \<Rightarrow> ('w \<Rightarrow> (('w, 'k, 'v) cache \<times> 'w) go) option \<Rightarrow> 'w \<Rightarrow>
      (('w, 'k, 'v) sharded \<times> 'w) go" where
  "NewSharded sz alg constructor w =
     (if sz < 1 then Inl ''cache.NewSharded: size must be at least 1''
      else case alg of
        None \<Rightarrow> Inl ''cache.NewSharded: algorithm must not be nil''
      | Some a \<Rightarrow>
          (case constructor of
             None \<Rightarrow> Inl ''cache.NewSharded: constructor must not be nil''
           | Some f \<Rightarrow> go_bind (build_shards (nat sz) f w)
               (\<lambda>(cs, w'). Inr (\<lparr>algorithm = a, shards = cs\<rparr>, w'))))"

definition shard_index :: "('k \<Rightarrow> 64 word) \<Rightarrow> nat \<Rightarrow> 'k \<Rightarrow> nat" where
  "shard_index alg n key = unat (alg key mod of_nat n)"

definition shard :: "('w, 'k, 'v) sharded \<Rightarrow> 'k \<Rightarrow> ('w, 'k, 'v) cache" where
  "shard s key = shards s ! shard_index (algorithm s) (length (shards s)) key"

fun sharded_items_loop ::
    "'w ctx \<Rightarrow> ('w, 'k, 'v) body \<Rightarrow> ('w, 'k, 'v) cache list \<Rightarrow> gerr option \<Rightarrow> 'w \<Rightarrow>
      (bool \<times> gerr option) \<times> 'w" where
  "sharded_items_loop x yield [] err w = ((False, err), w)"
| "sharded_items_loop x yield (c # cs) err w =
     (if ctxErr x w \<noteq> None then ((False, ctxCause x w), w)
      else case ItemsContext c x yield w of ((broke, e), w') \<Rightarrow>
        if broke then ((True, err), w')
        else if e \<noteq> None then ((False, e), w')
        else sharded_items_loop x yield cs e w')"

definition sharded_items_context ::
    "('w, 'k, 'v) sharded \<Rightarrow> 'w ctx \<Rightarrow> ('w, 'k, 'v) body \<Rightarrow> 'w \<Rightarrow> (bool \<times> gerr option) \<times> 'w" where
  "sharded_items_context s x yield w = sharded_items_loop x yield (shards s) None w"

fun sharded_close_loop ::
    "('w, 'k, 'v) cache list \<Rightarrow> gerr list \<Rightarrow> 'w \<Rightarrow> gerr list \<times> 'w" where
  "sharded_close_loop [] errs w = (errs, w)"
| "sharded_close_loop (c # cs) errs w =
     (case Closer c of
        None \<Rightarrow> sharded_close_loop cs errs w
      | Some cl \<Rightarrow>
          (case cl w of
             (None, w') \<Rightarrow> sharded_close_loop cs errs w'
           | (Some e, w') \<Rightarrow> sharded_close_loop cs (errs @ [e]) w'))"

definition sharded_close :: "('w, 'k, 'v) sharded \<Rightarrow> 'w \<Rightarrow> gerr option \<times> 'w" where
  "sharded_close s w =
     (case sharded_close_loop (shards s) [] w of (errs, w') \<Rightarrow> (errors_join errs, w'))"

definition sharded_cache :: "('w, 'k, 'v) sharded \<Rightarrow> ('w, 'k, 'v) cache" where
  "sharded_cache s =
     \<lparr>Get = (\<lambda>key. Get (shard s key) key),
      Set = (\<lambda>key. Set (shard s key) key),
      Delete = (\<lambda>key. Delete (shard s key) key),
      Items = (\<lambda>yield w. case sharded_items_context s background yield w of
        ((broke, err), w') \<Rightarrow> (broke, w')),
      GetContext = (\<lambda>x key. GetContext (shard s key) x key),
      SetContext = (\<lambda>x key. SetContext (shard s key) x key),
      DeleteContext = (\<lambda>x key. DeleteContext (shard s key) x key),
      ItemsContext = sharded_items_context s,
      Closer = Some (sharded_close s)\<rparr>"

lemma sharded_cache_simps [simp]:
  "Get (sharded_cache s) k = Get (shard s k) k"
  "Set (sharded_cache s) k = Set (shard s k) k"
  "Delete (sharded_cache s) k = Delete (shard s k) k"
  "GetContext (sharded_cache s) x k = GetContext (shard s k) x k"
  "SetContext (sharded_cache s) x k = SetContext (shard s k) x k"
  "DeleteContext (sharded_cache s) x k = DeleteContext (shard s k) x k"
  "ItemsContext (sharded_cache s) = sharded_items_context s"
  "Closer (sharded_cache s) = Some (sharded_close s)"
  by (simp_all add: sharded_cache_def)

lemma shard_index_less:
  assumes "0 < n"
  shows "shard_index alg n key < n"
proof (cases "(of_nat n :: 64 word) = 0")
  case True
  then have "2 ^ 64 dvd n"
    by (simp add: word_of_nat_eq_0_iff)
  with assms have "2 ^ 64 \<le> n" by (simp add: dvd_imp_le)
  moreover have "unat (alg key) < 2 ^ 64" using unsigned_less [of "alg key"] by simp
  ultimately show ?thesis using True by (simp add: shard_index_def)
next
  case False
  then have "0 < unat (of_nat n :: 64 word)" by (simp add: unat_gt_0)
  then have "shard_index alg n key < unat (of_nat n :: 64 word)"
    by (simp add: shard_index_def unat_mod)
  also have "\<dots> \<le> n" by (simp add: unsigned_of_nat take_bit_eq_mod)
  finally show ?thesis .
qed

section \<open>The contract\<close>

locale shard_stores =
  fixes alg :: "'k \<Rightarrow> 64 word"
    and cs :: "('w, 'k, 'v::zero) cache list"
    and inv :: "'w \<Rightarrow> bool"
    and views :: "nat \<Rightarrow> 'w \<Rightarrow> 'k \<rightharpoonup> 'v"
    and now :: "'w \<Rightarrow> time"
  assumes nonempty: "0 < length cs"
    and store: "i < length cs \<Longrightarrow> cache_store (cs ! i) inv (views i) now"
    and apart: "i < length cs \<Longrightarrow> j < length cs \<Longrightarrow> i \<noteq> j \<Longrightarrow> inv w \<Longrightarrow>
      views j (snd (SetContext (cs ! i) x k v ex w)) = views j w \<and>
      views j (snd (DeleteContext (cs ! i) x k w)) = views j w \<and>
      views j (snd (GetContext (cs ! i) x k w)) = views j w"
begin

lemma routed: "shard_index alg (length cs) k < length cs"
  using nonempty by (rule shard_index_less)

lemma shard_eq:
  "shard \<lparr>algorithm = alg, shards = cs\<rparr> k = cs ! shard_index alg (length cs) k"
  by (simp add: shard_def)

lemmas routed_store = store [OF routed]

lemma routed_api: "cache_api (cs ! shard_index alg (length cs) k)"
  using routed_store by (rule cache_store.axioms(1))

end

sublocale shard_stores \<subseteq> sh: cache_store "sharded_cache \<lparr>algorithm = alg, shards = cs\<rparr>" inv
  "\<lambda>w k. views (shard_index alg (length cs) k) w k" now
proof (intro cache_store.intro cache_api.intro cache_store_axioms.intro)
  let ?s = "\<lparr>algorithm = alg, shards = cs\<rparr>" and ?i = "\<lambda>k. shard_index alg (length cs) k"
  show "Get (sharded_cache ?s) k w =
      (case GetContext (sharded_cache ?s) background k w of ((v, ok, e), w') \<Rightarrow> (miss v ok e, w'))" for k w
    by (simp add: shard_eq cache_api.get_dual [OF routed_api])
  show "Set (sharded_cache ?s) k v ex w =
      (case SetContext (sharded_cache ?s) background k v ex w of ((t, e), w') \<Rightarrow> (t, w'))" for k v ex w
    by (simp add: shard_eq cache_api.set_dual [OF routed_api])
  show "Delete (sharded_cache ?s) k w = snd (DeleteContext (sharded_cache ?s) background k w)" for k w
    by (simp add: shard_eq cache_api.delete_dual [OF routed_api])
  show "Items (sharded_cache ?s) f w =
      (case ItemsContext (sharded_cache ?s) background f w of ((broke, e), w') \<Rightarrow> (broke, w'))" for f w
    by (simp add: sharded_cache_def)
  fix w :: 'w and x :: "'w ctx" and k :: 'k
  assume inv: "inv w"
  have same: "j < length cs \<Longrightarrow> j \<noteq> ?i k \<Longrightarrow>
      views j (snd (SetContext (cs ! ?i k) x k v ex w)) = views j w \<and>
      views j (snd (DeleteContext (cs ! ?i k) x k w)) = views j w \<and>
      views j (snd (GetContext (cs ! ?i k) x k w)) = views j w" for j v ex
    using apart [of "?i k" j w x k v ex] routed inv by auto
  show "inv w' \<and> (\<lambda>k. views (?i k) w' k) = (\<lambda>k. views (?i k) w k) \<and> now w' = now w \<and>
      (e = None \<longrightarrow> (v, ok) = answer (views (?i k) w k))"
    if "GetContext (sharded_cache ?s) x k w = ((v, ok, e), w')" for v ok e w'
  proof -
    have "views (?i k') w' = views (?i k') w" for k'
      using same [OF routed, of k'] cache_store.get_law [OF routed_store inv, of k x k] that
      by (cases "?i k' = ?i k") (auto simp: shard_eq)
    then show ?thesis
      using cache_store.get_law [OF routed_store inv, of k x k] that by (auto simp: shard_eq)
  qed
  show "inv w' \<and> now w' = now w \<and> (\<forall>k'. k' \<noteq> k \<longrightarrow> views (?i k') w' k' = views (?i k') w k') \<and>
      (e = None \<longrightarrow> views (?i k) w' k = (if expired t (now w) then None else Some v))"
    if "SetContext (sharded_cache ?s) x k v ex w = ((t, e), w')" for v ex t e w'
  proof -
    have "views (?i k') w' k' = views (?i k') w k'" if "k' \<noteq> k" for k'
      using same [OF routed, of k' v ex] cache_store.set_law [OF routed_store inv, of k x k v ex]
        \<open>SetContext (sharded_cache ?s) x k v ex w = ((t, e), w')\<close> that
      by (cases "?i k' = ?i k") (auto simp: shard_eq)
    then show ?thesis
      using cache_store.set_law [OF routed_store inv, of k x k v ex] that by (auto simp: shard_eq)
  qed
  show "inv w' \<and> now w' = now w \<and> (\<forall>k'. k' \<noteq> k \<longrightarrow> views (?i k') w' k' = views (?i k') w k') \<and>
      (e = None \<longrightarrow> views (?i k) w' k = None)"
    if "DeleteContext (sharded_cache ?s) x k w = (e, w')" for e w'
  proof -
    have "views (?i k') w' k' = views (?i k') w k'" if "k' \<noteq> k" for k'
      using same [OF routed, of k'] cache_store.delete_law [OF routed_store inv, of k x k]
        \<open>DeleteContext (sharded_cache ?s) x k w = (e, w')\<close> that
      by (cases "?i k' = ?i k") (auto simp: shard_eq)
    then show ?thesis
      using cache_store.delete_law [OF routed_store inv, of k x k] that by (auto simp: shard_eq)
  qed
qed

section \<open>Shards that are Memory objects\<close>

lemma mem_apart:
  assumes "p \<noteq> q"
  shows "mem_view q (snd (SetContext (memory_cache p) x k v ex w)) = mem_view q w"
    and "mem_view q (snd (DeleteContext (memory_cache p) x k w)) = mem_view q w"
    and "mem_view q (snd (GetContext (memory_cache p) x k w)) = mem_view q w"
  using assms mem_set_view(1) [of q p k v ex w] mem_delete_view(1) [of q p k w]
    mem_get_view(2) [of q p k w]
  by (auto simp: mem_set_context_def mem_delete_context_def mem_get_context_def split: prod.splits)

lemma nth_shards: "i < Suc n \<Longrightarrow> map memory_cache [b..<b + Suc n] ! i = memory_cache (b + i)"
  by (simp del: upt_Suc)

interpretation sharded_mem: shard_stores alg "map memory_cache [b..<b + Suc n]" heap_ok
  "\<lambda>i. mem_view (b + i)" clock for alg b n
proof (rule shard_stores.intro)
  show "cache_store (map memory_cache [b..<b + Suc n] ! i) heap_ok (mem_view (b + i)) clock"
    if "i < length (map memory_cache [b..<b + Suc n])" for i
    using that mem.cache_store_axioms nth_shards [of i n b] by (simp del: upt_Suc)
qed (simp_all del: upt_Suc memory_cache_simps add: nth_shards mem_apart)

text \<open>The constructor closure that makes a Memory with the given options.\<close>

definition memory_constructor ::
    "memoryOption list \<Rightarrow> ('k, 'v::zero, 'z) heap_scheme \<Rightarrow>
      ((('k, 'v, 'z) heap_scheme, 'k, 'v) cache \<times> ('k, 'v, 'z) heap_scheme) go" where
  "memory_constructor opts w =
     go_bind (new_memory opts w) (\<lambda>(p, w'). Inr (memory_cache p, w'))"

lemma memory_constructor_eq:
  "memory_constructor opts w =
     (case NewMemory opts of
        Inl msg \<Rightarrow> Inl msg
      | Inr M \<Rightarrow> Inr (memory_cache (brk w), (put_mem (brk w) M w)\<lparr>brk := Suc (brk w)\<rparr>))"
  by (simp add: memory_constructor_def new_memory_def split: sum.splits)

lemma build_memory_shards:
  "build_shards n (memory_constructor opts) w = Inr (cs, w') \<Longrightarrow>
     cs = map memory_cache [brk w..<brk w + n] \<and> brk w' = brk w + n \<and> clock w' = clock w \<and>
     (heap_ok w \<longrightarrow> heap_ok w') \<and> (\<forall>p. brk w \<le> p \<and> p < brk w + n \<longrightarrow> mem_view p w' = Map.empty)
     \<and> (\<forall>p. p < brk w \<longrightarrow> mems w' p = mems w p)"
proof (induction n arbitrary: cs w)
  case (Suc n)
  then obtain M cs' where M: "NewMemory opts = Inr M"
    and cs: "cs = memory_cache (brk w) # cs'"
    and rest: "build_shards n (memory_constructor opts)
      ((put_mem (brk w) M w)\<lparr>brk := Suc (brk w)\<rparr>) = Inr (cs', w')"
    by (auto simp: memory_constructor_eq [of opts w] split: sum.splits)
  have "m M = Map.empty"
    using M by (auto simp: NewMemory_def split: sum.splits)
  then have "live M t = Map.empty" "finite (dom (m M))" for t
    by (auto simp: live_def)
  then show ?case
    using Suc.IH [OF rest] cs
    by (auto simp: upt_conv_Cons heap_ok_def mem_view_def simp del: upt_Suc)
      (metis Suc_leI le_neq_implies_less less_Suc_eq_le)+
qed auto

lemma NewSharded_memory:
  assumes "NewSharded sz (Some alg) (Some (memory_constructor opts)) w = Inr (s, w')"
  obtains n where "nat sz = Suc n"
    and "s = \<lparr>algorithm = alg, shards = map memory_cache [brk w..<brk w + Suc n]\<rparr>"
    and "heap_ok w \<Longrightarrow> heap_ok w'" and "clock w' = clock w"
proof -
  from assms obtain cs where sz: "1 \<le> sz"
    and b: "build_shards (nat sz) (memory_constructor opts) w = Inr (cs, w')"
    and s: "s = \<lparr>algorithm = alg, shards = cs\<rparr>"
    by (auto simp: NewSharded_def split: if_splits elim!: go_bind.elims)
  from sz obtain n where "nat sz = Suc n" by (cases "nat sz") auto
  with build_memory_shards [OF b] s show thesis by (intro that) auto
qed

lemma shard_index_Modulo:
  assumes "0 < n" and "n < 2 ^ 64"
  shows "shard_index ModuloShard n k = nat ((k mod 2 ^ 64) mod int n)"
proof -
  have "uint (word_of_int k mod of_nat n :: 64 word) = (k mod 2 ^ 64) mod int n"
    using assms by (simp add: uint_mod_distrib unsigned_of_nat take_bit_eq_mod uint_word_of_int)
  then show ?thesis
    by (simp add: shard_index_def ModuloShard_def unat_eq_nat_uint)
qed

text \<open>Every stored key is in the backend it is routed to.\<close>

definition well_routed ::
    "('k \<Rightarrow> 64 word) \<Rightarrow> nat \<Rightarrow> nat \<Rightarrow> ('k, 'v, 'z) heap_scheme \<Rightarrow> bool" where
  "well_routed alg b n w \<longleftrightarrow>
     (\<forall>i < n. \<forall>k. m (mems w (b + i)) k \<noteq> None \<longrightarrow> shard_index alg n k = i)"

lemma mems_ops:
  "q \<noteq> p \<Longrightarrow> mems (snd (SetContext (memory_cache p) x k v ex w)) q = mems w q"
  "q \<noteq> p \<Longrightarrow> mems (snd (DeleteContext (memory_cache p) x k w)) q = mems w q"
  "q \<noteq> p \<Longrightarrow> mems (snd (GetContext (memory_cache p) x k w)) q = mems w q"
  by (auto simp: mem_set_context_def mem_set_def mem_delete_context_def mem_delete_def
      mem_get_context_def mem_get_def split: prod.splits)

lemma dom_ops:
  "m (mems (snd (SetContext (memory_cache p) x k v ex w)) p) k' \<noteq> None \<Longrightarrow>
     k' = k \<or> m (mems w p) k' \<noteq> None"
  "m (mems (snd (DeleteContext (memory_cache p) x k w)) p) k' \<noteq> None \<Longrightarrow> m (mems w p) k' \<noteq> None"
  "m (mems (snd (GetContext (memory_cache p) x k w)) p) k' \<noteq> None \<Longrightarrow> m (mems w p) k' \<noteq> None"
  by (auto simp: mem_set_context_def mem_set_def mem_delete_context_def mem_delete_def
      mem_get_context_def mem_get_def set_entry_def delete_entry_def lookup_def lookup_lock_def
      Let_def split: prod.splits if_splits lookup_read.splits option.splits)

lemma well_routed_step:
  assumes "well_routed alg b n w"
    and "\<And>q. q \<noteq> b + shard_index alg n k \<Longrightarrow> mems w' q = mems w q"
    and "\<And>k'. m (mems w' (b + shard_index alg n k)) k' \<noteq> None \<Longrightarrow>
      k' = k \<or> m (mems w (b + shard_index alg n k)) k' \<noteq> None"
  shows "well_routed alg b n w'"
  unfolding well_routed_def
proof (intro allI impI)
  fix i k' assume "i < n" "m (mems w' (b + i)) k' \<noteq> None"
  then show "shard_index alg n k' = i"
    using assms(1) assms(2) [of "b + i"] assms(3) [of k']
    by (cases "i = shard_index alg n k") (auto simp: well_routed_def)
qed

section \<open>Iteration over the backends\<close>

definition mem_snapshot :: "nat \<Rightarrow> ('k, 'v, 'z) heap_scheme \<Rightarrow> ('k \<times> 'v) list" where
  "mem_snapshot p w = snapshot (clock w) (rangeOrder w (dom (m (mems w p)))) (m (mems w p))"

definition same_heap :: "('k, 'v, 'z) heap_scheme \<Rightarrow> ('k, 'v, 'z) heap_scheme \<Rightarrow> bool" where
  "same_heap w w' \<longleftrightarrow> clock w' = clock w \<and> rangeOrder w' = rangeOrder w \<and> mems w' = mems w"

lemma fold_same_heap:
  assumes "\<And>k v w. same_heap w (g k v w)"
  shows "same_heap w (fold (\<lambda>(k, v). g k v) xs w)"
  using assms by (induction xs arbitrary: w) (auto simp: same_heap_def)

lemma mem_snapshot_same: "same_heap w w' \<Longrightarrow> mem_snapshot p w' = mem_snapshot p w"
  by (simp add: same_heap_def mem_snapshot_def)

lemma mem_snapshot_eq:
  assumes "heap_ok w"
  shows "map_of (mem_snapshot p w) = mem_view p w" and "distinct (map fst (mem_snapshot p w))"
proof -
  have "valid_order (rangeOrder w (dom (m (mems w p)))) (m (mems w p))"
    using assms by (auto simp: heap_ok_def valid_order_def)
  then show "map_of (mem_snapshot p w) = mem_view p w" "distinct (map fst (mem_snapshot p w))"
    by (simp_all add: mem_snapshot_def mem_view_def map_of_snapshot snapshot_keys valid_order_def)
qed

lemma sharded_items_loop_memories:
  assumes "\<And>k v w. f k v w = (True, g k v w)" and "\<And>k v w. same_heap w (g k v w)"
  shows "sharded_items_loop background f (map memory_cache ps) None w =
    ((False, None), fold (\<lambda>(k, v). g k v) (concat (map (\<lambda>p. mem_snapshot p w) ps)) w)"
proof (induction ps arbitrary: w)
  case (Cons p ps)
  let ?w = "fold (\<lambda>(k, v). g k v) (mem_snapshot p w) w"
  have "mem_items_context p background f w = ((False, None), ?w)"
    by (simp add: mem_items_context_def Let_def items_loop_all [OF assms(1)] mem_snapshot_def)
  moreover have "(\<lambda>p. mem_snapshot p ?w) = (\<lambda>p. mem_snapshot p w)"
    by (rule ext) (rule mem_snapshot_same [OF fold_same_heap [OF assms(2)]])
  ultimately show ?case using Cons.IH [of ?w] by simp
qed simp

lemma distinct_keys_concat:
  assumes "distinct ps" and "\<And>p. p \<in> set ps \<Longrightarrow> distinct (map fst (F p))"
    and "\<And>p q k. p \<in> set ps \<Longrightarrow> q \<in> set ps \<Longrightarrow> k \<in> fst ` set (F p) \<Longrightarrow> k \<in> fst ` set (F q) \<Longrightarrow> p = q"
  shows "distinct (map fst (concat (map F ps)))"
  using assms by (induction ps) (simp_all, blast)

section \<open>Properties\<close>


definition example_constructor ::
    "(nat, nat) heap \<Rightarrow> (((nat, nat) heap, nat, nat) cache \<times> (nat, nat) heap) go" where
  "example_constructor = memory_constructor [\<lambda>c. c\<lparr>maxTTL := 50\<rparr>]"

lemma example_sharded:
  "\<exists>s w1. NewSharded 2 (Some (\<lambda>k. of_nat k)) (Some example_constructor) example_heap = Inr (s, w1)"
proof -
  have "\<exists>M. NewMemory [\<lambda>c. c\<lparr>maxTTL := 50\<rparr>] = Inr M"
    by (simp add: NewMemory_def NewMemory_config_def zero_config_def)
  then obtain M :: "(nat, nat) memory" where "NewMemory [\<lambda>c. c\<lparr>maxTTL := 50\<rparr>] = Inr M" ..
  then show ?thesis
    by (simp add: NewSharded_def example_constructor_def memory_constructor_eq numeral_2_eq_2)
qed


text \<open>
  Routing. Every operation on a key touches exactly one backend, the one whose index is
  the hash of the key modulo the size, which is always in range: all other Memory objects
  stay as they are. So a stored key is always in the backend it is routed to.
\<close>

lemma sharded_routes_to_one:
  assumes "NewSharded sz (Some alg) (Some (memory_constructor opts)) w0 = Inr (s, w1)"
    and "i = shard_index alg (nat sz) k" and "b = brk w0"
    and "w' = snd (SetContext (sharded_cache s) x k v ex w) \<or>
      w' = snd (DeleteContext (sharded_cache s) x k w) \<or> w' = snd (GetContext (sharded_cache s) x k w)"
  shows "i < nat sz \<and> (\<forall>q. q \<noteq> b + i \<longrightarrow> mems w' q = mems w q) \<and>
    (well_routed alg b (nat sz) w \<longrightarrow> well_routed alg b (nat sz) w')"
proof -
  obtain n where n: "nat sz = Suc n"
    and s: "s = \<lparr>algorithm = alg, shards = map memory_cache [brk w0..<brk w0 + Suc n]\<rparr>"
    using assms(1) by (rule NewSharded_memory)
  have i: "i < Suc n" using assms(2) n shard_index_less [of "Suc n" alg k] by simp
  have sh: "shard s k = memory_cache (b + i)"
    using i n assms(2,3) by (simp add: s shard_def nth_shards del: upt_Suc)
  have only: "q \<noteq> b + i \<Longrightarrow> mems w' q = mems w q" for q
    using assms(4) sh by (auto simp del: memory_cache_simps simp: mems_ops)
  have "k' = k \<or> m (mems w (b + i)) k' \<noteq> None" if "m (mems w' (b + i)) k' \<noteq> None" for k'
  proof -
    from assms(4) consider "w' = snd (SetContext (memory_cache (b + i)) x k v ex w)"
      | "w' = snd (DeleteContext (memory_cache (b + i)) x k w)"
      | "w' = snd (GetContext (memory_cache (b + i)) x k w)"
      unfolding sharded_cache_simps sh by blast
    then show ?thesis
    proof cases
      case 1
      with that show ?thesis using dom_ops(1) by metis
    next
      case 2
      with that show ?thesis using dom_ops(2) by metis
    next
      case 3
      with that show ?thesis using dom_ops(3) by metis
    qed
  qed
  then show ?thesis
    using only i n assms(2) well_routed_step [of alg b "nat sz" w k w'] by auto
qed

text \<open>
  ModuloShard spreads sequential identifiers evenly. The backend of an integer key is
  its value modulo 2 ^ 64 modulo the size, and any run of as many consecutive keys as there
  are backends, within the unsigned range, hits every backend exactly once.
\<close>

lemma modulo_shard_spreads:
  assumes "0 < n" and "n < 2 ^ 64" and "0 \<le> k0" and "k0 + int n \<le> 2 ^ 64"
  shows "(\<forall>k. shard_index ModuloShard n k = nat ((k mod 2 ^ 64) mod int n)) \<and>
    bij_betw (shard_index ModuloShard n) {k0..<k0 + int n} {..<n}"
proof -
  let ?f = "shard_index ModuloShard n" and ?K = "{k0..<k0 + int n}"
  have f: "?f k = nat (k mod int n)" if "k \<in> ?K" for k
    using that assms by (simp add: shard_index_Modulo)
  have "a = b" if "a \<in> ?K" "b \<in> ?K" "?f a = ?f b" for a b
  proof -
    have "int n dvd a - b"
      using that f [of a] f [of b] assms(1) pos_mod_sign [of "int n" a] pos_mod_sign [of "int n" b]
      by (simp add: mod_eq_dvd_iff [symmetric] eq_nat_nat_iff)
    then show "a = b"
      using that(1,2) dvd_imp_le_int [of "a - b" "int n"] by force
  qed
  then have inj: "inj_on ?f ?K" by (rule inj_onI)
  have "?f ` ?K \<subseteq> {..<n}" using shard_index_less [OF assms(1)] by auto
  moreover have "card (?f ` ?K) = card {..<n}" using card_image [OF inj] by simp
  ultimately have "?f ` ?K = {..<n}" by (simp add: card_subset_eq)
  then show ?thesis
    using inj assms(1,2) by (auto simp: shard_index_Modulo bij_betw_def)
qed

text \<open>
  C25. Iterating a sharded stack of Memory backends, each visited in turn, calls the body
  exactly once for every live entry of the whole cache, given that the stored keys are in
  the backends they are routed to and that the body continues and leaves the heap alone.
\<close>

theorem sharded_items_complete:
  assumes "NewSharded sz (Some alg) (Some (memory_constructor opts)) w0 = Inr (s, w1)"
    and "heap_ok w" and "well_routed alg (brk w0) (nat sz) w"
    and "\<And>k v w. f k v w = (True, g k v w)" and "\<And>k v w. same_heap w (g k v w)"
  shows "\<exists>xs. distinct (map fst xs) \<and>
    (\<forall>k. map_of xs k = mem_view (brk w0 + shard_index alg (nat sz) k) w k) \<and>
    Items (sharded_cache s) f w = (False, fold (\<lambda>(k, v). g k v) xs w)"
proof -
  obtain n where n: "nat sz = Suc n"
    and s: "s = \<lparr>algorithm = alg, shards = map memory_cache [brk w0..<brk w0 + Suc n]\<rparr>"
    using assms(1) by (rule NewSharded_memory)
  let ?ps = "[brk w0..<brk w0 + Suc n]"
  let ?xs = "concat (map (\<lambda>p. mem_snapshot p w) ?ps)"
  let ?r = "\<lambda>k. brk w0 + shard_index alg (nat sz) k"
  have r: "?r k \<in> set ?ps" for k
    using shard_index_less [of "Suc n" alg k] n by (simp del: upt_Suc)
  have mem: "(k, v) \<in> set (mem_snapshot p w) \<longleftrightarrow> mem_view p w k = Some v" for p k v
    using mem_snapshot_eq [OF assms(2), of p] by (metis map_of_eq_Some_iff)
  have routed: "p = ?r k" if "p \<in> set ?ps" "mem_view p w k = Some v" for p k v
  proof -
    have "m (mems w p) k \<noteq> None"
      using that(2) by (auto simp: mem_view_def live_def split: option.splits)
    moreover have "p = brk w0 + (p - brk w0)" "p - brk w0 < Suc n"
      using that(1) by (auto simp del: upt_Suc)
    ultimately show ?thesis
      using assms(3) n unfolding well_routed_def by metis
  qed
  have d: "distinct (map fst ?xs)"
  proof (rule distinct_keys_concat)
    fix p q k
    assume p: "p \<in> set ?ps" "k \<in> fst ` set (mem_snapshot p w)"
      and q: "q \<in> set ?ps" "k \<in> fst ` set (mem_snapshot q w)"
    obtain u v where "mem_view p w k = Some u" "mem_view q w k = Some v"
      using p(2) q(2) mem by (auto simp del: upt_Suc)
    then show "p = q" using routed p(1) q(1) by metis
  qed (simp_all add: mem_snapshot_eq [OF assms(2)] del: upt_Suc)
  have "(k, v) \<in> set ?xs \<longleftrightarrow> mem_view (?r k) w k = Some v" for k v
    using r [of k] routed [of _ k v] mem [of k v] by (auto simp del: upt_Suc)
  then have "map_of ?xs k = mem_view (?r k) w k" for k
    using map_of_eq_Some_iff [OF d] by (metis option.exhaust)
  moreover have "Items (sharded_cache s) f w = (False, fold (\<lambda>(k, v). g k v) ?xs w)"
    by (simp add: sharded_cache_def sharded_items_context_def s
        sharded_items_loop_memories [OF assms(4,5)] del: upt_Suc)
  ultimately show ?thesis using d by blast
qed

theorem sharded_items_complete_witness:
  "\<exists>s w1 xs. NewSharded 1 (Some (\<lambda>k. of_nat k)) (Some example_constructor) (example_heap\<lparr>brk := 0\<rparr>)
       = Inr (s, w1) \<and> map_of xs = mem_view 0 example_heap \<and>
     Items (sharded_cache s) (\<lambda>k v w. (True, w\<lparr>brk := brk w + v\<rparr>)) example_heap =
       (False, fold (\<lambda>(k, v) w. w\<lparr>brk := brk w + v\<rparr>) xs example_heap)"
proof -
  have "\<exists>M. NewMemory [\<lambda>c. c\<lparr>maxTTL := 50\<rparr>] = Inr M"
    by (simp add: NewMemory_def NewMemory_config_def zero_config_def)
  then obtain M :: "(nat, nat) memory" where "NewMemory [\<lambda>c. c\<lparr>maxTTL := 50\<rparr>] = Inr M" ..
  then obtain s w1 where s: "NewSharded 1 (Some (\<lambda>k. of_nat k)) (Some example_constructor)
      (example_heap\<lparr>brk := 0\<rparr>) = Inr (s, w1)"
    by (simp add: NewSharded_def example_constructor_def memory_constructor_eq)
  have one: "shard_index alg 1 k = 0" for alg :: "nat \<Rightarrow> 64 word" and k
    using shard_index_less [of 1 alg k] by simp
  have "\<exists>xs. distinct (map fst xs) \<and>
      (\<forall>k. map_of xs k = mem_view (brk (example_heap\<lparr>brk := 0\<rparr>) +
         shard_index (\<lambda>k. of_nat k) (nat 1) k) example_heap k) \<and>
      Items (sharded_cache s) (\<lambda>k v w. (True, w\<lparr>brk := brk w + v\<rparr>)) example_heap =
        (False, fold (\<lambda>(k, v). (\<lambda>k v w. w\<lparr>brk := brk w + v\<rparr>) k v) xs example_heap)"
    by (rule sharded_items_complete [OF s [unfolded example_constructor_def] example_heap_ok])
      (auto simp: well_routed_def same_heap_def one [simplified])
  then obtain xs where "\<forall>k. map_of xs k = mem_view 0 example_heap k"
    and "Items (sharded_cache s) (\<lambda>k v w. (True, w\<lparr>brk := brk w + v\<rparr>)) example_heap =
        (False, fold (\<lambda>(k, v). (\<lambda>k v w. w\<lparr>brk := brk w + v\<rparr>) k v) xs example_heap)"
    using one [of "\<lambda>k. of_nat k"] by auto
  then show ?thesis using s by blast
qed

end
