(* ===== verification/CacheReadThrough.thy ===== *)
theory CacheReadThrough
  imports CacheMemory
begin

text \<open>
  ReadThrough (cache/readthrough.go): a front cache and a loader that is called on a miss.
  This theory has the layer as one goroutine sees it; the loader that single-flight shares
  between goroutines (flightGroup) is in CacheFlight, and enters here only as the function
  flight that loadAndStore calls in place of the load.
\<close>

section \<open>Loaders and configuration\<close>

type_synonym ('w, 'k, 'v) loader = "'w ctx \<Rightarrow> 'k \<Rightarrow> 'w \<Rightarrow> ('v \<times> gerr option) \<times> 'w"

record readThroughConfig =
  singleFlight :: bool
  cfgMissErrs :: "gerr list"

definition WithSingleFlight :: "readThroughConfig \<Rightarrow> readThroughConfig" where
  "WithSingleFlight = (\<lambda>c. c\<lparr>singleFlight := True\<rparr>)"

definition WithMissError :: "gerr list \<Rightarrow> readThroughConfig \<Rightarrow> readThroughConfig" where
  "WithMissError errs = (\<lambda>c. c\<lparr>cfgMissErrs := cfgMissErrs c @ errs\<rparr>)"

text \<open>
  The flight of a ReadThrough, if it has one: Do (ctx, key, fn) in the world, where fn is
  the load that the goroutine would run as the leader.
\<close>

type_synonym ('w, 'k, 'v) flight =
  "'w ctx \<Rightarrow> 'k \<Rightarrow> ('w \<Rightarrow> ('v \<times> gerr option) \<times> 'w) \<Rightarrow> 'w \<Rightarrow> ('v \<times> gerr option) \<times> 'w"

record ('w, 'k, 'v) readThrough =
  front :: "('w, 'k, 'v) cache"
  load :: "('w, 'k, 'v) loader"
  missErrs :: "gerr list"
  flight :: "('w, 'k, 'v) flight option"

text \<open>A nil front or loader is None; do is the Do of a fresh, empty flightGroup.\<close>

definition NewReadThrough ::
    "('w, 'k, 'v) cache option \<Rightarrow> ('w, 'k, 'v) loader option \<Rightarrow>
      (readThroughConfig \<Rightarrow> readThroughConfig) list \<Rightarrow> ('w, 'k, 'v) flight \<Rightarrow>
      ('w, 'k, 'v) readThrough go" where
  "NewReadThrough frontOpt loadOpt opts do =
     (case frontOpt of
        None \<Rightarrow> Inl ''cache.NewReadThrough: front must not be nil''
      | Some f \<Rightarrow>
          (case loadOpt of
             None \<Rightarrow> Inl ''cache.NewReadThrough: loader must not be nil''
           | Some l \<Rightarrow>
               (let c = apply_opts opts \<lparr>singleFlight = False, cfgMissErrs = []\<rparr> in
                Inr \<lparr>front = f, load = l, missErrs = cfgMissErrs c,
                  flight = (if singleFlight c then Some do else None)\<rparr>)))"

definition LoaderFromCache :: "('w, 'k, 'v::zero) cache \<Rightarrow> ('w, 'k, 'v) loader" where
  "LoaderFromCache c = (\<lambda>x key w.
     case GetContext c x key w of ((v, ok, err), w') \<Rightarrow>
       if err \<noteq> None then ((v, err), w')
       else if \<not> ok then ((0, Some ErrCacheMiss), w')
       else ((v, None), w'))"

section \<open>Operations\<close>

definition isMiss :: "('w, 'k, 'v) readThrough \<Rightarrow> gerr \<Rightarrow> bool" where
  "isMiss r err \<longleftrightarrow> errors_is err ErrCacheMiss \<or> list_ex (errors_is err) (missErrs r)"

definition load_and_set ::
    "('w, 'k, 'v) readThrough \<Rightarrow> 'w ctx \<Rightarrow> 'k \<Rightarrow> 'w \<Rightarrow> ('v \<times> gerr option) \<times> 'w" where
  "load_and_set r x key w =
     (case load r x key w of ((v, err), w1) \<Rightarrow>
        if err \<noteq> None then ((v, err), w1)
        else (case SetContext (front r) x key v Default w1 of (_, w2) \<Rightarrow> ((v, None), w2)))"

definition loadAndStore ::
    "('w, 'k, 'v) readThrough \<Rightarrow> 'w ctx \<Rightarrow> 'k \<Rightarrow> 'w \<Rightarrow> ('v \<times> gerr option) \<times> 'w" where
  "loadAndStore r x key w =
     (case flight r of
        Some do \<Rightarrow> do x key (load_and_set r x key) w
      | None \<Rightarrow> load_and_set r x key w)"

text \<open>What GetContext makes of the result of the load.\<close>

definition load_answer :: "(gerr \<Rightarrow> bool) \<Rightarrow> 'v::zero \<Rightarrow> gerr option \<Rightarrow> 'v \<times> bool \<times> gerr option" where
  "load_answer mis v err = (case err of
       Some e \<Rightarrow> if mis e then (0, False, None) else (0, False, Some e)
     | None \<Rightarrow> (v, True, None))"

lemma load_answer_simps [simp]:
  "load_answer mis v None = (v, True, None)"
  "load_answer mis v (Some e) = (if mis e then (0, False, None) else (0, False, Some e))"
  by (simp_all add: load_answer_def)

definition rt_get_context ::
    "('w, 'k, 'v::zero) readThrough \<Rightarrow> 'w ctx \<Rightarrow> 'k \<Rightarrow> 'w \<Rightarrow> ('v \<times> bool \<times> gerr option) \<times> 'w" where
  "rt_get_context r x key w =
     (case GetContext (front r) x key w of ((v, ok, err), w1) \<Rightarrow>
        if err \<noteq> None \<or> ok then ((v, ok, err), w1)
        else (case loadAndStore r x key w1 of ((v, err), w2) \<Rightarrow>
                (load_answer (isMiss r) v err, w2)))"

definition rt_get ::
    "('w, 'k, 'v::zero) readThrough \<Rightarrow> 'k \<Rightarrow> 'w \<Rightarrow> ('v \<times> bool) \<times> 'w" where
  "rt_get r key w =
     (case rt_get_context r background key w of ((v, ok, err), w') \<Rightarrow> (miss v ok err, w'))"

definition rt_close :: "('w, 'k, 'v) readThrough \<Rightarrow> 'w \<Rightarrow> gerr option \<times> 'w" where
  "rt_close r w = (case Closer (front r) of Some c \<Rightarrow> c w | None \<Rightarrow> (None, w))"

definition readThrough_cache :: "('w, 'k, 'v::zero) readThrough \<Rightarrow> ('w, 'k, 'v) cache" where
  "readThrough_cache r =
     \<lparr>Get = rt_get r, Set = Set (front r), Delete = Delete (front r), Items = Items (front r),
      GetContext = rt_get_context r, SetContext = SetContext (front r),
      DeleteContext = DeleteContext (front r), ItemsContext = ItemsContext (front r),
      Closer = Some (rt_close r)\<rparr>"

lemma readThrough_cache_simps [simp]:
  "Get (readThrough_cache r) = rt_get r" "Set (readThrough_cache r) = Set (front r)"
  "Delete (readThrough_cache r) = Delete (front r)" "Items (readThrough_cache r) = Items (front r)"
  "GetContext (readThrough_cache r) = rt_get_context r"
  "SetContext (readThrough_cache r) = SetContext (front r)"
  "DeleteContext (readThrough_cache r) = DeleteContext (front r)"
  "ItemsContext (readThrough_cache r) = ItemsContext (front r)"
  "Closer (readThrough_cache r) = Some (rt_close r)"
  by (simp_all add: readThrough_cache_def)

lemma readThrough_api:
  assumes "cache_api (front r)"
  shows "cache_api (readThrough_cache r)"
  using assms by (auto simp: cache_api_def rt_get_def)

section \<open>Reading through a store\<close>

text \<open>
  What ReadThrough relies on: its front is a store, and its loader keeps the front's
  invariant and does not change what the front shows for other keys.
\<close>

locale read_through = front: cache_store "front r" inv view now
  for r :: "('w, 'k, 'v::zero) readThrough"
    and inv :: "'w \<Rightarrow> bool" and view :: "'w \<Rightarrow> 'k \<rightharpoonup> 'v" and now :: "'w \<Rightarrow> time" +
  assumes no_flight: "flight r = None"
    and load_inv: "inv w \<Longrightarrow> inv (snd (load r x k w))"
    and load_frame: "inv w \<Longrightarrow> k' \<noteq> k \<Longrightarrow> view (snd (load r x k w)) k' = view w k'"
begin

lemma hit:
  assumes "inv w" and "view w k = Some a"
    and "rt_get_context r x k w = ((v, ok, e), w')"
  shows "inv w' \<and> view w' = view w \<and> (e = None \<longrightarrow> v = a \<and> ok)"
proof -
  obtain v1 ok1 e1 w1 where g: "GetContext (front r) x k w = ((v1, ok1, e1), w1)"
    by (metis surj_pair)
  note law = front.get_law [OF assms(1) g]
  have "e1 \<noteq> None \<or> ok1" using law assms(2) by auto
  then have "(v, ok, e) = (v1, ok1, e1)" "w' = w1"
    using assms(3) g by (auto simp: rt_get_context_def)
  then show ?thesis using law assms(2) by auto
qed

lemma miss_frame:
  assumes "inv w" and "rt_get_context r x k w = (res, w')"
  shows "inv w' \<and> (\<forall>k'. k' \<noteq> k \<longrightarrow> view w' k' = view w k')"
proof -
  obtain v1 ok1 e1 w1 where g: "GetContext (front r) x k w = ((v1, ok1, e1), w1)"
    by (metis surj_pair)
  obtain v2 e2 w2 where l: "load r x k w1 = ((v2, e2), w2)" by (metis surj_pair)
  obtain t3 e3 w3 where s: "SetContext (front r) x k v2 Default w2 = ((t3, e3), w3)"
    by (metis surj_pair)
  have 1: "inv w1" "view w1 = view w" using front.get_law [OF assms(1) g] by auto
  have 2: "inv w2" "k' \<noteq> k \<Longrightarrow> view w2 k' = view w k'" for k'
    using load_inv [OF 1(1), of x k] load_frame [OF 1(1), of k' k x] 1 l by auto
  have 3: "inv w3" "k' \<noteq> k \<Longrightarrow> view w3 k' = view w k'" for k'
    using front.set_law [OF 2(1) s] 2(2) by auto
  have "w' \<in> {w1, w2, w3}"
    using assms(2) g l s
    by (auto simp: rt_get_context_def loadAndStore_def no_flight load_and_set_def
        split: if_splits option.splits)
  then show ?thesis using 1 2 3 by auto
qed

end

section \<open>Memory fronts\<close>

text \<open>The entry that a load stores under Default is live at the moment of the store.\<close>

lemma default_is_fresh:
  assumes "wf_config (cfg M)"
  shows "\<not> expired (fst (set_entry k v Default now M)) now"
  using assms
  by (auto simp: set_entry_def Let_def Default_def resolveExpiry_def resolveDefault_def
      clampNever_def clampLifetime_eq expired_iff wf_config_def fields_ok_def time_Add_def)

lemma mem_set_default:
  assumes "wf_config (cfg (mems w p))"
  shows "mem_view p (snd (mem_set p k v Default w)) = (mem_view p w)(k \<mapsto> v)"
proof -
  have "fst (mem_set p k v Default w) = fst (set_entry k v Default (clock w) (mems w p))"
    by (simp add: mem_set_def split: prod.splits)
  then show ?thesis
    using default_is_fresh [OF assms, of k v "clock w"] by (simp add: mem_set_view)
qed

lemma mem_get_context_eq:
  "mem_get_context p x k w =
     ((fst (answer (mem_view p w k)), snd (answer (mem_view p w k)), None), snd (mem_get p k w))"
  using mem_get_view(1) [of p k w]
  by (cases "mem_get p k w"; cases "fst (mem_get p k w)")
    (auto simp: mem_get_context_def dest: sym)

lemma rt_memory_hit:
  assumes "front r = memory_cache p" and "mem_view p w k = Some a"
  shows "rt_get_context r x k w = ((a, True, None), snd (mem_get p k w))"
  using assms by (simp add: rt_get_context_def mem_get_context_eq)

lemma rt_memory_absent:
  assumes "front r = memory_cache p" and "mem_view p w k = None"
  shows "rt_get_context r x k w =
    (case loadAndStore r x k (snd (mem_get p k w)) of
       ((v, None), w') \<Rightarrow> ((v, True, None), w')
     | ((v, Some e), w') \<Rightarrow> ((0, False, if isMiss r e then None else Some e), w'))"
  using assms
  by (auto simp: rt_get_context_def mem_get_context_eq split: prod.splits option.splits)

lemma rt_load_ok:
  assumes "front r = memory_cache p" and "flight r = None" and "load r x k w = ((v, None), w2)"
  shows "loadAndStore r x k w = ((v, None), snd (mem_set p k v Default w2))"
  using assms
  by (simp add: loadAndStore_def load_and_set_def mem_set_context_def split: prod.splits)

lemma rt_load_error:
  assumes "flight r = None" and "load r x k w = ((v, Some e), w2)"
  shows "loadAndStore r x k w = ((v, Some e), w2)"
  using assms by (simp add: loadAndStore_def load_and_set_def)

section \<open>Two tiers\<close>

text \<open>NewReadThrough (l1, LoaderFromCache (l2), WithMissError (errs)) over two Memory objects.\<close>

definition two_tier ::
    "nat \<Rightarrow> nat \<Rightarrow> gerr list \<Rightarrow> (('k, 'v::zero, 'z) heap_scheme, 'k, 'v) readThrough" where
  "two_tier p q errs = \<lparr>front = memory_cache p, load = LoaderFromCache (memory_cache q),
     missErrs = errs, flight = None\<rparr>"

lemma two_tier_simps [simp]:
  "front (two_tier p q errs) = memory_cache p"
  "load (two_tier p q errs) = LoaderFromCache (memory_cache q)"
  "flight (two_tier p q errs) = None" "missErrs (two_tier p q errs) = errs"
  by (simp_all add: two_tier_def)

lemma loader_memory:
  "LoaderFromCache (memory_cache q) x k w =
     (case mem_view q w k of
        None \<Rightarrow> ((0, Some ErrCacheMiss), snd (mem_get q k w))
      | Some a \<Rightarrow> ((a, None), snd (mem_get q k w)))"
  by (simp add: LoaderFromCache_def mem_get_context_eq split: option.splits)

lemma isMiss_ErrCacheMiss [simp]: "isMiss r ErrCacheMiss"
  by (simp add: isMiss_def)

interpretation tiers: read_through "two_tier p q errs" heap_ok "mem_view p" clock for p q errs
proof (intro read_through.intro read_through_axioms.intro)
  show "cache_store (front (two_tier p q errs)) heap_ok (mem_view p) clock"
    using mem.cache_store_axioms by simp
  fix w x k k'
  show "heap_ok (snd (load (two_tier p q errs) x k w))" if "heap_ok w"
    using heap_ok_ops(1) [OF that] by (simp add: loader_memory split: option.splits)
  show "mem_view p (snd (load (two_tier p q errs) x k w)) k' = mem_view p w k'"
    by (simp add: loader_memory mem_get_view split: option.splits)
qed simp

section \<open>Properties\<close>

text \<open>
  C12. Reading through, on every branch. With a Memory front and any loader: a live entry
  is returned without calling the loader; on a miss the loader is called in the world after
  the front's read, and a loader error that is a miss becomes a plain miss, any other error
  is returned with no value, and in both cases nothing is stored; a loaded value is
  returned, is stored in the front for exactly that key, and is live there.
\<close>

theorem read_through_get:
  assumes "front r = memory_cache p" and "flight r = None"
    and "load r x k (snd (mem_get p k w)) = ((v, err), w2)" and "wf_config (cfg (mems w2 p))"
  shows "rt_get_context r x k w =
    (case mem_view p w k of
       Some a \<Rightarrow> ((a, True, None), snd (mem_get p k w))
     | None \<Rightarrow> (case err of
           Some e \<Rightarrow> ((0, False, if isMiss r e then None else Some e), w2)
         | None \<Rightarrow> ((v, True, None), snd (mem_set p k v Default w2)))) \<and>
    mem_view p (snd (mem_set p k v Default w2)) = (mem_view p w2)(k \<mapsto> v)"
  using assms
  by (auto simp: rt_memory_hit rt_memory_absent rt_load_ok rt_load_error mem_set_default
      split: option.splits)

theorem read_through_get_witness:
  "fst (rt_get_context (two_tier 0 1 []) background 3 (example_heap\<lparr>mems := (mems example_heap)
      (1 := example_memory\<lparr>m := [3 \<mapsto> \<lparr>evalue = 6, expiresAt = 0\<rparr>]\<rparr>)\<rparr>)) = (6, True, None)"
proof -
  let ?w = "example_heap\<lparr>mems := (mems example_heap)
      (1 := example_memory\<lparr>m := [3 \<mapsto> \<lparr>evalue = 6, expiresAt = 0\<rparr>]\<rparr>)\<rparr>"
  have v: "mem_view 1 ?w 3 = Some 6" "mem_view 0 ?w 3 = None"
    by (simp_all add: mem_view_def live_def example_heap_def example_memory_def expired_iff)
  have l: "load (two_tier 0 1 []) background 3 (snd (mem_get 0 3 ?w)) =
      ((6, None), snd (mem_get 1 3 (snd (mem_get 0 3 ?w))))"
    using v(1) by (simp add: loader_memory mem_get_view)
  have "wf_config (cfg (mems (snd (mem_get 1 3 (snd (mem_get 0 3 ?w)))) 0))"
    by (simp add: example_heap_def example_memory_def wf_config_def fields_ok_def zero_config_def
        go_time)
  then show ?thesis
    using read_through_get [of "two_tier 0 1 []" 0, OF _ _ l] v by simp
qed

text \<open>
  Tiers compose. Reading the fast tier of two Memory tiers joined by LoaderFromCache
  answers with the fast tier's live value, else with the slow tier's, else with a miss, and
  never with an error. The slow tier shows what it showed; the fast tier shows the value it
  was missing, and every other key as before; the heap stays well formed.
\<close>

lemma two_tiers_compose:
  assumes "wf_config (cfg (mems w p))" and "p \<noteq> q" and "heap_ok w"
    and "rt_get_context (two_tier p q errs) x k w = (res, w')"
  shows "heap_ok w' \<and> res = (case mem_view p w k of
        Some a \<Rightarrow> (a, True, None)
      | None \<Rightarrow> (case mem_view q w k of Some b \<Rightarrow> (b, True, None) | None \<Rightarrow> (0, False, None))) \<and>
    mem_view q w' = mem_view q w \<and>
    mem_view p w' = (case mem_view p w k of
        Some a \<Rightarrow> mem_view p w
      | None \<Rightarrow> (mem_view p w)(k := mem_view q w k))"
proof (cases "mem_view p w k")
  case (Some a)
  then show ?thesis
    using assms(4) tiers.miss_frame [OF assms(3,4)]
    by (auto simp: rt_memory_hit [of _ p] mem_get_view)
next
  case None
  let ?w1 = "snd (mem_get p k w)" and ?w2 = "snd (mem_get q k (snd (mem_get p k w)))"
  have v: "mem_view q ?w1 = mem_view q w" "mem_view p ?w2 = mem_view p w"
      "mem_view q ?w2 = mem_view q w"
    by (simp_all add: mem_get_view)
  show ?thesis
  proof (cases "mem_view q w k")
    case (Some b)
    then have "load (two_tier p q errs) x k ?w1 = ((b, None), ?w2)"
      by (simp add: loader_memory v)
    from rt_load_ok [OF _ _ this, of p] None assms(4)
    have "res = (b, True, None)" "w' = snd (mem_set p k b Default ?w2)"
      by (auto simp: rt_memory_absent [of _ p])
    then show ?thesis
      using None Some assms(1,2) v mem_set_default [of ?w2 p k b] tiers.miss_frame [OF assms(3,4)]
      by (simp add: mem_set_view)
  next
    case None2: None
    then have "load (two_tier p q errs) x k ?w1 = ((0, Some ErrCacheMiss), ?w2)"
      by (simp add: loader_memory v)
    from rt_load_error [OF _ this] None assms(4)
    have "res = (0, False, None)" "w' = ?w2"
      by (auto simp: rt_memory_absent [of _ p])
    then show ?thesis
      using None None2 v tiers.miss_frame [OF assms(3,4)] by (auto simp: fun_eq_iff)
  qed
qed

end
