(* ===== verification/CacheFlight.thy ===== *)
theory CacheFlight
  imports CacheReadThrough
begin

text \<open>
  flightGroup (cache/readthrough.go): the single-flight of concurrent loads, as a step
  relation over goroutines. The mutex makes the map accesses of Do and of the deferred
  function of lead atomic; everything between them is a step of its own, so that contexts
  end, loads return, panic or call Goexit, and new callers arrive at any moment.
\<close>

section \<open>State\<close>

text \<open>How the leader's load ends.\<close>

datatype 'v outcome = Ret 'v "gerr option" | Panic string | Goexit

definition errGoexit :: gerr where
  "errGoexit = Err ''cache: read-through loader called runtime.Goexit''"

text \<open>
  A call in the heap. The last four fields are not in the code: they record for which key and
  by which goroutine the call was made, how its load ended, and whether the context of that
  goroutine had ended by then.
\<close>

record ('k, 'v) call =
  callDone :: bool
  val :: 'v
  err :: "gerr option"
  abandoned :: bool
  ckey :: 'k
  cleader :: nat
  coutcome :: "'v outcome option"
  cended :: bool

datatype ('k, 'v) pc =
    Idle
  | Start 'k                         \<comment> \<open>Do: at the top of the loop\<close>
  | Waiting 'k nat                   \<comment> \<open>Do: in the select on c.done and ctx.Done\<close>
  | Loading 'k nat                   \<comment> \<open>lead: fn is running\<close>
  | Publishing 'k nat "'v outcome"   \<comment> \<open>lead: deferred function, before the delete\<close>
  | Closing 'k nat "'v outcome"      \<comment> \<open>lead: deferred function, before close\<close>
  | Returned 'k 'v "gerr option"
  | Panicked 'k string
  | Exited 'k

record ('k, 'v) fsys =
  group :: "'k \<rightharpoonup> nat"
  calls :: "nat \<Rightarrow> ('k, 'v) call"
  nextCall :: nat
  ended :: "nat \<Rightarrow> bool"
  pcs :: "nat \<Rightarrow> ('k, 'v) pc"

definition new_call :: "'k \<Rightarrow> nat \<Rightarrow> ('k, 'v::zero) call" where
  "new_call k i = \<lparr>callDone = False, val = 0, err = None, abandoned = False, ckey = k,
     cleader = i, coutcome = None, cended = False\<rparr>"

text \<open>
  What the leader writes into the call when its load ends: the assignment of the results
  and of abandoned, or the error that the deferred function sets.
\<close>

definition record_outcome :: "'v outcome \<Rightarrow> bool \<Rightarrow> ('k, 'v) call \<Rightarrow> ('k, 'v) call" where
  "record_outcome r ctxEnded c =
     (case r of
        Ret v e \<Rightarrow> c\<lparr>val := v, err := e, abandoned := e \<noteq> None \<and> ctxEnded, coutcome := Some r,
          cended := ctxEnded\<rparr>
      | Panic msg \<Rightarrow> c\<lparr>err := Some (Err (''cache: read-through loader panicked: '' @ msg)),
          coutcome := Some r, cended := ctxEnded\<rparr>
      | Goexit \<Rightarrow> c\<lparr>err := Some errGoexit, coutcome := Some r, cended := ctxEnded\<rparr>)"

text \<open>How the leader itself leaves lead once the call is closed.\<close>

definition leave :: "'k \<Rightarrow> 'v outcome \<Rightarrow> ('k, 'v) pc" where
  "leave k r = (case r of Ret v e \<Rightarrow> Returned k v e | Panic msg \<Rightarrow> Panicked k msg | Goexit \<Rightarrow> Exited k)"

section \<open>Steps\<close>

text \<open>cause i is context.Cause of goroutine i's context once that has ended.\<close>

inductive fstep :: "(nat \<Rightarrow> gerr) \<Rightarrow> ('k, 'v::zero) fsys \<Rightarrow> ('k, 'v) fsys \<Rightarrow> bool"
  for cause :: "nat \<Rightarrow> gerr" where
  ctx_end: "fstep cause s (s\<lparr>ended := (ended s)(i := True)\<rparr>)"
| do_call: "pcs s i = Idle \<Longrightarrow> fstep cause s (s\<lparr>pcs := (pcs s)(i := Start k)\<rparr>)"
| do_join: "pcs s i = Start k \<Longrightarrow> group s k = Some c \<Longrightarrow>
    fstep cause s (s\<lparr>pcs := (pcs s)(i := Waiting k c)\<rparr>)"
| do_lead: "pcs s i = Start k \<Longrightarrow> group s k = None \<Longrightarrow> c = nextCall s \<Longrightarrow>
    fstep cause s (s\<lparr>group := (group s)(k \<mapsto> c), calls := (calls s)(c := new_call k i),
      nextCall := Suc c, pcs := (pcs s)(i := Loading k c)\<rparr>)"
| wait_ctx: "pcs s i = Waiting k c \<Longrightarrow> ended s i \<Longrightarrow>
    fstep cause s (s\<lparr>pcs := (pcs s)(i := Returned k 0 (Some (cause i)))\<rparr>)"
| wait_done: "pcs s i = Waiting k c \<Longrightarrow> callDone (calls s c) \<Longrightarrow>
    fstep cause s (s\<lparr>pcs := (pcs s)(i :=
      (if abandoned (calls s c)
       then (if ended s i then Returned k 0 (Some (cause i)) else Start k)
       else Returned k (val (calls s c)) (err (calls s c))))\<rparr>)"
| load_end: "pcs s i = Loading k c \<Longrightarrow>
    fstep cause s (s\<lparr>calls := (calls s)(c := record_outcome r (ended s i) (calls s c)),
      pcs := (pcs s)(i := Publishing k c r)\<rparr>)"
| publish: "pcs s i = Publishing k c r \<Longrightarrow>
    fstep cause s (s\<lparr>group := (group s)(k := None), pcs := (pcs s)(i := Closing k c r)\<rparr>)"
| close: "pcs s i = Closing k c r \<Longrightarrow>
    fstep cause s (s\<lparr>calls := (calls s)(c := (calls s c)\<lparr>callDone := True\<rparr>),
      pcs := (pcs s)(i := leave k r)\<rparr>)"

inductive freach :: "(nat \<Rightarrow> gerr) \<Rightarrow> ('k, 'v::zero) fsys \<Rightarrow> bool" for cause where
  freach_init: "group s = Map.empty \<Longrightarrow> (\<And>i. pcs s i = Idle) \<Longrightarrow> nextCall s = 0 \<Longrightarrow> freach cause s"
| freach_step: "freach cause s \<Longrightarrow> fstep cause s s' \<Longrightarrow> freach cause s'"

section \<open>Invariant\<close>

text \<open>
  The call that a goroutine works on: as the leader whose entry is in the map (leading), as
  the leader about to close it, or as a waiter.
\<close>

fun leading :: "('k, 'v) pc \<Rightarrow> ('k \<times> nat) option" where
  "leading (Loading k c) = Some (k, c)"
| "leading (Publishing k c r) = Some (k, c)"
| "leading _ = None"

fun owning :: "('k, 'v) pc \<Rightarrow> ('k \<times> nat) option" where
  "owning (Closing k c r) = Some (k, c)"
| "owning p = leading p"

lemma owning_leading: "leading p = Some x \<Longrightarrow> owning p = Some x"
  by (cases p) auto

definition call_ok :: "('k, 'v::zero) call \<Rightarrow> bool" where
  "call_ok c \<longleftrightarrow> (case coutcome c of
      None \<Rightarrow> err c = None \<and> \<not> abandoned c \<and> \<not> callDone c
    | Some (Ret v e) \<Rightarrow> val c = v \<and> err c = e \<and> (abandoned c \<longleftrightarrow> e \<noteq> None \<and> cended c)
    | Some _ \<Rightarrow> err c \<noteq> None \<and> \<not> abandoned c)"

text \<open>How call c accounts for a result of goroutine i.\<close>

definition explains :: "nat \<Rightarrow> 'v \<Rightarrow> gerr option \<Rightarrow> ('k, 'v) call \<Rightarrow> bool" where
  "explains i v e c \<longleftrightarrow> (case coutcome c of
      None \<Rightarrow> False
    | Some (Ret v' e') \<Rightarrow> v = v' \<and> e = e' \<and> (cleader c = i \<or> \<not> abandoned c)
    | Some _ \<Rightarrow> e \<noteq> None)"

lemma explains_cong:
  "coutcome c' = coutcome c \<Longrightarrow> cleader c' = cleader c \<Longrightarrow> abandoned c' = abandoned c \<Longrightarrow>
     explains i v e c' = explains i v e c"
  by (simp add: explains_def split: option.split outcome.split)

fun pc_ok :: "(nat \<Rightarrow> gerr) \<Rightarrow> ('k, 'v::zero) fsys \<Rightarrow> nat \<Rightarrow> ('k, 'v) pc \<Rightarrow> bool" where
  "pc_ok cause s i (Waiting k c) \<longleftrightarrow> c < nextCall s \<and> ckey (calls s c) = k \<and>
     (callDone (calls s c) \<or> (\<exists>j. owning (pcs s j) = Some (k, c)))"
| "pc_ok cause s i (Loading k c) \<longleftrightarrow> c < nextCall s \<and> ckey (calls s c) = k \<and> cleader (calls s c) = i \<and>
     coutcome (calls s c) = None"
| "pc_ok cause s i (Publishing k c r) \<longleftrightarrow> c < nextCall s \<and> ckey (calls s c) = k \<and> cleader (calls s c) = i \<and>
     coutcome (calls s c) = Some r"
| "pc_ok cause s i (Closing k c r) \<longleftrightarrow> c < nextCall s \<and> ckey (calls s c) = k \<and> cleader (calls s c) = i \<and>
     coutcome (calls s c) = Some r"
| "pc_ok cause s i (Returned k v e) \<longleftrightarrow> (e = Some (cause i) \<and> ended s i) \<or>
     (\<exists>c < nextCall s. ckey (calls s c) = k \<and> explains i v e (calls s c))"
| "pc_ok cause s i _ \<longleftrightarrow> True"

definition finv :: "(nat \<Rightarrow> gerr) \<Rightarrow> ('k, 'v::zero) fsys \<Rightarrow> bool" where
  "finv cause s \<longleftrightarrow>
     (\<forall>k c. group s k = Some c \<longleftrightarrow> (\<exists>i. leading (pcs s i) = Some (k, c))) \<and>
     (\<forall>i j k c k'. owning (pcs s i) = Some (k, c) \<longrightarrow> owning (pcs s j) = Some (k', c) \<longrightarrow> i = j) \<and>
     (\<forall>c < nextCall s. call_ok (calls s c)) \<and>
     (\<forall>i. pc_ok cause s i (pcs s i))"

lemma record_outcome_simps [simp]:
  "ckey (record_outcome r b c) = ckey c" "callDone (record_outcome r b c) = callDone c"
  "cleader (record_outcome r b c) = cleader c" "coutcome (record_outcome r b c) = Some r"
  by (cases r; simp add: record_outcome_def)+

lemma record_outcome_ok: "coutcome c = None \<Longrightarrow> call_ok c \<Longrightarrow> call_ok (record_outcome r b c)"
  by (cases r) (auto simp: call_ok_def record_outcome_def)

lemma leave_leading [simp]: "leading (leave k r) = None" "owning (leave k r) = None"
  by (cases r; simp add: leave_def)+

definition extends :: "('k, 'v::zero) fsys \<Rightarrow> ('k, 'v) fsys \<Rightarrow> bool" where
  "extends s s' \<longleftrightarrow> nextCall s \<le> nextCall s' \<and> (\<forall>i. ended s i \<longrightarrow> ended s' i) \<and>
     (\<forall>c < nextCall s. ckey (calls s' c) = ckey (calls s c) \<and> cleader (calls s' c) = cleader (calls s c) \<and>
        (callDone (calls s c) \<longrightarrow> callDone (calls s' c)) \<and>
        (coutcome (calls s c) \<noteq> None \<longrightarrow> coutcome (calls s' c) = coutcome (calls s c) \<and>
           abandoned (calls s' c) = abandoned (calls s c))) \<and>
     (\<forall>i k c. owning (pcs s i) = Some (k, c) \<longrightarrow>
        callDone (calls s' c) \<or> (\<exists>j. owning (pcs s' j) = Some (k, c)))"

lemma pc_ok_extends:
  assumes "pc_ok cause s j p" and "extends s s'"
    and "\<And>k c. p = Loading k c \<Longrightarrow> coutcome (calls s' c) = None"
  shows "pc_ok cause s' j p"
proof (cases p)
  case (Returned k v e)
  show ?thesis
  proof (cases "e = Some (cause j) \<and> ended s j")
    case True
    then show ?thesis using Returned assms(2) by (simp add: extends_def)
  next
    case False
    then obtain c where c: "c < nextCall s" "ckey (calls s c) = k" and o: "explains j v e (calls s c)"
      using Returned assms(1) by auto
    then have "coutcome (calls s c) \<noteq> None" by (auto simp: explains_def split: option.splits)
    then have "c < nextCall s'" "ckey (calls s' c) = k" "explains j v e (calls s' c)"
      using assms(2) c o explains_cong [of "calls s' c" "calls s c"] by (auto simp: extends_def)
    then show ?thesis using Returned by auto
  qed
next
  case (Waiting k c)
  then have "c < nextCall s'" "ckey (calls s' c) = k"
    using assms(1,2) by (auto simp: extends_def)
  moreover have "callDone (calls s' c) \<or> (\<exists>j. owning (pcs s' j) = Some (k, c))"
    using assms(1,2) Waiting unfolding extends_def by simp metis
  ultimately show ?thesis using Waiting by simp
qed (use assms in \<open>auto simp: extends_def\<close>)

lemma extends_upd:
  assumes "\<And>k c. owning (pcs s i) = Some (k, c) \<Longrightarrow> owning p = Some (k, c)"
  shows "extends s (s\<lparr>pcs := (pcs s)(i := p)\<rparr>)"
  using assms unfolding extends_def by (simp; metis)

lemma finvI:
  assumes "\<And>k c. group s k = Some c \<longleftrightarrow> (\<exists>i. leading (pcs s i) = Some (k, c))"
    and "\<And>i j k c k'. owning (pcs s i) = Some (k, c) \<Longrightarrow> owning (pcs s j) = Some (k', c) \<Longrightarrow> i = j"
    and "\<And>c. c < nextCall s \<Longrightarrow> call_ok (calls s c)"
    and "\<And>i. pc_ok cause s i (pcs s i)"
  shows "finv cause s"
  using assms unfolding finv_def by blast

text \<open>Steps of goroutines that own no call before or after.\<close>

lemma finv_upd:
  assumes "finv cause s" and "owning (pcs s i) = None" and "owning p = None"
    and "pc_ok cause s i p"
  shows "finv cause (s\<lparr>pcs := (pcs s)(i := p)\<rparr>)"
proof -
  let ?s = "s\<lparr>pcs := (pcs s)(i := p)\<rparr>"
  have n: "leading (pcs s i) = None" "leading p = None"
    using assms(2,3) owning_leading by (metis not_None_eq)+
  have e: "extends s ?s" by (rule extends_upd) (simp add: assms)
  have np: "p \<noteq> Loading k c" for k c using n(2) by auto
  have "pc_ok cause ?s j (pcs ?s j)" for j
  proof (cases "j = i")
    case True
    then show ?thesis using pc_ok_extends [OF assms(4) e] np by auto
  next
    case False
    moreover have "pc_ok cause s j (pcs s j)" using assms(1) by (simp add: finv_def)
    ultimately show ?thesis
      using pc_ok_extends [OF _ e, of cause j "pcs s j"] by (cases "pcs s j") auto
  qed
  moreover have "leading (pcs ?s j) = leading (pcs s j)" "owning (pcs ?s j) = owning (pcs s j)" for j
    using n assms(2,3) by auto
  ultimately show ?thesis
    using assms(1) by (intro finvI) (auto simp: finv_def simp del: fun_upd_apply)
qed


lemma finvD:
  assumes "finv cause s"
  shows "group s k = Some c \<longleftrightarrow> (\<exists>i. leading (pcs s i) = Some (k, c))"
    and "owning (pcs s i) = Some (k, c) \<Longrightarrow> owning (pcs s j) = Some (k', c) \<Longrightarrow> i = j"
    and "c < nextCall s \<Longrightarrow> call_ok (calls s c)"
    and "pc_ok cause s i (pcs s i)"
  using assms unfolding finv_def by blast+

lemma owning_bound: "finv cause s \<Longrightarrow> owning (pcs s i) = Some (k, c) \<Longrightarrow> c < nextCall s"
  using finvD(4) [of cause s i] by (cases "pcs s i") auto

lemma pc_ok_frame:
  assumes "finv cause s" and "extends s s'"
    and "\<And>k c. pcs s j = Loading k c \<Longrightarrow> coutcome (calls s' c) = coutcome (calls s c)"
  shows "pc_ok cause s' j (pcs s j)"
  using finvD(4) [OF assms(1), of j] assms(3) by (intro pc_ok_extends [OF _ assms(2)]) auto

lemma finv_lead:
  assumes inv: "finv cause s" and st: "pcs s i = Start k" "group s k = None"
  shows "finv cause (s\<lparr>group := (group s)(k \<mapsto> nextCall s),
      calls := (calls s)(nextCall s := new_call k i), nextCall := Suc (nextCall s),
      pcs := (pcs s)(i := Loading k (nextCall s))\<rparr>)" (is "finv cause ?s")
proof (rule finvI)
  have o: "owning (pcs s i) = None" "leading (pcs s i) = None" using st by simp_all
  have e: "extends s ?s"
    using o unfolding extends_def by (auto simp: less_Suc_eq) (metis option.distinct(1))+
  have none: "owning (pcs s j) \<noteq> Some (k', nextCall s)" for j k'
    using owning_bound [OF inv] by blast
  show "group ?s k' = Some c \<longleftrightarrow> (\<exists>j. leading (pcs ?s j) = Some (k', c))" for k' c
  proof (cases "k' = k")
    case True
    have "leading (pcs s j) \<noteq> Some (k, c)" for j c
      using finvD(1) [OF inv] st(2) by (metis option.distinct(1))
    then show ?thesis using True by auto
  next
    case False
    then have "(\<exists>j. leading (pcs ?s j) = Some (k', c)) \<longleftrightarrow> (\<exists>j. leading (pcs s j) = Some (k', c))"
      using st(1) by (auto split: if_splits) (metis o(2) option.distinct(1))
    then show ?thesis using False finvD(1) [OF inv, of k' c] by simp
  qed
  show "a = b" if "owning (pcs ?s a) = Some (k1, c)" "owning (pcs ?s b) = Some (k2, c)" for a b k1 k2 c
    using that none finvD(2) [OF inv] by (auto split: if_splits)
  show "call_ok (calls ?s c)" if "c < nextCall ?s" for c
    using that finvD(3) [OF inv, of c] by (auto simp: call_ok_def new_call_def less_Suc_eq)
  show "pc_ok cause ?s j (pcs ?s j)" for j
  proof (cases "j = i")
    case False
    have "pc_ok cause ?s j (pcs s j)"
      using finvD(4) [OF inv, of j] by (intro pc_ok_frame [OF inv e]) auto
    with False show ?thesis by simp
  qed (simp add: new_call_def)
qed


lemma finv_load_end:
  assumes inv: "finv cause s" and pc: "pcs s i = Loading k c"
  shows "finv cause (s\<lparr>calls := (calls s)(c := record_outcome r b (calls s c)),
      pcs := (pcs s)(i := Publishing k c r)\<rparr>)" (is "finv cause ?s")
proof (rule finvI)
  have c: "c < nextCall s" "ckey (calls s c) = k" "coutcome (calls s c) = None" "cleader (calls s c) = i"
    using finvD(4) [OF inv, of i] pc by simp_all
  have lead: "leading (pcs ?s j) = leading (pcs s j)" "owning (pcs ?s j) = owning (pcs s j)" for j
    using pc by simp_all
  have e: "extends s ?s"
    using c unfolding extends_def lead by auto
  show "group ?s k' = Some c' \<longleftrightarrow> (\<exists>j. leading (pcs ?s j) = Some (k', c'))" for k' c'
    unfolding lead using finvD(1) [OF inv] by simp
  show "a = b'" if "owning (pcs ?s a) = Some (k1, c')" "owning (pcs ?s b') = Some (k2, c')" for a b' k1 k2 c'
    using that finvD(2) [OF inv] unfolding lead by blast
  show "call_ok (calls ?s c')" if "c' < nextCall ?s" for c'
    using that finvD(3) [OF inv, of c'] c by (auto simp: record_outcome_ok)
  show "pc_ok cause ?s j (pcs ?s j)" for j
  proof (cases "j = i")
    case False
    have "c' \<noteq> c" if "pcs s j = Loading k' c'" for k' c'
      using that False finvD(2) [OF inv, of i k c j k'] pc by auto
    then have "pc_ok cause ?s j (pcs s j)" by (intro pc_ok_frame [OF inv e]) auto
    with False show ?thesis by simp
  qed (use c in simp)
qed

lemma finv_publish:
  assumes inv: "finv cause s" and pc: "pcs s i = Publishing k c r"
  shows "finv cause (s\<lparr>group := (group s)(k := None), pcs := (pcs s)(i := Closing k c r)\<rparr>)"
    (is "finv cause ?s")
proof (rule finvI)
  have own: "owning (pcs ?s j) = owning (pcs s j)" for j using pc by simp
  have e: "extends s ?s" unfolding extends_def own by auto
  have k: "group s k = Some c" using finvD(1) [OF inv] pc by (metis leading.simps(2))
  show "group ?s k' = Some c' \<longleftrightarrow> (\<exists>j. leading (pcs ?s j) = Some (k', c'))" for k' c'
  proof (cases "k' = k")
    case True
    have "leading (pcs ?s j) \<noteq> Some (k, c')" for j
    proof
      assume j: "leading (pcs ?s j) = Some (k, c')"
      then have "j \<noteq> i" by auto
      with j have l: "leading (pcs s j) = Some (k, c')" by simp
      then have "c' = c" using finvD(1) [OF inv, of k c'] k by auto
      then have "j = i"
        using finvD(2) [OF inv, of j k c i k] owning_leading [OF l] pc by simp
      with \<open>j \<noteq> i\<close> show False ..
    qed
    with True show ?thesis by simp
  next
    case False
    then have "(\<exists>j. leading (pcs ?s j) = Some (k', c')) \<longleftrightarrow> (\<exists>j. leading (pcs s j) = Some (k', c'))"
      using pc by (auto split: if_splits) (metis leading.simps(2) option.inject prod.inject)
    then show ?thesis using False finvD(1) [OF inv, of k' c'] by simp
  qed
  show "a = b" if "owning (pcs ?s a) = Some (k1, c')" "owning (pcs ?s b) = Some (k2, c')" for a b k1 k2 c'
    using that finvD(2) [OF inv] unfolding own by blast
  show "call_ok (calls ?s c')" if "c' < nextCall ?s" for c'
    using that finvD(3) [OF inv, of c'] by simp
  show "pc_ok cause ?s j (pcs ?s j)" for j
    using pc_ok_frame [OF inv e, of j] finvD(4) [OF inv, of i] pc by (cases "j = i") auto
qed

lemma finv_close:
  assumes inv: "finv cause s" and pc: "pcs s i = Closing k c r"
  shows "finv cause (s\<lparr>calls := (calls s)(c := (calls s c)\<lparr>callDone := True\<rparr>),
      pcs := (pcs s)(i := leave k r)\<rparr>)" (is "finv cause ?s")
proof (rule finvI)
  have c: "c < nextCall s" "ckey (calls s c) = k" "coutcome (calls s c) = Some r" "cleader (calls s c) = i"
    using finvD(4) [OF inv, of i] pc by simp_all
  have lead: "leading (pcs ?s j) = leading (pcs s j)" for j using pc by simp
  have own: "owning (pcs ?s j) = (if j = i then None else owning (pcs s j))" for j using pc by simp
  have e: "extends s ?s"
    using c pc unfolding extends_def own by (auto split: if_splits) (metis old.prod.inject option.inject owning.simps(1))+
  show "group ?s k' = Some c' \<longleftrightarrow> (\<exists>j. leading (pcs ?s j) = Some (k', c'))" for k' c'
    unfolding lead using finvD(1) [OF inv] by simp
  show "a = b" if "owning (pcs ?s a) = Some (k1, c')" "owning (pcs ?s b) = Some (k2, c')" for a b k1 k2 c'
    using that finvD(2) [OF inv] unfolding own by (metis option.distinct(1))
  show "call_ok (calls ?s c')" if "c' < nextCall ?s" for c'
    using that finvD(3) [OF inv, of c'] c by (auto simp: call_ok_def split: outcome.splits)
  show "pc_ok cause ?s j (pcs ?s j)" for j
  proof (cases "j = i")
    case True
    then show ?thesis using c by (cases r) (auto simp: leave_def explains_def intro!: exI [of _ c])
  next
    case False
    have "pc_ok cause ?s j (pcs s j)" by (intro pc_ok_frame [OF inv e]) auto
    with False show ?thesis by simp
  qed
qed

lemma fstep_finv: "fstep cause s s' \<Longrightarrow> finv cause s \<Longrightarrow> finv cause s'"
proof (induction rule: fstep.induct)
  case (ctx_end s i)
  let ?s = "s\<lparr>ended := (ended s)(i := True)\<rparr>"
  have e: "extends s ?s" by (auto simp: extends_def)
  have "pc_ok cause ?s j (pcs s j)" for j
    by (intro pc_ok_frame [OF ctx_end e]) simp
  then show ?case using ctx_end by (intro finvI) (auto simp: finv_def)
next
  case (do_join s i k c)
  then obtain j where j: "leading (pcs s j) = Some (k, c)"
    using finvD(1) [OF do_join.prems] by blast
  then have "c < nextCall s \<and> ckey (calls s c) = k"
    using finvD(4) [OF do_join.prems, of j] by (cases "pcs s j") auto
  then have "pc_ok cause s i (Waiting k c)"
    using owning_leading [OF j] by auto
  then show ?case using do_join by (intro finv_upd) auto
next
  case (wait_done s i k c)
  have c: "c < nextCall s" "ckey (calls s c) = k"
    using finvD(4) [OF wait_done.prems, of i] wait_done.hyps by auto
  have "pc_ok cause s i (Returned k (val (calls s c)) (err (calls s c)))" if "\<not> abandoned (calls s c)"
    using c finvD(3) [OF wait_done.prems c(1)] wait_done.hyps that
    by (auto simp: call_ok_def explains_def intro!: exI [of _ c] split: option.splits outcome.splits)
  then show ?case using wait_done by (intro finv_upd) auto
qed (auto intro: finv_upd finv_lead finv_load_end finv_publish finv_close)

lemma freach_finv: "freach cause s \<Longrightarrow> finv cause s"
proof (induction rule: freach.induct)
  case (freach_init s)
  then show ?case by (auto simp: finv_def)
qed (rule fstep_finv)

lemma single_owner:
  assumes "finv cause s" and "leading (pcs s i) = Some (k, c)" and "leading (pcs s j) = Some (k, c')"
  shows "i = j \<and> c = c'"
proof -
  have "c = c'" using finvD(1) [OF assms(1), of k] assms(2,3) by (metis option.inject)
  then show ?thesis
    using finvD(2) [OF assms(1) owning_leading [OF assms(2)]] owning_leading [OF assms(3)] by auto
qed

section \<open>An example run\<close>

text \<open>Goroutine 0 leads the load of key 5, goroutine 1 waits for it; then the load ends.\<close>

definition flight0 :: "(nat, nat) fsys" where
  "flight0 = \<lparr>group = Map.empty, calls = (\<lambda>_. new_call 0 0), nextCall = 0, ended = (\<lambda>_. False),
     pcs = (\<lambda>_. Idle)\<rparr>"

definition flight_joined :: "(nat, nat) fsys" where
  "flight_joined = \<lparr>group = [5 \<mapsto> 0], calls = (\<lambda>_. new_call 0 0)(0 := new_call 5 0), nextCall = 1,
     ended = (\<lambda>_. False), pcs = (\<lambda>_. Idle)(0 := Loading 5 0, 1 := Waiting 5 0)\<rparr>"

definition flight_ended :: "nat outcome \<Rightarrow> (nat, nat) fsys" where
  "flight_ended r = flight_joined\<lparr>calls := (calls flight_joined)(0 := record_outcome r False (new_call 5 0)),
     pcs := (\<lambda>_. Idle)(0 := Publishing 5 0 r, 1 := Waiting 5 0)\<rparr>"

lemma reach_joined: "freach cause flight_joined"
proof -
  have r0: "freach cause flight0" by (rule freach_init) (simp_all add: flight0_def)
  have r1: "freach cause (flight0\<lparr>pcs := (\<lambda>_. Idle)(0 := Start 5)\<rparr>)"
    using freach_step [OF r0 fstep.do_call [of flight0 0 cause 5]] by (simp add: flight0_def)
  have r2: "freach cause (flight_joined\<lparr>pcs := (\<lambda>_. Idle)(0 := Loading 5 0)\<rparr>)"
    using freach_step [OF r1 fstep.do_lead [of _ 0 5 0]] by (simp add: flight0_def flight_joined_def)
  have r3: "freach cause (flight_joined\<lparr>pcs := (\<lambda>_. Idle)(0 := Loading 5 0, 1 := Start 5)\<rparr>)"
    using freach_step [OF r2 fstep.do_call [of _ 1 cause 5]] by (simp add: flight_joined_def)
  show ?thesis
    using freach_step [OF r3 fstep.do_join [of _ 1 5 0]] by (simp add: flight_joined_def)
qed

lemma reach_ended: "freach cause (flight_ended r)"
  using freach_step [OF reach_joined fstep.load_end [of flight_joined 0 5 0 cause r]]
  by (simp add: flight_joined_def flight_ended_def fun_upd_twist)

section \<open>Properties\<close>

text \<open>
  Single flight. In every reachable state, whatever calls arrived, contexts ended and
  loads failed, at most one goroutine is loading a given key.
\<close>

lemma single_flight:
  assumes "freach cause s" and "pcs s i = Loading k c" and "pcs s j = Loading k c'"
  shows "i = j \<and> c = c'"
  using single_owner [OF freach_finv [OF assms(1)], of i k c j c'] assms(2,3) by simp



text \<open>
  C6. No invented hits and no inherited cancellation. In every reachable state, a goroutine
  that returned from Do with no error returned the value of a load of its own key that ended
  with that value and no error; one that returned an error returned the cause of its own
  ended context, the error of such a load, or an error that stands for a load that panicked
  or called Goexit. The error of a load whose leader's context had ended reaches nobody but
  that leader.
\<close>

theorem flight_results:
  assumes "freach cause s" and "pcs s i = Returned k v e"
  shows "(e = Some (cause i) \<and> ended s i) \<or>
    (\<exists>c. ckey (calls s c) = k \<and>
       (coutcome (calls s c) = Some (Ret v e) \<and>
          (e = None \<or> \<not> cended (calls s c) \<or> cleader (calls s c) = i) \<or>
        e \<noteq> None \<and> (coutcome (calls s c) = Some Goexit \<or> (\<exists>msg. coutcome (calls s c) = Some (Panic msg)))))"
proof (cases "e = Some (cause i) \<and> ended s i")
  case False
  have inv: "finv cause s" by (rule freach_finv [OF assms(1)])
  obtain c where k: "c < nextCall s" "ckey (calls s c) = k" and o: "explains i v e (calls s c)"
    using finvD(4) [OF inv, of i] assms(2) False by auto
  then obtain r where r: "coutcome (calls s c) = Some r" by (auto simp: explains_def split: option.splits)
  then have "r = Ret v e \<and> (e = None \<or> \<not> cended (calls s c) \<or> cleader (calls s c) = i) \<or>
      e \<noteq> None \<and> (r = Goexit \<or> (\<exists>msg. r = Panic msg))"
    using o finvD(3) [OF inv k(1)] by (cases r) (auto simp: call_ok_def explains_def)
  with k(2) r show ?thesis by auto
qed simp

theorem flight_results_witness:
  "\<exists>s. freach (\<lambda>_. Canceled) s \<and> pcs s 0 = Returned (5::nat) (9::nat) None \<and>
     (\<exists>c. ckey (calls s c) = 5 \<and> coutcome (calls s c) = Some (Ret 9 None))"
proof -
  let ?s1 = "(flight_ended (Ret 9 None))\<lparr>group := (group (flight_ended (Ret 9 None)))(5 := None),
     pcs := (pcs (flight_ended (Ret 9 None)))(0 := Closing 5 0 (Ret 9 None))\<rparr>"
  let ?s2 = "?s1\<lparr>calls := (calls ?s1)(0 := (calls ?s1 0)\<lparr>callDone := True\<rparr>),
     pcs := (pcs ?s1)(0 := leave 5 (Ret 9 None))\<rparr>"
  have "freach (\<lambda>_. Canceled) ?s1"
    by (rule freach_step [OF reach_ended], rule publish) (simp add: flight_ended_def)
  then have r: "freach (\<lambda>_. Canceled) ?s2"
    by (rule freach_step) (rule close, simp)
  have p: "pcs ?s2 0 = Returned 5 9 None" by (simp add: leave_def)
  show ?thesis using flight_results [OF r p] r p by blast
qed

end
