(* ===== verification/CacheReadThroughConc.thy ===== *)
theory CacheReadThroughConc
  imports CacheFlight
begin

text \<open>
  ReadThrough (cache/readthrough.go) under concurrent use: the whole of GetContext, from the
  look into the front over the flight and the loader to the store into the front, with
  writers, deleters and expiry at any moment. The steps of the flight are those of
  CacheFlight, except that the end of a load is split into what loadAndStore does: the call
  of the loader, the store, and the return. Goroutine i runs one call of GetContext.
\<close>

section \<open>State\<close>

text \<open>Where a goroutine is in the function load of loadAndStore.\<close>

datatype 'v work =
    Before                    \<comment> \<open>before r.load returns\<close>
  | Storing 'v                \<comment> \<open>before r.front.SetContext\<close>
  | Ended "'v outcome"

datatype ('k, 'v) rpc =
    RIdle
  | RFront 'k                 \<comment> \<open>GetContext: before r.front.GetContext\<close>
  | RFlight 'k                \<comment> \<open>loadAndStore: in r.flight.Do\<close>
  | RAlone 'k                 \<comment> \<open>loadAndStore: in load, without a flight\<close>
  | RDone 'k "'v \<times> bool \<times> gerr option"
  | RCrashed 'k               \<comment> \<open>the loader panicked or called Goexit, without a flight\<close>

text \<open>
  rfront is what the front shows. written and loaded are not in the code: the values that were
  set, and those that the loader returned without an error.
\<close>

record ('k, 'v) rsys =
  fl :: "('k, 'v) fsys"
  rfront :: "'k \<rightharpoonup> 'v"
  rpcs :: "nat \<Rightarrow> ('k, 'v) rpc"
  work :: "nat \<Rightarrow> 'v work"
  written :: "('k \<times> 'v) set"
  loaded :: "('k \<times> 'v) set"

text \<open>Goroutine i is inside the function load, for key k.\<close>

definition loading :: "('k, 'v) rsys \<Rightarrow> nat \<Rightarrow> 'k \<Rightarrow> bool" where
  "loading s i k \<longleftrightarrow> (\<exists>c. pcs (fl s) i = Loading k c) \<or> rpcs s i = RAlone k"

text \<open>A step of the flight in which no goroutine enters Do or leaves its load.\<close>

definition inner :: "('k, 'v) fsys \<Rightarrow> ('k, 'v) fsys \<Rightarrow> bool" where
  "inner f f' \<longleftrightarrow> (\<forall>i. pcs f' i \<noteq> pcs f i \<longrightarrow> pcs f i \<noteq> Idle \<and> (\<forall>k c. pcs f i \<noteq> Loading k c))"

abbreviation rgo :: "('k, 'v) rsys \<Rightarrow> nat \<Rightarrow> ('k, 'v) rpc \<Rightarrow> ('k, 'v) rsys" where
  "rgo s i p \<equiv> s\<lparr>rpcs := (rpcs s)(i := p)\<rparr>"

abbreviation rwork :: "('k, 'v) rsys \<Rightarrow> nat \<Rightarrow> 'v work \<Rightarrow> ('k, 'v) rsys" where
  "rwork s i w \<equiv> s\<lparr>work := (work s)(i := w)\<rparr>"

section \<open>Steps\<close>

text \<open>
  single says whether WithSingleFlight was given, mis is isMiss of the layer, and cause is as
  in the flight. The front may fail, refuse a store or drop an entry at any moment.
\<close>

inductive rstep ::
    "bool \<Rightarrow> (gerr \<Rightarrow> bool) \<Rightarrow> (nat \<Rightarrow> gerr) \<Rightarrow> ('k, 'v::zero) rsys \<Rightarrow> ('k, 'v) rsys \<Rightarrow> bool"
  for single mis cause where
  r_call: "rpcs s i = RIdle \<Longrightarrow> rstep single mis cause s (rgo s i (RFront k))"
| r_hit: "rpcs s i = RFront k \<Longrightarrow> rfront s k = Some v \<Longrightarrow>
    rstep single mis cause s (rgo s i (RDone k (v, True, None)))"
| r_front_error: "rpcs s i = RFront k \<Longrightarrow> rstep single mis cause s (rgo s i (RDone k (v, ok, Some e)))"
| r_miss_flight: "rpcs s i = RFront k \<Longrightarrow> rfront s k = None \<Longrightarrow> single \<Longrightarrow> pcs (fl s) i = Idle \<Longrightarrow>
    rstep single mis cause s
      (rgo (rwork (s\<lparr>fl := (fl s)\<lparr>pcs := (pcs (fl s))(i := Start k)\<rparr>\<rparr>) i Before) i (RFlight k))"
| r_miss_alone: "rpcs s i = RFront k \<Longrightarrow> rfront s k = None \<Longrightarrow> \<not> single \<Longrightarrow>
    rstep single mis cause s (rgo (rwork s i Before) i (RAlone k))"
| r_flight: "fstep cause (fl s) f' \<Longrightarrow> inner (fl s) f' \<Longrightarrow> rstep single mis cause s (s\<lparr>fl := f'\<rparr>)"
| r_load_ok: "loading s i k \<Longrightarrow> work s i = Before \<Longrightarrow>
    rstep single mis cause s (rwork (s\<lparr>loaded := insert (k, v) (loaded s)\<rparr>) i (Storing v))"
| r_load_error: "loading s i k \<Longrightarrow> work s i = Before \<Longrightarrow>
    rstep single mis cause s (rwork s i (Ended (Ret v (Some e))))"
| r_load_panic: "loading s i k \<Longrightarrow> work s i = Before \<Longrightarrow> rstep single mis cause s (rwork s i (Ended (Panic msg)))"
| r_load_exit: "loading s i k \<Longrightarrow> work s i = Before \<Longrightarrow> rstep single mis cause s (rwork s i (Ended Goexit))"
| r_store: "loading s i k \<Longrightarrow> work s i = Storing v \<Longrightarrow>
    rstep single mis cause s (rwork (s\<lparr>rfront := (rfront s)(k \<mapsto> v)\<rparr>) i (Ended (Ret v None)))"
| r_store_error: "loading s i k \<Longrightarrow> work s i = Storing v \<Longrightarrow>
    rstep single mis cause s (rwork s i (Ended (Ret v None)))"
| r_load_end: "pcs (fl s) i = Loading k c \<Longrightarrow> work s i = Ended r \<Longrightarrow>
    rstep single mis cause s
      (rwork (s\<lparr>fl := (fl s)\<lparr>calls := (calls (fl s))(c := record_outcome r (ended (fl s) i) (calls (fl s) c)),
         pcs := (pcs (fl s))(i := Publishing k c r)\<rparr>\<rparr>) i Before)"
| r_finish_flight: "rpcs s i = RFlight k \<Longrightarrow> pcs (fl s) i = Returned k' v e \<Longrightarrow>
    rstep single mis cause s (rgo s i (RDone k (load_answer mis v e)))"
| r_finish_alone: "rpcs s i = RAlone k \<Longrightarrow> work s i = Ended (Ret v e) \<Longrightarrow>
    rstep single mis cause s (rgo s i (RDone k (load_answer mis v e)))"
| r_crash: "rpcs s i = RAlone k \<Longrightarrow> work s i = Ended r \<Longrightarrow> (\<And>v e. r \<noteq> Ret v e) \<Longrightarrow>
    rstep single mis cause s (rgo s i (RCrashed k))"
| r_set: "rstep single mis cause s (s\<lparr>rfront := (rfront s)(k \<mapsto> v), written := insert (k, v) (written s)\<rparr>)"
| r_drop: "rstep single mis cause s (s\<lparr>rfront := (rfront s)(k := None)\<rparr>)"

inductive rreach :: "bool \<Rightarrow> (gerr \<Rightarrow> bool) \<Rightarrow> (nat \<Rightarrow> gerr) \<Rightarrow> ('k, 'v::zero) rsys \<Rightarrow> bool"
  for single mis cause where
  rreach_init: "group (fl s) = Map.empty \<Longrightarrow> (\<And>i. pcs (fl s) i = Idle) \<Longrightarrow> nextCall (fl s) = 0 \<Longrightarrow>
    rfront s = Map.empty \<Longrightarrow> (\<And>i. rpcs s i = RIdle) \<Longrightarrow> (\<And>i. work s i = Before) \<Longrightarrow>
    written s = {} \<Longrightarrow> loaded s = {} \<Longrightarrow> rreach single mis cause s"
| rreach_step: "rreach single mis cause s \<Longrightarrow> rstep single mis cause s s' \<Longrightarrow> rreach single mis cause s'"

section \<open>Invariant\<close>

fun pc_key :: "('k, 'v) pc \<Rightarrow> 'k option" where
  "pc_key Idle = None"
| "pc_key (Start k) = Some k"
| "pc_key (Waiting k c) = Some k"
| "pc_key (Loading k c) = Some k"
| "pc_key (Publishing k c r) = Some k"
| "pc_key (Closing k c r) = Some k"
| "pc_key (Returned k v e) = Some k"
| "pc_key (Panicked k msg) = Some k"
| "pc_key (Exited k) = Some k"

fun is_loading :: "('k, 'v) pc \<Rightarrow> bool" where
  "is_loading (Loading k c) = True"
| "is_loading _ = False"

text \<open>The goroutine is not in the flight, or has returned from it.\<close>

fun over :: "('k, 'v) pc \<Rightarrow> bool" where
  "over Idle = True"
| "over (Returned k v e) = True"
| "over _ = False"

fun work_ok :: "('k \<times> 'v) set \<Rightarrow> 'k \<Rightarrow> 'v work \<Rightarrow> bool" where
  "work_ok L k (Storing v) \<longleftrightarrow> (k, v) \<in> L"
| "work_ok L k (Ended (Ret v None)) \<longleftrightarrow> (k, v) \<in> L"
| "work_ok L k _ \<longleftrightarrow> True"

fun gor_ok :: "bool \<Rightarrow> ('k \<times> 'v) set \<Rightarrow> ('k \<times> 'v) set \<Rightarrow> ('k, 'v) pc \<Rightarrow> 'v work \<Rightarrow> ('k, 'v) rpc \<Rightarrow> bool" where
  "gor_ok single L W p w (RFlight k) \<longleftrightarrow> pc_key p = Some k \<and> (if is_loading p then work_ok L k w else w = Before)"
| "gor_ok single L W p w (RAlone k) \<longleftrightarrow> \<not> single \<and> p = Idle \<and> work_ok L k w"
| "gor_ok single L W p w (RDone k a) \<longleftrightarrow> over p \<and> (\<forall>v. a = (v, True, None) \<longrightarrow> (k, v) \<in> L \<union> W)"
| "gor_ok single L W p w _ \<longleftrightarrow> p = Idle"

definition call_sound :: "('k \<times> 'v) set \<Rightarrow> ('k, 'v) call \<Rightarrow> bool" where
  "call_sound L c \<longleftrightarrow> (\<forall>v. coutcome c = Some (Ret v None) \<longrightarrow> (ckey c, v) \<in> L)"

definition rinv :: "bool \<Rightarrow> (nat \<Rightarrow> gerr) \<Rightarrow> ('k, 'v::zero) rsys \<Rightarrow> bool" where
  "rinv single cause s \<longleftrightarrow> freach cause (fl s) \<and>
     (\<forall>k v. rfront s k = Some v \<longrightarrow> (k, v) \<in> loaded s \<union> written s) \<and>
     (\<forall>c < nextCall (fl s). call_sound (loaded s) (calls (fl s) c)) \<and>
     (\<forall>i. gor_ok single (loaded s) (written s) (pcs (fl s) i) (work s i) (rpcs s i))"

lemma rinvI:
  assumes "freach cause (fl s)" and "\<And>k v. rfront s k = Some v \<Longrightarrow> (k, v) \<in> loaded s \<union> written s"
    and "\<And>c. c < nextCall (fl s) \<Longrightarrow> call_sound (loaded s) (calls (fl s) c)"
    and "\<And>i. gor_ok single (loaded s) (written s) (pcs (fl s) i) (work s i) (rpcs s i)"
  shows "rinv single cause s"
  using assms unfolding rinv_def by blast

lemma rinvD:
  assumes "rinv single cause s"
  shows "freach cause (fl s)" and "rfront s k = Some v \<Longrightarrow> (k, v) \<in> loaded s \<union> written s"
    and "c < nextCall (fl s) \<Longrightarrow> call_sound (loaded s) (calls (fl s) c)"
    and "gor_ok single (loaded s) (written s) (pcs (fl s) i) (work s i) (rpcs s i)"
  using assms unfolding rinv_def by blast+

lemma work_ok_mono: "work_ok L k w \<Longrightarrow> L \<subseteq> L' \<Longrightarrow> work_ok L' k w"
  by (induction L k w rule: work_ok.induct) auto

lemma gor_ok_mono: "gor_ok single L W p w r \<Longrightarrow> L \<subseteq> L' \<Longrightarrow> W \<subseteq> W' \<Longrightarrow> gor_ok single L' W' p w r"
  by (induction single L W p w r rule: gor_ok.induct) (auto intro: work_ok_mono)

lemma call_sound_mono: "call_sound L c \<Longrightarrow> L \<subseteq> L' \<Longrightarrow> call_sound L' c"
  unfolding call_sound_def by blast

text \<open>Steps of one goroutine in the layer, that may also change the front and the logs.\<close>

lemma rinv_local:
  assumes "rinv single cause s" and "fl s' = fl s" and "loaded s \<subseteq> loaded s'" and "written s \<subseteq> written s'"
    and "\<And>k v. rfront s' k = Some v \<Longrightarrow> rfront s k = Some v \<or> (k, v) \<in> loaded s' \<union> written s'"
    and "\<And>j. j \<noteq> i \<Longrightarrow> work s' j = work s j \<and> rpcs s' j = rpcs s j"
    and "gor_ok single (loaded s') (written s') (pcs (fl s) i) (work s' i) (rpcs s' i)"
  shows "rinv single cause s'"
proof (rule rinvI)
  show "freach cause (fl s')" using rinvD(1) [OF assms(1)] assms(2) by simp
  show "(k, v) \<in> loaded s' \<union> written s'" if "rfront s' k = Some v" for k v
    using assms(5) [OF that] rinvD(2) [OF assms(1), of k v] assms(3,4) by blast
  show "call_sound (loaded s') (calls (fl s') c)" if "c < nextCall (fl s')" for c
    using that rinvD(3) [OF assms(1)] assms(2,3) call_sound_mono by fastforce
  show "gor_ok single (loaded s') (written s') (pcs (fl s') j) (work s' j) (rpcs s' j)" for j
    using rinvD(4) [OF assms(1), of j] gor_ok_mono [OF _ assms(3,4)] assms(2,6,7) by (cases "j = i") simp_all
qed

text \<open>The steps of the flight itself.\<close>

lemma fstep_frame:
  assumes "fstep cause f f'" and "inner f f'"
  shows "nextCall f \<le> nextCall f'"
    and "c < nextCall f' \<Longrightarrow> call_sound L (calls f c) \<or> nextCall f \<le> c \<Longrightarrow> call_sound L (calls f' c)"
    and "pc_key (pcs f' i) = pc_key (pcs f i)"
    and "is_loading (pcs f i) \<or> over (pcs f i) \<Longrightarrow> pcs f' i = pcs f i"
  using assms
  by (induction rule: fstep.induct)
    (auto simp: inner_def call_sound_def new_call_def leave_def fun_eq_iff split: if_splits outcome.splits)

lemma fstep_loads:
  assumes "fstep cause f f'" and "inner f f'" and "is_loading (pcs f' i)"
  shows "pcs f' i = pcs f i \<or> (\<exists>k. pcs f i = Start k)"
  using assms by (induction rule: fstep.induct) (auto simp: leave_def split: if_splits outcome.splits)

lemma rinv_flight:
  assumes inv: "rinv single cause s" and st: "fstep cause (fl s) f'" and "inner (fl s) f'"
  shows "rinv single cause (s\<lparr>fl := f'\<rparr>)"
proof (rule rinvI)
  note frame = fstep_frame [OF st assms(3)]
  show "freach cause (fl (s\<lparr>fl := f'\<rparr>))" using freach_step [OF rinvD(1) [OF inv] st] by simp
  show "(k, v) \<in> loaded (s\<lparr>fl := f'\<rparr>) \<union> written (s\<lparr>fl := f'\<rparr>)" if "rfront (s\<lparr>fl := f'\<rparr>) k = Some v" for k v
    using that rinvD(2) [OF inv] by simp
  show "call_sound (loaded (s\<lparr>fl := f'\<rparr>)) (calls (fl (s\<lparr>fl := f'\<rparr>)) c)" if "c < nextCall (fl (s\<lparr>fl := f'\<rparr>))" for c
    using that frame(2) [of c] rinvD(3) [OF inv, of c] by (cases "c < nextCall (fl s)") auto
  show "gor_ok single (loaded (s\<lparr>fl := f'\<rparr>)) (written (s\<lparr>fl := f'\<rparr>)) (pcs (fl (s\<lparr>fl := f'\<rparr>)) i)
      (work (s\<lparr>fl := f'\<rparr>) i) (rpcs (s\<lparr>fl := f'\<rparr>) i)" for i
  proof (cases "pcs f' i = pcs (fl s) i")
    case True
    then show ?thesis using rinvD(4) [OF inv, of i] by simp
  next
    case False
    then have p: "\<not> over (pcs (fl s) i)" "\<not> is_loading (pcs (fl s) i)" using frame(4) by auto
    show ?thesis
      using rinvD(4) [OF inv, of i] p frame(3) [of i] fstep_loads [OF st assms(3), of i]
      by (cases "rpcs s i") auto
  qed
qed

lemma loading_gor:
  assumes "rinv single cause s" and "loading s i k"
  shows "work_ok (loaded s) k (work s i)"
    and "work_ok L k w \<Longrightarrow> loaded s \<subseteq> L \<Longrightarrow> gor_ok single L (written s) (pcs (fl s) i) w (rpcs s i)"
proof -
  note g = rinvD(4) [OF assms(1), of i]
  have "rpcs s i = RFlight k \<and> is_loading (pcs (fl s) i) \<and> pc_key (pcs (fl s) i) = Some k \<or> rpcs s i = RAlone k"
    using assms(2) g unfolding loading_def by (cases "rpcs s i") auto
  then show "work_ok (loaded s) k (work s i)"
    and "work_ok L k w \<Longrightarrow> loaded s \<subseteq> L \<Longrightarrow> gor_ok single L (written s) (pcs (fl s) i) w (rpcs s i)"
    using g by auto
qed

lemma rinv_load_end:
  assumes inv: "rinv single cause s" and pc: "pcs (fl s) i = Loading k c" and w: "work s i = Ended r"
  shows "rinv single cause
      (rwork (s\<lparr>fl := (fl s)\<lparr>calls := (calls (fl s))(c := record_outcome r (ended (fl s) i) (calls (fl s) c)),
         pcs := (pcs (fl s))(i := Publishing k c r)\<rparr>\<rparr>) i Before)" (is "rinv single cause ?s")
proof (rule rinvI)
  have reach: "freach cause (fl s)" by (rule rinvD(1) [OF inv])
  have c: "ckey (calls (fl s) c) = k" using finvD(4) [OF freach_finv [OF reach], of i] pc by simp
  show "freach cause (fl ?s)" using freach_step [OF reach load_end [OF pc]] by simp
  show "(k, v) \<in> loaded ?s \<union> written ?s" if "rfront ?s k = Some v" for k v
    using that rinvD(2) [OF inv] by simp
  have "work_ok (loaded s) k (Ended r)" using loading_gor(1) [OF inv, of i k] pc w by (auto simp: loading_def)
  then have "call_sound (loaded s) (record_outcome r (ended (fl s) i) (calls (fl s) c))"
    using c by (cases r) (auto simp: call_sound_def)
  then show "call_sound (loaded ?s) (calls (fl ?s) c')" if "c' < nextCall (fl ?s)" for c'
    using that rinvD(3) [OF inv, of c'] by simp
  show "gor_ok single (loaded ?s) (written ?s) (pcs (fl ?s) j) (work ?s j) (rpcs ?s j)" for j
    using rinvD(4) [OF inv, of j] pc by (cases "j = i"; cases "rpcs s j") auto
qed

lemma rinv_enter:
  assumes inv: "rinv single cause s" and pc: "rpcs s i = RFront k"
  shows "rinv single cause
      (rgo (rwork (s\<lparr>fl := (fl s)\<lparr>pcs := (pcs (fl s))(i := Start k)\<rparr>\<rparr>) i Before) i (RFlight k))"
    (is "rinv single cause ?s")
proof (rule rinvI)
  have "pcs (fl s) i = Idle" using rinvD(4) [OF inv, of i] pc by simp
  then show "freach cause (fl ?s)" using freach_step [OF rinvD(1) [OF inv] do_call] by simp
  show "(k, v) \<in> loaded ?s \<union> written ?s" if "rfront ?s k = Some v" for k v
    using that rinvD(2) [OF inv] by simp
  show "call_sound (loaded ?s) (calls (fl ?s) c)" if "c < nextCall (fl ?s)" for c
    using that rinvD(3) [OF inv] by simp
  show "gor_ok single (loaded ?s) (written ?s) (pcs (fl ?s) j) (work ?s j) (rpcs ?s j)" for j
    using rinvD(4) [OF inv, of j] by simp
qed

lemma flight_value:
  assumes "rinv single cause s" and "pcs (fl s) i = Returned k v None"
  shows "(k, v) \<in> loaded s"
proof -
  obtain c where c: "c < nextCall (fl s)" "ckey (calls (fl s) c) = k" and "explains i v None (calls (fl s) c)"
    using finvD(4) [OF freach_finv [OF rinvD(1) [OF assms(1)]], of i] assms(2) by auto
  then have "coutcome (calls (fl s) c) = Some (Ret v None)"
    by (auto simp: explains_def split: option.splits outcome.splits)
  then show ?thesis using rinvD(3) [OF assms(1) c(1)] c(2) by (simp add: call_sound_def)
qed

lemma load_answer_value: "load_answer mis v e = (v', True, None) \<longleftrightarrow> e = None \<and> v' = v"
  by (cases e) auto

lemma rstep_rinv: "rstep single mis cause s s' \<Longrightarrow> rinv single cause s \<Longrightarrow> rinv single cause s'"
proof (induction rule: rstep.induct)
  case (r_call s i k)
  then show ?case using rinvD(4) [OF r_call.prems, of i] by (intro rinv_local [OF r_call.prems, of _ i]) auto
next
  case (r_hit s i k v)
  then show ?case
    using rinvD(2) [OF r_hit.prems, of k v] rinvD(4) [OF r_hit.prems, of i]
    by (intro rinv_local [OF r_hit.prems, of _ i]) auto
next
  case (r_front_error s i k v ok e)
  then show ?case
    using rinvD(4) [OF r_front_error.prems, of i] by (intro rinv_local [OF r_front_error.prems, of _ i]) auto
next
  case (r_miss_flight s i k)
  then show ?case by (intro rinv_enter)
next
  case (r_miss_alone s i k)
  then show ?case
    using rinvD(4) [OF r_miss_alone.prems, of i] by (intro rinv_local [OF r_miss_alone.prems, of _ i]) auto
next
  case (r_flight s f')
  then show ?case by (intro rinv_flight)
next
  case (r_load_ok s i k v)
  then show ?case
    using loading_gor(2) [OF r_load_ok.prems r_load_ok.hyps(1), of "insert (k, v) (loaded s)" "Storing v"]
    by (intro rinv_local [OF r_load_ok.prems, of _ i]) auto
next
  case (r_store s i k v)
  then have "(k, v) \<in> loaded s" using loading_gor(1) [OF r_store.prems r_store.hyps(1)] by simp
  then show ?case
    using loading_gor(2) [OF r_store.prems r_store.hyps(1), of "loaded s" "Ended (Ret v None)"]
    by (intro rinv_local [OF r_store.prems, of _ i]) (auto split: if_splits)
next
  case (r_store_error s i k v)
  then have "(k, v) \<in> loaded s" using loading_gor(1) [OF r_store_error.prems r_store_error.hyps(1)] by simp
  then show ?case
    using loading_gor(2) [OF r_store_error.prems r_store_error.hyps(1), of "loaded s" "Ended (Ret v None)"]
    by (intro rinv_local [OF r_store_error.prems, of _ i]) auto
next
  case (r_load_error s i k v e)
  then show ?case
    using loading_gor(2) [OF r_load_error.prems r_load_error.hyps(1), of "loaded s" "Ended (Ret v (Some e))"]
    by (intro rinv_local [OF r_load_error.prems, of _ i]) auto
next
  case (r_load_panic s i k msg)
  then show ?case
    using loading_gor(2) [OF r_load_panic.prems r_load_panic.hyps(1), of "loaded s" "Ended (Panic msg)"]
    by (intro rinv_local [OF r_load_panic.prems, of _ i]) auto
next
  case (r_load_exit s i k)
  then show ?case
    using loading_gor(2) [OF r_load_exit.prems r_load_exit.hyps(1), of "loaded s" "Ended Goexit"]
    by (intro rinv_local [OF r_load_exit.prems, of _ i]) auto
next
  case (r_load_end s i k c r)
  then show ?case by (intro rinv_load_end)
next
  case (r_finish_flight s i k k' v e)
  then show ?case
    using rinvD(4) [OF r_finish_flight.prems, of i] flight_value [OF r_finish_flight.prems, of i k v]
    by (intro rinv_local [OF r_finish_flight.prems, of _ i]) (auto simp: load_answer_value)
next
  case (r_finish_alone s i k v e)
  then show ?case
    using rinvD(4) [OF r_finish_alone.prems, of i]
    by (intro rinv_local [OF r_finish_alone.prems, of _ i]) (auto simp: load_answer_value)
next
  case (r_crash s i k r)
  then show ?case
    using rinvD(4) [OF r_crash.prems, of i] by (intro rinv_local [OF r_crash.prems, of _ i]) auto
next
  case (r_set s k v)
  then show ?case
    using gor_ok_mono [OF rinvD(4) [OF r_set, of 0], where L' = "loaded s" and W' = "insert (k, v) (written s)"]
    by (intro rinv_local [OF r_set, of _ 0]) (auto split: if_splits)
next
  case (r_drop s k)
  then show ?case using rinvD(4) [OF r_drop] by (intro rinv_local [OF r_drop, of _ 0]) (auto split: if_splits)
qed

lemma rreach_rinv: "rreach single mis cause s \<Longrightarrow> rinv single cause s"
proof (induction rule: rreach.induct)
  case (rreach_init s)
  then show ?case by (intro rinvI freach_init) simp_all
qed (rule rstep_rinv)

section \<open>An example run\<close>

text \<open>
  Goroutine 0 misses key 5 and loads the value 1 under a flight; before it stores the value,
  2 is set. The store then overwrites 2, as the type's documentation warns.
\<close>

definition reading0 :: "(nat, nat) rsys" where
  "reading0 = \<lparr>fl = flight0, rfront = Map.empty, rpcs = (\<lambda>_. RIdle), work = (\<lambda>_. Before),
     written = {}, loaded = {}\<rparr>"

definition reading_lead :: "(nat, nat) rsys" where
  "reading_lead = \<lparr>fl = flight0\<lparr>group := [5 \<mapsto> 0], calls := (calls flight0)(0 := new_call 5 0), nextCall := 1,
       pcs := (\<lambda>_. Idle)(0 := Loading 5 0)\<rparr>,
     rfront = Map.empty, rpcs = (\<lambda>_. RIdle)(0 := RFlight 5), work = (\<lambda>_. Before), written = {}, loaded = {}\<rparr>"

definition reading_stale :: "(nat, nat) rsys" where
  "reading_stale = reading_lead\<lparr>rfront := [5 \<mapsto> 1], work := (\<lambda>_. Before)(0 := Ended (Ret 1 None)),
     written := {(5, 2)}, loaded := {(5, 1)}\<rparr>"

lemma reach_reading_lead: "rreach True mis cause reading_lead"
proof -
  have r0: "rreach True mis cause reading0" by (rule rreach_init) (simp_all add: reading0_def flight0_def)
  have r1: "rreach True mis cause (reading0\<lparr>rpcs := (\<lambda>_. RIdle)(0 := RFront 5)\<rparr>)"
    using rreach_step [OF r0 r_call [of reading0 0 True mis cause 5]] by (simp add: reading0_def)
  let ?s2 = "reading0\<lparr>fl := flight0\<lparr>pcs := (\<lambda>_. Idle)(0 := Start 5)\<rparr>, rpcs := (\<lambda>_. RIdle)(0 := RFlight 5)\<rparr>"
  have r2: "rreach True mis cause ?s2"
    using rreach_step [OF r1 r_miss_flight [of _ 0 5]] by (simp add: reading0_def flight0_def fun_upd_idem)
  have "fstep cause (fl ?s2) (fl reading_lead)" "inner (fl ?s2) (fl reading_lead)"
    using fstep.do_lead [of "fl ?s2" 0 5 0 cause] by (simp_all add: flight0_def reading_lead_def inner_def)
  from rreach_step [OF r2 r_flight [OF this]] show ?thesis by (simp add: reading0_def reading_lead_def)
qed

lemma stale_load_overwrites: "rreach True mis cause reading_stale"
proof -
  have l: "loading reading_lead 0 5" by (simp add: loading_def reading_lead_def)
  have r1: "rreach True mis cause (reading_lead\<lparr>loaded := {(5, 1)}, work := (\<lambda>_. Before)(0 := Storing 1)\<rparr>)"
    using rreach_step [OF reach_reading_lead r_load_ok [OF l, of True mis cause 1]] by (simp add: reading_lead_def)
  have r2: "rreach True mis cause (reading_lead\<lparr>loaded := {(5, 1)}, work := (\<lambda>_. Before)(0 := Storing 1),
      rfront := [5 \<mapsto> 2], written := {(5, 2)}\<rparr>)"
    using rreach_step [OF r1 r_set [of True mis cause _ 5 2]] by (simp add: reading_lead_def)
  show ?thesis
    using rreach_step [OF r2 r_store [of _ 0 5 1]] by (simp add: reading_lead_def reading_stale_def loading_def)
qed

section \<open>Properties\<close>

text \<open>
  C7. Reads are sound under concurrency. In every reachable state of concurrent reads, loads,
  writes, deletes, expiries, failures and crashes, with or without single-flight, the front
  shows for a key only what was set for it or what the loader returned for it without an
  error; the same holds of every value that a read returns as found; and with single-flight
  no two goroutines are at the same time between the call of the loader and the store of its
  result for one key.
\<close>

theorem concurrent_reads_sound:
  assumes "rreach single mis cause s"
  shows "(\<forall>k v. rfront s k = Some v \<longrightarrow> (k, v) \<in> loaded s \<union> written s) \<and>
    (\<forall>i k v. rpcs s i = RDone k (v, True, None) \<longrightarrow> (k, v) \<in> loaded s \<union> written s) \<and>
    (single \<longrightarrow> (\<forall>i j k. loading s i k \<longrightarrow> loading s j k \<longrightarrow> i = j))"
proof -
  have inv: "rinv single cause s" by (rule rreach_rinv [OF assms])
  have "(k, v) \<in> loaded s \<union> written s" if "rpcs s i = RDone k (v, True, None)" for i k v
    using rinvD(4) [OF inv, of i] that by auto
  moreover have "i = j" if "single" "loading s i k" "loading s j k" for i j k
  proof -
    have "\<exists>c. pcs (fl s) i = Loading k c" if "loading s i k" for i
      using rinvD(4) [OF inv, of i] that \<open>single\<close> unfolding loading_def by auto
    with that(2,3) obtain c c' where "pcs (fl s) i = Loading k c" "pcs (fl s) j = Loading k c'" by blast
    then show ?thesis
      using single_owner [OF freach_finv [OF rinvD(1) [OF inv]], of i k c j c'] by simp
  qed
  ultimately show ?thesis using rinvD(2) [OF inv] by blast
qed

theorem concurrent_reads_sound_witness:
  "rfront reading_stale 5 = Some 1 \<and> (5, 1) \<in> loaded reading_stale \<union> written reading_stale \<and>
     {j. loading reading_stale j 5} = {0}"
proof -
  have "rfront reading_stale 5 = Some 1" "loading reading_stale 0 5"
    by (simp_all add: reading_stale_def reading_lead_def loading_def)
  then show ?thesis using concurrent_reads_sound [OF stale_load_overwrites] by blast
qed

end
