(* ===== verification/CacheWriteThrough.thy ===== *)
theory CacheWriteThrough
  imports CacheMemory
begin

text \<open>
  WriteThrough (cache/writethrough.go): a front cache behind a writer and a deleter of a
  backing store. This theory has the layer as one goroutine sees it: what lock and unlock do
  while other goroutines run is in CacheKeyLock, and enters here as the functions klock and
  kunlock on the world.
\<close>

section \<open>Writers, deleters and configuration\<close>

type_synonym ('w, 'k, 'v) writer = "'w ctx \<Rightarrow> 'k \<Rightarrow> 'v \<Rightarrow> 'w \<Rightarrow> gerr option \<times> 'w"
type_synonym ('w, 'k) deleter = "'w ctx \<Rightarrow> 'k \<Rightarrow> 'w \<Rightarrow> gerr option \<times> 'w"

record ('w, 'k) writeThroughConfig =
  cfgDeleter :: "('w, 'k) deleter option"

definition WithDeleter ::
    "('w, 'k) deleter option \<Rightarrow> (('w, 'k) writeThroughConfig \<Rightarrow> ('w, 'k) writeThroughConfig) go" where
  "WithDeleter del =
     (if del = None then Inl ''cache.WithDeleter: deleter must not be nil''
      else Inr (\<lambda>c. c\<lparr>cfgDeleter := del\<rparr>))"

record ('w, 'k, 'v) writeThrough =
  wfront :: "('w, 'k, 'v) cache"
  writer :: "('w, 'k, 'v) writer"
  deleter :: "('w, 'k) deleter option"
  klock :: "'w ctx \<Rightarrow> 'k \<Rightarrow> 'w \<Rightarrow> gerr option \<times> 'w"
  kunlock :: "'k \<Rightarrow> 'w \<Rightarrow> 'w"

text \<open>A nil front or writer is None; lk and ulk are lock and unlock over a fresh, empty map.\<close>

definition NewWriteThrough ::
    "('w, 'k, 'v) cache option \<Rightarrow> ('w, 'k, 'v) writer option \<Rightarrow>
      (('w, 'k) writeThroughConfig \<Rightarrow> ('w, 'k) writeThroughConfig) list \<Rightarrow>
      ('w ctx \<Rightarrow> 'k \<Rightarrow> 'w \<Rightarrow> gerr option \<times> 'w) \<Rightarrow> ('k \<Rightarrow> 'w \<Rightarrow> 'w) \<Rightarrow>
      ('w, 'k, 'v) writeThrough go" where
  "NewWriteThrough frontOpt writeOpt opts lk ulk =
     (case frontOpt of
        None \<Rightarrow> Inl ''cache.NewWriteThrough: front must not be nil''
      | Some f \<Rightarrow>
          (case writeOpt of
             None \<Rightarrow> Inl ''cache.NewWriteThrough: writer must not be nil''
           | Some wr \<Rightarrow> Inr \<lparr>wfront = f, writer = wr,
               deleter = cfgDeleter (apply_opts opts \<lparr>cfgDeleter = None\<rparr>),
               klock = lk, kunlock = ulk\<rparr>))"

section \<open>Operations\<close>

definition wt_set_context ::
    "('w, 'k, 'v) writeThrough \<Rightarrow> 'w ctx \<Rightarrow> 'k \<Rightarrow> 'v \<Rightarrow> expiry \<Rightarrow> 'w \<Rightarrow> (time \<times> gerr option) \<times> 'w" where
  "wt_set_context t x key v ex w =
     (case klock t x key w of
        (Some e, w1) \<Rightarrow> ((0, Some e), w1)
      | (None, w1) \<Rightarrow>
          (case writer t x key v w1 of
             (Some e, w2) \<Rightarrow> ((0, Some e), kunlock t key w2)
           | (None, w2) \<Rightarrow>
               (case SetContext (wfront t) x key v ex w2 of (r, w3) \<Rightarrow> (r, kunlock t key w3))))"

definition wt_delete_context ::
    "('w, 'k, 'v) writeThrough \<Rightarrow> 'w ctx \<Rightarrow> 'k \<Rightarrow> 'w \<Rightarrow> gerr option \<times> 'w" where
  "wt_delete_context t x key w =
     (case klock t x key w of
        (Some e, w1) \<Rightarrow> (Some e, w1)
      | (None, w1) \<Rightarrow>
          (case (case deleter t of Some del \<Rightarrow> del x key w1 | None \<Rightarrow> (None, w1)) of
             (Some e, w2) \<Rightarrow> (Some e, kunlock t key w2)
           | (None, w2) \<Rightarrow>
               (case DeleteContext (wfront t) x key w2 of (r, w3) \<Rightarrow> (r, kunlock t key w3))))"

definition wt_set :: "('w, 'k, 'v) writeThrough \<Rightarrow> 'k \<Rightarrow> 'v \<Rightarrow> expiry \<Rightarrow> 'w \<Rightarrow> time \<times> 'w" where
  "wt_set t key v ex w = (case wt_set_context t background key v ex w of ((tm, e), w') \<Rightarrow> (tm, w'))"

definition wt_delete :: "('w, 'k, 'v) writeThrough \<Rightarrow> 'k \<Rightarrow> 'w \<Rightarrow> 'w" where
  "wt_delete t key w = snd (wt_delete_context t background key w)"

definition wt_close :: "('w, 'k, 'v) writeThrough \<Rightarrow> 'w \<Rightarrow> gerr option \<times> 'w" where
  "wt_close t w = (case Closer (wfront t) of Some c \<Rightarrow> c w | None \<Rightarrow> (None, w))"

definition writeThrough_cache :: "('w, 'k, 'v) writeThrough \<Rightarrow> ('w, 'k, 'v) cache" where
  "writeThrough_cache t =
     \<lparr>Get = Get (wfront t), Set = wt_set t, Delete = wt_delete t, Items = Items (wfront t),
      GetContext = GetContext (wfront t), SetContext = wt_set_context t,
      DeleteContext = wt_delete_context t, ItemsContext = ItemsContext (wfront t),
      Closer = Some (wt_close t)\<rparr>"

lemma writeThrough_cache_simps [simp]:
  "Get (writeThrough_cache t) = Get (wfront t)" "Set (writeThrough_cache t) = wt_set t"
  "Delete (writeThrough_cache t) = wt_delete t" "Items (writeThrough_cache t) = Items (wfront t)"
  "GetContext (writeThrough_cache t) = GetContext (wfront t)"
  "SetContext (writeThrough_cache t) = wt_set_context t"
  "DeleteContext (writeThrough_cache t) = wt_delete_context t"
  "ItemsContext (writeThrough_cache t) = ItemsContext (wfront t)"
  "Closer (writeThrough_cache t) = Some (wt_close t)"
  by (simp_all add: writeThrough_cache_def)

lemma writeThrough_api:
  assumes "cache_api (wfront t)"
  shows "cache_api (writeThrough_cache t)"
  using assms by (auto simp: cache_api_def wt_set_def wt_delete_def split: prod.splits)

section \<open>Writing through a store\<close>

text \<open>
  What WriteThrough relies on: its front is a store; there is a backing store, whose contents
  backing reads off the world; a writer or deleter that reports no error has done its work,
  one that reports an error has left the backing store as it was, and neither they nor the
  locks touch the front, and the front does not touch the backing store.
\<close>

locale write_through = front: cache_store "wfront t" inv view now
  for t :: "('w, 'k, 'v::zero) writeThrough"
    and inv :: "'w \<Rightarrow> bool" and view :: "'w \<Rightarrow> 'k \<rightharpoonup> 'v" and now :: "'w \<Rightarrow> time" +
  fixes backing :: "'w \<Rightarrow> 'k \<rightharpoonup> 'v"
  assumes writer_law: "inv w \<Longrightarrow> writer t x k v w = (e, w') \<Longrightarrow>
      inv w' \<and> view w' = view w \<and> now w' = now w \<and>
      backing w' = (if e = None then (backing w)(k \<mapsto> v) else backing w)"
    and deleter_law: "inv w \<Longrightarrow> deleter t = Some d \<Longrightarrow> d x k w = (e, w') \<Longrightarrow>
      inv w' \<and> view w' = view w \<and> now w' = now w \<and>
      backing w' = (if e = None then (backing w)(k := None) else backing w)"
    and klock_law: "inv w \<Longrightarrow> klock t x k w = (e, w') \<Longrightarrow>
      inv w' \<and> view w' = view w \<and> now w' = now w \<and> backing w' = backing w"
    and kunlock_law: "inv w \<Longrightarrow>
      inv (kunlock t k w) \<and> view (kunlock t k w) = view w \<and>
      now (kunlock t k w) = now w \<and> backing (kunlock t k w) = backing w"
    and front_backing:
      "inv w \<Longrightarrow> backing (snd (SetContext (wfront t) x k v ex w)) = backing w"
      "inv w \<Longrightarrow> backing (snd (DeleteContext (wfront t) x k w)) = backing w"
begin

text \<open>The four ends of a write: no turn, a failed writer, a failed front, a write to both.\<close>

lemma set_cases:
  assumes "inv w" and "wt_set_context t x k v ex w = ((tm, e), w')"
  shows "inv w' \<and> now w' = now w \<and>
    (e \<noteq> None \<and> tm = 0 \<and> e = fst (klock t x k w) \<and> view w' = view w \<and> backing w' = backing w \<or>
     e \<noteq> None \<and> tm = 0 \<and> fst (klock t x k w) = None \<and> view w' = view w \<and> backing w' = backing w \<or>
     fst (klock t x k w) = None \<and> (\<exists>w2. e = snd (fst (SetContext (wfront t) x k v ex w2))) \<and>
     backing w' = (backing w)(k \<mapsto> v) \<and> (\<forall>k'. k' \<noteq> k \<longrightarrow> view w' k' = view w k') \<and>
     (e = None \<longrightarrow> view w' k = (if expired tm (now w) then None else Some v)))"
proof -
  obtain e1 w1 where l: "klock t x k w = (e1, w1)" by (metis surj_pair)
  note L = klock_law [OF assms(1) l]
  show ?thesis
  proof (cases e1)
    case (Some a)
    then show ?thesis using assms(2) l L by (auto simp: wt_set_context_def)
  next
    case None
    obtain e2 w2 where wr: "writer t x k v w1 = (e2, w2)" by (metis surj_pair)
    note W = writer_law [OF conjunct1 [OF L] wr]
    show ?thesis
    proof (cases e2)
      case (Some a)
      then show ?thesis
        using assms(2) l L W None wr kunlock_law [OF conjunct1 [OF W], of k]
        by (auto simp: wt_set_context_def)
    next
      case e2: None
      obtain t3 e3 w3 where st: "SetContext (wfront t) x k v ex w2 = ((t3, e3), w3)"
        by (metis surj_pair)
      note S = front.set_law [OF conjunct1 [OF W] st]
      have "backing w3 = backing w2" using front_backing(1) [of w2 x k v ex] W st by simp
      moreover have "tm = t3" "e = e3" "w' = kunlock t k w3"
        using assms(2) l None wr e2 st by (auto simp: wt_set_context_def)
      moreover have "fst (klock t x k w) = None" using l None by simp
      moreover have "\<exists>w2. e3 = snd (fst (SetContext (wfront t) x k v ex w2))"
        using st by (intro exI [of _ w2]) simp
      ultimately show ?thesis
        using L W S e2 kunlock_law [OF conjunct1 [OF S], of k] by auto
    qed
  qed
qed

lemma delete_cases:
  assumes "inv w" and "wt_delete_context t x k w = (e, w')"
  shows "inv w' \<and> now w' = now w \<and>
    (e \<noteq> None \<and> e = fst (klock t x k w) \<and> view w' = view w \<and> backing w' = backing w \<or>
     e \<noteq> None \<and> fst (klock t x k w) = None \<and> deleter t \<noteq> None \<and> view w' = view w \<and> backing w' = backing w \<or>
     fst (klock t x k w) = None \<and> (\<exists>w2. e = fst (DeleteContext (wfront t) x k w2)) \<and>
     backing w' = (if deleter t = None then backing w else (backing w)(k := None)) \<and>
     (\<forall>k'. k' \<noteq> k \<longrightarrow> view w' k' = view w k') \<and> (e = None \<longrightarrow> view w' k = None))"
proof -
  obtain e1 w1 where l: "klock t x k w = (e1, w1)" by (metis surj_pair)
  note L = klock_law [OF assms(1) l]
  show ?thesis
  proof (cases e1)
    case (Some a)
    then show ?thesis using assms(2) l L by (auto simp: wt_delete_context_def)
  next
    case None
    obtain e2 w2 where d: "(case deleter t of Some del \<Rightarrow> del x k w1 | None \<Rightarrow> (None, w1)) = (e2, w2)"
      by (metis surj_pair)
    have W: "inv w2 \<and> view w2 = view w \<and> now w2 = now w \<and>
        backing w2 = (if e2 = None \<and> deleter t \<noteq> None then (backing w)(k := None) else backing w)"
      using d L deleter_law [of w1 _ x k e2 w2] by (auto split: option.splits)
    show ?thesis
    proof (cases e2)
      case (Some a)
      then show ?thesis
        using assms(2) l W None d kunlock_law [OF conjunct1 [OF W], of k]
        by (auto simp: wt_delete_context_def)
    next
      case e2: None
      obtain e3 w3 where st: "DeleteContext (wfront t) x k w2 = (e3, w3)" by (metis surj_pair)
      note S = front.delete_law [OF conjunct1 [OF W] st]
      have "backing w3 = backing w2" using front_backing(2) [of w2 x k] W st by simp
      moreover have "e = e3" "w' = kunlock t k w3"
        using assms(2) l None d e2 st by (auto simp: wt_delete_context_def)
      moreover have "fst (klock t x k w) = None" using l None by simp
      moreover have "\<exists>w2. e3 = fst (DeleteContext (wfront t) x k w2)"
        using st by (intro exI [of _ w2]) simp
      ultimately show ?thesis
        using W S e2 kunlock_law [OF conjunct1 [OF S], of k] by auto
    qed
  qed
qed

text \<open>Written through, the layer is itself a store with the front's view.\<close>

lemma store: "cache_store (writeThrough_cache t) inv view now"
proof (intro cache_store.intro cache_store_axioms.intro)
  show "cache_api (writeThrough_cache t)"
    by (rule writeThrough_api) (rule front.cache_api_axioms)
  fix w x k
  show "inv w' \<and> view w' = view w \<and> now w' = now w \<and> (e = None \<longrightarrow> (v, ok) = answer (view w k))"
    if "inv w" "GetContext (writeThrough_cache t) x k w = ((v, ok, e), w')" for v ok e w'
    using front.get_law that by simp
  show "inv w' \<and> now w' = now w \<and> (\<forall>k'. k' \<noteq> k \<longrightarrow> view w' k' = view w k') \<and>
      (e = None \<longrightarrow> view w' k = (if expired tm (now w) then None else Some v))"
    if "inv w" "SetContext (writeThrough_cache t) x k v ex w = ((tm, e), w')" for v ex tm e w'
    using set_cases [of w x k v ex tm e w'] that by auto
  show "inv w' \<and> now w' = now w \<and> (\<forall>k'. k' \<noteq> k \<longrightarrow> view w' k' = view w k') \<and>
      (e = None \<longrightarrow> view w' k = None)"
    if "inv w" "DeleteContext (writeThrough_cache t) x k w = (e, w')" for e w'
    using delete_cases [of w x k e w'] that by auto
qed

end

text \<open>Each live front entry is in the backing store.\<close>

definition never_ahead :: "('w \<Rightarrow> 'k \<rightharpoonup> 'v) \<Rightarrow> ('w \<Rightarrow> 'k \<rightharpoonup> 'v) \<Rightarrow> 'w \<Rightarrow> bool" where
  "never_ahead view backing w \<longleftrightarrow> (\<forall>k v. view w k = Some v \<longrightarrow> backing w k = Some v)"

text \<open>A front whose writes and deletes never fail, such as a Memory.\<close>

locale write_through_total = write_through +
  assumes set_total: "snd (fst (SetContext (wfront t) x k v ex w)) = None"
    and delete_total: "fst (DeleteContext (wfront t) x k w) = None"
begin

lemma set_result:
  assumes "inv w" and "wt_set_context t x k v ex w = ((tm, e), w')"
  shows "inv w' \<and> now w' = now w \<and>
    (if e = None
     then backing w' = (backing w)(k \<mapsto> v) \<and>
       view w' = (view w)(k := if expired tm (now w) then None else Some v)
     else tm = 0 \<and> view w' = view w \<and> backing w' = backing w)"
  using set_cases [OF assms] by (auto simp: set_total fun_eq_iff)

lemma delete_result:
  assumes "inv w" and "wt_delete_context t x k w = (e, w')"
  shows "inv w' \<and> now w' = now w \<and>
    (if e = None
     then backing w' = (if deleter t = None then backing w else (backing w)(k := None)) \<and>
       view w' = (view w)(k := None)
     else view w' = view w \<and> backing w' = backing w)"
  using delete_cases [OF assms] by (auto simp: delete_total fun_eq_iff)

lemma set_never_ahead:
  assumes "inv w" and "wt_set_context t x k v ex w = ((tm, e), w')"
    and "never_ahead view backing w"
  shows "never_ahead view backing w'"
  using set_result [OF assms(1,2)] assms(3) by (auto simp: never_ahead_def split: if_splits)

lemma delete_never_ahead:
  assumes "inv w" and "wt_delete_context t x k w = (e, w')"
    and "never_ahead view backing w"
  shows "never_ahead view backing w'"
  using delete_result [OF assms(1,2)] assms(3) by (auto simp: never_ahead_def split: if_splits)

end

section \<open>A Memory front over a Memory store\<close>

text \<open>
  NewWriteThrough over Memory p, with a writer and a deleter that keep the entries in Memory
  q; no other goroutine contends for the key locks.
\<close>

definition store_writer :: "nat \<Rightarrow> (('k, 'v::zero, 'z) heap_scheme, 'k, 'v) writer" where
  "store_writer q = (\<lambda>x k v w. case mem_set_context q x k v Never w of ((t, e), w') \<Rightarrow> (e, w'))"

definition write_pair ::
    "nat \<Rightarrow> nat \<Rightarrow> (('k, 'v::zero, 'z) heap_scheme, 'k, 'v) writeThrough" where
  "write_pair p q = \<lparr>wfront = memory_cache p, writer = store_writer q,
     deleter = Some (mem_delete_context q), klock = (\<lambda>x k w. (None, w)), kunlock = (\<lambda>k w. w)\<rparr>"

lemma write_pair_simps [simp]:
  "wfront (write_pair p q) = memory_cache p" "writer (write_pair p q) = store_writer q"
  "deleter (write_pair p q) = Some (mem_delete_context q)"
  "klock (write_pair p q) x k w = (None, w)" "kunlock (write_pair p q) k w = w"
  by (simp_all add: write_pair_def)

definition pair_inv :: "nat \<Rightarrow> nat \<Rightarrow> ('k, 'v, 'z) heap_scheme \<Rightarrow> bool" where
  "pair_inv p q w \<longleftrightarrow> p \<noteq> q \<and> heap_ok w \<and> wf_config (cfg (mems w q))"

lemma never_is_fresh:
  assumes "wf_config (cfg M)"
  shows "\<not> expired (fst (set_entry k v Never now M)) now"
  using assms
  by (auto simp: set_entry_def Let_def Never_def resolveExpiry_def clampNever_def expired_iff
      wf_config_def fields_ok_def time_Add_def)

lemma mem_set_never:
  assumes "wf_config (cfg (mems w q))"
  shows "mem_view q (snd (mem_set q k v Never w)) = (mem_view q w)(k \<mapsto> v)"
proof -
  have "fst (mem_set q k v Never w) = fst (set_entry k v Never (clock w) (mems w q))"
    by (simp add: mem_set_def split: prod.splits)
  then show ?thesis
    using never_is_fresh [OF assms, of k v "clock w"] by (simp add: mem_set_view)
qed

lemmas mem_context_defs = mem_get_context_def mem_set_context_def mem_delete_context_def

lemma memory_store_pair: "cache_store (memory_cache p) (pair_inv p q) (mem_view p) clock"
proof (intro cache_store.intro cache_store_axioms.intro memory_cache_api)
  fix w x k v ok e w'
  assume "pair_inv p q w" "GetContext (memory_cache p) x k w = ((v, ok, e), w')"
  then show "pair_inv p q w' \<and> mem_view p w' = mem_view p w \<and> clock w' = clock w \<and>
      (e = None \<longrightarrow> (v, ok) = answer (mem_view p w k))"
    using mem.get_law [of w p x k v ok e w'] cfg_ops(1) [of p k w q]
    by (auto simp: pair_inv_def mem_get_context_def simp del: cfg_ops split: prod.splits)
next
  fix w x k v ex t e w'
  assume "pair_inv p q w" "SetContext (memory_cache p) x k v ex w = ((t, e), w')"
  then show "pair_inv p q w' \<and> clock w' = clock w \<and>
      (\<forall>k'. k' \<noteq> k \<longrightarrow> mem_view p w' k' = mem_view p w k') \<and>
      (e = None \<longrightarrow> mem_view p w' k = (if expired t (clock w) then None else Some v))"
    using mem.set_law [of w p x k v ex t e w'] cfg_ops(2) [of p k v ex w q]
    by (auto simp: pair_inv_def mem_set_context_def simp del: cfg_ops split: prod.splits)
next
  fix w x k e w'
  assume "pair_inv p q w" "DeleteContext (memory_cache p) x k w = (e, w')"
  then show "pair_inv p q w' \<and> clock w' = clock w \<and>
      (\<forall>k'. k' \<noteq> k \<longrightarrow> mem_view p w' k' = mem_view p w k') \<and>
      (e = None \<longrightarrow> mem_view p w' k = None)"
    using mem.delete_law [of w p x k e w'] by (auto simp: pair_inv_def mem_delete_context_def)
qed

interpretation pair: write_through_total "write_pair p q" "pair_inv p q" "mem_view p" clock
    "mem_view q" for p q
proof (intro write_through_total.intro write_through.intro write_through_axioms.intro
    write_through_total_axioms.intro)
  show "cache_store (wfront (write_pair p q)) (pair_inv p q) (mem_view p) clock"
    using memory_store_pair by simp
  fix w x k v e w'
  assume "pair_inv p q w" "writer (write_pair p q) x k v w = (e, w')"
  then show "pair_inv p q w' \<and> mem_view p w' = mem_view p w \<and> clock w' = clock w \<and>
      mem_view q w' = (if e = None then (mem_view q w)(k \<mapsto> v) else mem_view q w)"
    using heap_ok_ops(2) [of w q k v Never] mem_set_never [of w q k v]
      mem_set_view(1) [of p q k v Never w] mem_set_view(2) [of q k v Never w] cfg_ops(2) [of q k v Never w q]
    by (auto simp: pair_inv_def store_writer_def mem_set_context_def simp del: cfg_ops
        split: prod.splits)
next
  fix w d x k e w'
  assume "pair_inv p q w" "deleter (write_pair p q) = Some d" "d x k w = (e, w')"
  then show "pair_inv p q w' \<and> mem_view p w' = mem_view p w \<and> clock w' = clock w \<and>
      mem_view q w' = (if e = None then (mem_view q w)(k := None) else mem_view q w)"
    using heap_ok_ops(3) [of w q k]
    by (auto simp: pair_inv_def mem_delete_context_def mem_delete_view)
qed (auto simp: mem_context_defs mem_set_view mem_delete_view pair_inv_def split: prod.splits,
    metis mem_set_view(1) snd_conv)

lemma pair_inv_example: "pair_inv 5 6 example_heap"
  using example_heap_ok
  by (simp add: pair_inv_def example_heap_def example_memory_def wf_config_def fields_ok_def
      zero_config_def go_time)

section \<open>Properties\<close>



text \<open>
  Delete-through on every branch. Under the same laws, with a deleter that has deleted
  exactly when it reports no error, DeleteContext leaves the store and the front as they
  were when it returns an error, and otherwise has removed the key from the front and, if a
  deleter was configured, from the store; no live front entry is left without the store's.
\<close>

lemma write_through_delete:
  assumes "write_through_total t I view now backing" and "I w"
    and "wt_delete_context t x k w = (e, w')" and "never_ahead view backing w"
  shows "(if e = None
     then backing w' = (if deleter t = None then backing w else (backing w)(k := None)) \<and>
       view w' = (view w)(k := None)
     else view w' = view w \<and> backing w' = backing w) \<and>
    I w' \<and> never_ahead view backing w'"
  using write_through_total.delete_result [OF assms(1-3)]
    write_through_total.delete_never_ahead [OF assms] by simp

end
