(* ===== verification/CacheStack.thy ===== *)
theory CacheStack
  imports CacheSharded CacheReadThrough CacheWriteThrough
begin

text \<open>
  Stacks of cache layers: Memory objects and caches from elsewhere under any nesting of
  Sharded, ReadThrough and WriteThrough, and what Close does to the whole of it.
\<close>

section \<open>Stacks\<close>

text \<open>The front of a layer is the stack below it; the field of the record is not used.\<close>

datatype ('w, 'k, 'v) stack =
    OfMemory nat
  | OfOther "('w, 'k, 'v) cache"
  | OfSharded "'k \<Rightarrow> 64 word" "('w, 'k, 'v) stack list"
  | OfReadThrough "('w, 'k, 'v) readThrough" "('w, 'k, 'v) stack"
  | OfWriteThrough "('w, 'k, 'v) writeThrough" "('w, 'k, 'v) stack"

primrec build :: "(('k, 'v::zero, 'z) heap_scheme, 'k, 'v) stack \<Rightarrow> (('k, 'v, 'z) heap_scheme, 'k, 'v) cache" where
  "build (OfMemory p) = memory_cache p"
| "build (OfOther c) = c"
| "build (OfSharded alg ss) = sharded_cache \<lparr>algorithm = alg, shards = map build ss\<rparr>"
| "build (OfReadThrough r s) = readThrough_cache (r\<lparr>front := build s\<rparr>)"
| "build (OfWriteThrough t s) = writeThrough_cache (t\<lparr>wfront := build s\<rparr>)"

text \<open>The Memory objects within a stack, and the caches that come from elsewhere.\<close>

primrec memories :: "('w, 'k, 'v) stack \<Rightarrow> nat list" where
  "memories (OfMemory p) = [p]"
| "memories (OfOther c) = []"
| "memories (OfSharded alg ss) = concat (map memories ss)"
| "memories (OfReadThrough r s) = memories s"
| "memories (OfWriteThrough t s) = memories s"

primrec others :: "('w, 'k, 'v) stack \<Rightarrow> ('w, 'k, 'v) cache list" where
  "others (OfMemory p) = []"
| "others (OfOther c) = [c]"
| "others (OfSharded alg ss) = concat (map others ss)"
| "others (OfReadThrough r s) = others s"
| "others (OfWriteThrough t s) = others s"

section \<open>Closing\<close>

text \<open>Close on a value of an interface type, if its type has the method.\<close>

definition close_cache :: "('w, 'k, 'v) cache \<Rightarrow> 'w \<Rightarrow> gerr option \<times> 'w" where
  "close_cache c w = (case Closer c of Some f \<Rightarrow> f w | None \<Rightarrow> (None, w))"

lemma close_cache_simps [simp]:
  "close_cache (memory_cache p) w = mem_close p w"
  "close_cache (sharded_cache s) w = sharded_close s w"
  "close_cache (readThrough_cache (r\<lparr>front := c\<rparr>)) w = close_cache c w"
  "close_cache (writeThrough_cache (t\<lparr>wfront := c\<rparr>)) w = close_cache c w"
  by (simp_all add: close_cache_def rt_close_def wt_close_def)

lemma sharded_close_loop_Cons:
  "sharded_close_loop (c # cs) errs w =
     (case close_cache c w of (e, w') \<Rightarrow> sharded_close_loop cs (errs @ (case e of None \<Rightarrow> [] | Some a \<Rightarrow> [a])) w')"
  by (auto simp: close_cache_def split: option.splits prod.splits)

text \<open>A cache from elsewhere whose Close leaves the Memory objects and the clock alone.\<close>

definition quiet :: "(('k, 'v, 'z) heap_scheme, 'k, 'v) cache \<Rightarrow> bool" where
  "quiet c \<longleftrightarrow> (\<forall>w. mems (snd (close_cache c w)) = mems w \<and> clock (snd (close_cache c w)) = clock w)"

definition closes_well :: "('w, 'k, 'v) cache \<Rightarrow> bool" where
  "closes_well c \<longleftrightarrow> (\<forall>w. fst (close_cache c w) = None)"

lemma close_memory_idem [simp]: "close_memory (close_memory M) = close_memory M"
  by (simp add: close_memory_def)

lemma live_closed [simp]: "live (close_memory M) = live M"
  by (intro ext) (simp add: live_def close_memory_def)

definition closed_mems :: "nat list \<Rightarrow> (nat \<Rightarrow> ('k, 'v) memory) \<Rightarrow> nat \<Rightarrow> ('k, 'v) memory" where
  "closed_mems ps f p = (if p \<in> set ps then close_memory (f p) else f p)"

lemma closed_mems_append: "closed_mems qs (closed_mems ps f) = closed_mems (ps @ qs) f"
  by (rule ext) (simp add: closed_mems_def)

text \<open>What a close does: it reaches the Memory objects ps, and fails only if ok is false.\<close>

definition closes_to :: "nat list \<Rightarrow> bool \<Rightarrow> (('k, 'v, 'z) heap_scheme, 'k, 'v) cache \<Rightarrow> bool" where
  "closes_to ps ok c \<longleftrightarrow> (\<forall>w e w'. close_cache c w = (e, w') \<longrightarrow>
     mems w' = closed_mems ps (mems w) \<and> clock w' = clock w \<and> (ok \<longrightarrow> e = None))"

lemma closes_toD:
  assumes "closes_to ps ok c" and "close_cache c w = (e, w')"
  shows "mems w' = closed_mems ps (mems w)" and "clock w' = clock w" and "ok \<Longrightarrow> e = None"
  using assms unfolding closes_to_def by blast+

lemma close_loop_closes:
  assumes "\<forall>s \<in> set ss. closes_to (memories s) (list_all closes_well (others s)) (build s)"
    and "sharded_close_loop (map build ss) errs w = (errs', w')"
  shows "mems w' = closed_mems (concat (map memories ss)) (mems w) \<and> clock w' = clock w \<and>
    (list_all closes_well (concat (map others ss)) \<longrightarrow> errs' = errs)"
  using assms
proof (induction ss arbitrary: errs w)
  case Nil
  then show ?case by (auto simp: closed_mems_def)
next
  case (Cons s ss)
  obtain e w1 where c: "close_cache (build s) w = (e, w1)" by (metis surj_pair)
  have "closes_to (memories s) (list_all closes_well (others s)) (build s)" using Cons.prems(1) by simp
  note d = closes_toD [OF this c]
  have "sharded_close_loop (map build ss) (errs @ (case e of None \<Rightarrow> [] | Some a \<Rightarrow> [a])) w1 = (errs', w')"
    using Cons.prems(2) c by (simp add: sharded_close_loop_Cons del: sharded_close_loop.simps)
  with Cons.IH [OF _ this] Cons.prems(1) d show ?case by (auto simp: closed_mems_append)
qed

lemma stack_closes:
  assumes "list_all quiet (others s)"
  shows "closes_to (memories s) (list_all closes_well (others s)) (build s)"
  using assms
proof (induction s)
  case (OfMemory p)
  show ?case by (auto simp: closes_to_def mem_close_def closed_mems_def)
next
  case (OfOther c)
  have "closed_mems [] f = f" for f :: "nat \<Rightarrow> ('a, 'b) memory" by (rule ext) (simp add: closed_mems_def)
  with OfOther show ?case by (auto simp: closes_to_def quiet_def closes_well_def) (metis fst_conv snd_conv)+
next
  case (OfSharded alg ss)
  then have ss: "\<forall>s \<in> set ss. closes_to (memories s) (list_all closes_well (others s)) (build s)"
    by (simp add: list_all_iff)
  show ?case unfolding closes_to_def
  proof (intro allI impI)
    fix w :: "('a, 'b, 'c) heap_scheme" and e w'
    assume c: "close_cache (build (OfSharded alg ss)) w = (e, w')"
    obtain errs w1 where l: "sharded_close_loop (map build ss) [] w = (errs, w1)" by (metis surj_pair)
    then have "e = errors_join errs" "w' = w1" using c by (simp_all add: sharded_close_def)
    with close_loop_closes [OF ss l]
    show "mems w' = closed_mems (memories (OfSharded alg ss)) (mems w) \<and> clock w' = clock w \<and>
        (list_all closes_well (others (OfSharded alg ss)) \<longrightarrow> e = None)" by simp
  qed
next
  case (OfReadThrough r s)
  then show ?case by (simp add: closes_to_def)
next
  case (OfWriteThrough t s)
  then show ?case by (simp add: closes_to_def)
qed

section \<open>Property\<close>

text \<open>
  C24. Closing the outermost cache of a stack reaches every Memory within it. For any nesting of
  the layers, and caches from elsewhere whose Close does not touch the Memory objects, Close
  on the outermost cache signals exactly the Memory objects within the stack to stop their
  background loops, even when some of the other caches fail to close, and changes no live
  view; it returns nil if the others close well; and closing again changes nothing more.
\<close>

theorem closing_reaches_every_memory:
  assumes "list_all quiet (others s)" and "close_cache (build s) w = (e, w')"
  shows "(\<forall>p. mems w' p = (if p \<in> set (memories s) then close_memory (mems w p) else mems w p)) \<and>
    (\<forall>p. mem_view p w' = mem_view p w) \<and>
    (list_all closes_well (others s) \<longrightarrow> e = None) \<and>
    (\<forall>e2 w2. close_cache (build s) w' = (e2, w2) \<longrightarrow> mems w2 = mems w')"
proof -
  note c = closes_toD [OF stack_closes [OF assms(1)]]
  have "mem_view p w' = mem_view p w" for p
    using c(1,2) [OF assms(2)] by (simp add: mem_view_def closed_mems_def)
  moreover have "mems w2 = mems w'" if "close_cache (build s) w' = (e2, w2)" for e2 w2
    using c(1) [OF that] c(1) [OF assms(2)] by (auto simp: closed_mems_def)
  ultimately show ?thesis using c(1,3) [OF assms(2)] by (simp add: closed_mems_def list_all_iff)
qed

text \<open>A ReadThrough over a Sharded of the Memory objects 0 and 1, with 2 behind the loader.\<close>

definition ex_stack :: "((nat, nat) heap, nat, nat) stack" where
  "ex_stack = OfReadThrough \<lparr>front = memory_cache 2, load = LoaderFromCache (memory_cache 2), missErrs = [], flight = None\<rparr>
     (OfSharded of_nat [OfMemory 0, OfMemory 1])"

theorem closing_reaches_every_memory_witness:
  "\<forall>w. fst (close_cache (build ex_stack) w) = None \<and> closed (mems (snd (close_cache (build ex_stack) w)) 1) \<and>
     mems (snd (close_cache (build ex_stack) w)) 2 = mems w 2"
proof
  fix w :: "(nat, nat) heap"
  obtain e w' where c: "close_cache (build ex_stack) w = (e, w')" by (metis surj_pair)
  have "others ex_stack = []" "memories ex_stack = [0, 1]" by (simp_all add: ex_stack_def)
  with closing_reaches_every_memory [OF _ c] c
  show "fst (close_cache (build ex_stack) w) = None \<and> closed (mems (snd (close_cache (build ex_stack) w)) 1) \<and>
     mems (snd (close_cache (build ex_stack) w)) 2 = mems w 2"
    by (simp add: close_memory_def)
qed

end
