(* ===== verification/CacheKeyLock.thy ===== *)
theory CacheKeyLock
  imports CacheWriteThrough
begin

text \<open>
  The key locks of WriteThrough (lock, unlock and release of cache/writethrough.go) and the
  writes and deletes that hold them, as a step relation over goroutines. The map of locks is
  guarded by a mutex, so each access of it is one step; a keyLock is an object with a
  one-slot channel, full while a goroutine holds the key.
\<close>

section \<open>The map of locks\<close>

record keyLock =
  ch :: bool   \<comment> \<open>whether the slot of the channel is taken\<close>
  refs :: nat

record 'k locktab =
  locks :: "'k \<rightharpoonup> nat"
  objs :: "nat \<Rightarrow> keyLock"
  nextLock :: nat

text \<open>lock, up to the first select: find or create the entry and count the caller.\<close>

definition lock_enter :: "'k \<Rightarrow> 'k locktab \<Rightarrow> nat \<times> 'k locktab" where
  "lock_enter key T =
     (case locks T key of
        Some l \<Rightarrow> (l, T\<lparr>objs := (objs T)(l := (objs T l)\<lparr>refs := refs (objs T l) + 1\<rparr>)\<rparr>)
      | None \<Rightarrow> (nextLock T,
          T\<lparr>locks := (locks T)(key \<mapsto> nextLock T),
            objs := (objs T)(nextLock T := \<lparr>ch = False, refs = 1\<rparr>),
            nextLock := Suc (nextLock T)\<rparr>))"

text \<open>The send of the select, when the slot is free, and the receive of unlock.\<close>

definition lock_send :: "nat \<Rightarrow> 'k locktab \<Rightarrow> 'k locktab" where
  "lock_send l T = T\<lparr>objs := (objs T)(l := (objs T l)\<lparr>ch := True\<rparr>)\<rparr>"

definition unlock_recv :: "nat \<Rightarrow> 'k locktab \<Rightarrow> 'k locktab" where
  "unlock_recv l T = T\<lparr>objs := (objs T)(l := (objs T l)\<lparr>ch := False\<rparr>)\<rparr>"

definition lock_release :: "'k \<Rightarrow> nat \<Rightarrow> 'k locktab \<Rightarrow> 'k locktab" where
  "lock_release key l T =
     (let n = refs (objs T l) - 1;
          T' = T\<lparr>objs := (objs T)(l := (objs T l)\<lparr>refs := n\<rparr>)\<rparr>
      in if n = 0 then T'\<lparr>locks := (locks T')(key := None)\<rparr> else T')"

section \<open>Goroutines\<close>

datatype ('k, 'v) wop = WSet (wkey: 'k) 'v | WDel (wkey: 'k)

text \<open>
  How a call ends: with nil, with an error, or unwound by a panic (or runtime.Goexit) of the
  writer, the deleter or the front, which runs the deferred unlock all the same.
\<close>

datatype wres = WOk | WErr gerr | Unwound

text \<open>The lock a goroutine holds in its critical section is None for a NaN key.\<close>

datatype ('k, 'v) wpc =
    WIdle
  | Enter "('k, 'v) wop"                              \<comment> \<open>lock: before the map access\<close>
  | Trying "('k, 'v) wop" nat                         \<comment> \<open>lock: at the first select\<close>
  | Blocked "('k, 'v) wop" nat                        \<comment> \<open>lock: at the second select\<close>
  | Writing "('k, 'v) wop" "nat option"               \<comment> \<open>the writer or deleter is running\<close>
  | Fronting "('k, 'v) wop" "nat option"              \<comment> \<open>the front call is next\<close>
  | Unlocking "('k, 'v) wop" "nat option" wres          \<comment> \<open>unlock: before the receive\<close>
  | Releasing "('k, 'v) wop" nat wres                 \<comment> \<open>release: before the map access\<close>
  | WReturned "('k, 'v) wop" wres

text \<open>
  doubtful is not in the code: the keys for which a writer or deleter failed after it had
  changed the store, or a front call failed, with no complete write or delete since.
\<close>

record ('k, 'v) wsys =
  tab :: "'k locktab"
  store :: "'k \<rightharpoonup> 'v"
  cfront :: "'k \<rightharpoonup> 'v"
  wended :: "nat \<Rightarrow> bool"
  wpcs :: "nat \<Rightarrow> ('k, 'v) wpc"
  doubtful :: "'k set"

text \<open>What a write or delete does to the store and to the front when it succeeds.\<close>

fun apply_store :: "bool \<Rightarrow> ('k, 'v) wop \<Rightarrow> ('k \<rightharpoonup> 'v) \<Rightarrow> ('k \<rightharpoonup> 'v)" where
  "apply_store hasDeleter (WSet k v) st = st(k \<mapsto> v)"
| "apply_store hasDeleter (WDel k) st = (if hasDeleter then st(k := None) else st)"

fun apply_front :: "('k, 'v) wop \<Rightarrow> ('k \<rightharpoonup> 'v) \<Rightarrow> ('k \<rightharpoonup> 'v)" where
  "apply_front (WSet k v) fr = fr(k \<mapsto> v)"
| "apply_front (WDel k) fr = fr(k := None)"

text \<open>Without a deleter nothing runs before the front delete that could fail.\<close>

fun can_fail :: "bool \<Rightarrow> ('k, 'v) wop \<Rightarrow> bool" where
  "can_fail hasDeleter (WSet k v) = True"
| "can_fail hasDeleter (WDel k) = hasDeleter"

abbreviation wgo :: "('k, 'v) wsys \<Rightarrow> nat \<Rightarrow> ('k, 'v) wpc \<Rightarrow> ('k, 'v) wsys" where
  "wgo s i p \<equiv> s\<lparr>wpcs := (wpcs s)(i := p)\<rparr>"

text \<open>
  nan k is the code's key != key. The front loses entries by itself when they expire
  (front_expire). A writer or deleter that fails leaves the store as it was (write_fail) or
  anything at its key (write_half), and so does a front call that fails (front_fail).
\<close>

inductive wstep ::
    "(nat \<Rightarrow> gerr) \<Rightarrow> ('k \<Rightarrow> bool) \<Rightarrow> bool \<Rightarrow> ('k, 'v) wsys \<Rightarrow> ('k, 'v) wsys \<Rightarrow> bool"
  for cause nan hasDeleter where
  w_ctx_end: "wstep cause nan hasDeleter s (s\<lparr>wended := (wended s)(i := True)\<rparr>)"
| front_expire: "wstep cause nan hasDeleter s (s\<lparr>cfront := (cfront s)(k := None)\<rparr>)"
| w_call: "wpcs s i = WIdle \<Longrightarrow> wstep cause nan hasDeleter s (wgo s i (Enter op))"
| enter_nan: "wpcs s i = Enter op \<Longrightarrow> nan (wkey op) \<Longrightarrow>
    wstep cause nan hasDeleter s (wgo s i (Writing op None))"
| enter: "wpcs s i = Enter op \<Longrightarrow> \<not> nan (wkey op) \<Longrightarrow> lock_enter (wkey op) (tab s) = (l, T) \<Longrightarrow>
    wstep cause nan hasDeleter s (wgo (s\<lparr>tab := T\<rparr>) i (Trying op l))"
| try_ok: "wpcs s i = Trying op l \<Longrightarrow> \<not> ch (objs (tab s) l) \<Longrightarrow>
    wstep cause nan hasDeleter s (wgo (s\<lparr>tab := lock_send l (tab s)\<rparr>) i (Writing op (Some l)))"
| try_default: "wpcs s i = Trying op l \<Longrightarrow> ch (objs (tab s) l) \<Longrightarrow>
    wstep cause nan hasDeleter s (wgo s i (Blocked op l))"
| block_ok: "wpcs s i = Blocked op l \<Longrightarrow> \<not> ch (objs (tab s) l) \<Longrightarrow>
    wstep cause nan hasDeleter s (wgo (s\<lparr>tab := lock_send l (tab s)\<rparr>) i (Writing op (Some l)))"
| block_ctx: "wpcs s i = Blocked op l \<Longrightarrow> wended s i \<Longrightarrow>
    wstep cause nan hasDeleter s (wgo s i (Releasing op l (WErr (cause i))))"
| write_fail: "wpcs s i = Writing op lo \<Longrightarrow> can_fail hasDeleter op \<Longrightarrow> r \<noteq> WOk \<Longrightarrow>
    wstep cause nan hasDeleter s (wgo s i (Unlocking op lo r))"
| write_half: "wpcs s i = Writing op lo \<Longrightarrow> can_fail hasDeleter op \<Longrightarrow> r \<noteq> WOk \<Longrightarrow>
    wstep cause nan hasDeleter s
      (wgo (s\<lparr>store := (store s)(wkey op := x), doubtful := insert (wkey op) (doubtful s)\<rparr>) i (Unlocking op lo r))"
| write_ok: "wpcs s i = Writing op lo \<Longrightarrow>
    wstep cause nan hasDeleter s
      (wgo (s\<lparr>store := apply_store hasDeleter op (store s)\<rparr>) i (Fronting op lo))"
| write_front: "wpcs s i = Fronting op lo \<Longrightarrow>
    wstep cause nan hasDeleter s
      (wgo (s\<lparr>cfront := apply_front op (cfront s), doubtful := doubtful s - {wkey op}\<rparr>) i (Unlocking op lo WOk))"
| front_fail: "wpcs s i = Fronting op lo \<Longrightarrow> r \<noteq> WOk \<Longrightarrow>
    wstep cause nan hasDeleter s
      (wgo (s\<lparr>cfront := (cfront s)(wkey op := x), doubtful := insert (wkey op) (doubtful s)\<rparr>) i (Unlocking op lo r))"
| unlock_nil: "wpcs s i = Unlocking op None e \<Longrightarrow>
    wstep cause nan hasDeleter s (wgo s i (WReturned op e))"
| unlock: "wpcs s i = Unlocking op (Some l) e \<Longrightarrow> ch (objs (tab s) l) \<Longrightarrow>
    wstep cause nan hasDeleter s (wgo (s\<lparr>tab := unlock_recv l (tab s)\<rparr>) i (Releasing op l e))"
| release: "wpcs s i = Releasing op l e \<Longrightarrow>
    wstep cause nan hasDeleter s
      (wgo (s\<lparr>tab := lock_release (wkey op) l (tab s)\<rparr>) i (WReturned op e))"

inductive wreach ::
    "(nat \<Rightarrow> gerr) \<Rightarrow> ('k \<Rightarrow> bool) \<Rightarrow> bool \<Rightarrow> ('k, 'v) wsys \<Rightarrow> bool"
  for cause nan hasDeleter where
  wreach_init: "locks (tab s) = Map.empty \<Longrightarrow> (\<And>i. wpcs s i = WIdle) \<Longrightarrow> nextLock (tab s) = 0 \<Longrightarrow>
    (\<And>k. cfront s k = None \<or> cfront s k = store s k) \<Longrightarrow> doubtful s = {} \<Longrightarrow> wreach cause nan hasDeleter s"
| wreach_step: "wreach cause nan hasDeleter s \<Longrightarrow> wstep cause nan hasDeleter s s' \<Longrightarrow>
    wreach cause nan hasDeleter s'"

section \<open>Invariant\<close>

text \<open>
  The lock that a goroutine refers to, with its key; the one it holds; the key that it
  has written to the store but not yet to the front.
\<close>

fun refers :: "('k, 'v) wpc \<Rightarrow> ('k \<times> nat) option" where
  "refers (Trying op l) = Some (wkey op, l)"
| "refers (Blocked op l) = Some (wkey op, l)"
| "refers (Writing op (Some l)) = Some (wkey op, l)"
| "refers (Fronting op (Some l)) = Some (wkey op, l)"
| "refers (Unlocking op (Some l) e) = Some (wkey op, l)"
| "refers (Releasing op l e) = Some (wkey op, l)"
| "refers _ = None"

fun holds :: "('k, 'v) wpc \<Rightarrow> nat option" where
  "holds (Writing op lo) = lo"
| "holds (Fronting op lo) = lo"
| "holds (Unlocking op lo e) = lo"
| "holds _ = None"

text \<open>The critical section from the writer call to the front call.\<close>

fun in_section :: "('k, 'v) wpc \<Rightarrow> ('k, 'v) wop option" where
  "in_section (Writing op lo) = Some op"
| "in_section (Fronting op lo) = Some op"
| "in_section _ = None"

definition referrers :: "('k, 'v) wsys \<Rightarrow> nat \<Rightarrow> nat set" where
  "referrers s l = {i. \<exists>k. refers (wpcs s i) = Some (k, l)}"

definition tab_inv :: "('k \<Rightarrow> bool) \<Rightarrow> ('k, 'v) wsys \<Rightarrow> bool" where
  "tab_inv nan s \<longleftrightarrow>
     (\<forall>k l. locks (tab s) k = Some l \<longrightarrow> (\<exists>i. refers (wpcs s i) = Some (k, l))) \<and>
     (\<forall>i k l. refers (wpcs s i) = Some (k, l) \<longrightarrow>
        locks (tab s) k = Some l \<and> l < nextLock (tab s) \<and> \<not> nan k) \<and>
     (\<forall>l. finite (referrers s l) \<and> (l < nextLock (tab s) \<longrightarrow>
        refs (objs (tab s) l) = card (referrers s l))) \<and>
     (\<forall>k k' l. locks (tab s) k = Some l \<longrightarrow> locks (tab s) k' = Some l \<longrightarrow> k = k')"

definition hold_inv :: "('k \<Rightarrow> bool) \<Rightarrow> ('k, 'v) wsys \<Rightarrow> bool" where
  "hold_inv nan s \<longleftrightarrow>
     (\<forall>i j l. holds (wpcs s i) = Some l \<longrightarrow> holds (wpcs s j) = Some l \<longrightarrow> i = j) \<and>
     (\<forall>l. l < nextLock (tab s) \<longrightarrow> (ch (objs (tab s) l) \<longleftrightarrow> (\<exists>i. holds (wpcs s i) = Some l))) \<and>
     (\<forall>i op. in_section (wpcs s i) = Some op \<longrightarrow> holds (wpcs s i) = None \<longrightarrow> nan (wkey op))"

lemma refers_section [simp]:
  "refers (Writing op lo) = map_option (Pair (wkey op)) lo"
  "refers (Fronting op lo) = map_option (Pair (wkey op)) lo"
  "refers (Unlocking op lo e) = map_option (Pair (wkey op)) lo"
  by (cases lo; simp)+

lemma holds_refers: "holds p = Some l \<Longrightarrow> \<exists>k. refers p = Some (k, l)"
  by (cases p) auto

lemma section_refers:
  "in_section p = Some op \<Longrightarrow> holds p = Some l \<Longrightarrow> refers p = Some (wkey op, l)"
  by (cases p) auto

lemma tab_inv_cong:
  assumes "tab_inv nan s" and "\<And>j. refers (wpcs s' j) = refers (wpcs s j)"
    and "locks (tab s') = locks (tab s)" and "nextLock (tab s') = nextLock (tab s)"
    and "\<And>l. refs (objs (tab s') l) = refs (objs (tab s) l)"
  shows "tab_inv nan s'"
  using assms unfolding tab_inv_def referrers_def by simp

lemma tab_invD:
  assumes "tab_inv nan s"
  shows "locks (tab s) k = Some l \<Longrightarrow> \<exists>i. refers (wpcs s i) = Some (k, l)"
    and "refers (wpcs s i) = Some (k, l) \<Longrightarrow> locks (tab s) k = Some l \<and> l < nextLock (tab s) \<and> \<not> nan k"
    and "finite (referrers s l)"
    and "l < nextLock (tab s) \<Longrightarrow> refs (objs (tab s) l) = card (referrers s l)"
    and "locks (tab s) k = Some l \<Longrightarrow> locks (tab s) k' = Some l \<Longrightarrow> k = k'"
  using assms unfolding tab_inv_def by blast+

lemma tab_invI:
  assumes "\<And>k l. locks (tab s) k = Some l \<Longrightarrow> \<exists>i. refers (wpcs s i) = Some (k, l)"
    and "\<And>i k l. refers (wpcs s i) = Some (k, l) \<Longrightarrow>
      locks (tab s) k = Some l \<and> l < nextLock (tab s) \<and> \<not> nan k"
    and "\<And>l. finite (referrers s l)"
    and "\<And>l. l < nextLock (tab s) \<Longrightarrow> refs (objs (tab s) l) = card (referrers s l)"
    and "\<And>k k' l. locks (tab s) k = Some l \<Longrightarrow> locks (tab s) k' = Some l \<Longrightarrow> k = k'"
  shows "tab_inv nan s"
  using assms unfolding tab_inv_def by blast

lemma tab_inv_enter:
  assumes inv: "tab_inv nan s" and pc: "wpcs s i = Enter op" and "\<not> nan (wkey op)"
    and e: "lock_enter (wkey op) (tab s) = (l, T)"
  shows "tab_inv nan (wgo (s\<lparr>tab := T\<rparr>) i (Trying op l))" (is "tab_inv nan ?s")
proof -
  let ?k = "wkey op"
  have ref: "refers (wpcs ?s j) = (if j = i then Some (?k, l) else refers (wpcs s j))" for j by simp
  have T: "locks T = (locks (tab s))(?k \<mapsto> l)" "nextLock (tab s) \<le> nextLock T" "l < nextLock T"
    and new: "locks (tab s) ?k \<noteq> Some l \<Longrightarrow>
      locks (tab s) ?k = None \<and> l = nextLock (tab s) \<and> nextLock T = Suc (nextLock (tab s))"
    and old: "locks (tab s) ?k = Some l \<Longrightarrow> nextLock T = nextLock (tab s)"
    and n: "refs (objs T l') = (if l' = l then (if locks (tab s) ?k = Some l
        then refs (objs (tab s) l) + 1 else 1) else refs (objs (tab s) l'))" for l'
    using e tab_invD(1,2) [OF inv] by (auto simp: lock_enter_def split: option.splits, metis+)
  have R: "referrers ?s l' = (if l' = l then insert i (referrers s l) else referrers s l')" for l'
    using pc by (auto simp: referrers_def)
  have i: "i \<notin> referrers s l'" for l' using pc by (simp add: referrers_def)
  have fresh: "locks (tab s) ?k \<noteq> Some l \<Longrightarrow> referrers s l = {}"
    using new tab_invD(2) [OF inv] by (fastforce simp: referrers_def)
  have uniq: "k = ?k" if "locks (tab s) k = Some l" for k
    using that new tab_invD(1,2,5) [OF inv] by (metis less_irrefl)
  show ?thesis
  proof (rule tab_invI)
    show "\<exists>j. refers (wpcs ?s j) = Some (k', l')" if a: "locks (tab ?s) k' = Some l'" for k' l'
    proof (cases "k' = ?k")
      case True
      then show ?thesis using a T ref [of i] by auto
    next
      case False
      then have "locks (tab s) k' = Some l'" using a T by simp
      from tab_invD(1) [OF inv this] obtain j where "refers (wpcs s j) = Some (k', l')" ..
      then show ?thesis using ref [of j] pc by (intro exI [of _ j]) auto
    qed
    show "locks (tab ?s) k' = Some l' \<and> l' < nextLock (tab ?s) \<and> \<not> nan k'"
      if "refers (wpcs ?s j) = Some (k', l')" for j k' l'
    proof (cases "j = i")
      case True
      then show ?thesis using that T assms(3) by simp
    next
      case False
      then have "locks (tab s) k' = Some l' \<and> l' < nextLock (tab s) \<and> \<not> nan k'"
        using that ref tab_invD(2) [OF inv] by simp
      then show ?thesis using T new by fastforce
    qed
    show "finite (referrers ?s l')" for l'
      unfolding R using tab_invD(3) [OF inv] by simp
    show "refs (objs (tab ?s) l') = card (referrers ?s l')" if "l' < nextLock (tab ?s)" for l'
    proof (cases "l' = l")
      case True
      have "l < nextLock (tab s)" if "locks (tab s) ?k = Some l"
        using that old T(3) by simp
      then show ?thesis
        unfolding R using True n [of l] fresh tab_invD(3,4) [OF inv, of l] i [of l] by auto
    next
      case False
      then have "l' < nextLock (tab s)" using that new old by fastforce
      then show ?thesis unfolding R using False n [of l'] tab_invD(4) [OF inv] by simp
    qed
    show "k1 = k2" if "locks (tab ?s) k1 = Some l'" "locks (tab ?s) k2 = Some l'" for k1 k2 l'
      using that T(1) uniq tab_invD(5) [OF inv] by (auto split: if_splits)
  qed
qed

lemma tab_inv_release:
  assumes inv: "tab_inv nan s" and pc: "wpcs s i = Releasing op l e"
  shows "tab_inv nan (wgo (s\<lparr>tab := lock_release (wkey op) l (tab s)\<rparr>) i (WReturned op e))"
    (is "tab_inv nan ?s")
proof -
  let ?k = "wkey op" and ?R = "referrers s l"
  have l: "locks (tab s) ?k = Some l" "l < nextLock (tab s)"
    using tab_invD(2) [OF inv, of i ?k l] pc by simp_all
  have R: "referrers ?s l' = (if l' = l then ?R - {i} else referrers s l')" for l'
    using pc by (auto simp: referrers_def)
  have i: "i \<in> ?R" using pc by (simp add: referrers_def)
  have fin: "finite ?R" by (rule tab_invD(3) [OF inv])
  have n: "refs (objs (tab s) l) = card ?R" by (rule tab_invD(4) [OF inv l(2)])
  have gone: "refs (objs (tab s) l) - 1 = 0 \<longleftrightarrow> ?R = {i}"
  proof -
    have "refs (objs (tab s) l) - 1 = card (?R - {i})" using n i fin by simp
    moreover have "card (?R - {i}) = 0 \<longleftrightarrow> ?R - {i} = {}" using fin by simp
    ultimately show ?thesis using i by auto
  qed
  have T: "locks (tab ?s) = (if ?R = {i} then (locks (tab s))(?k := None) else locks (tab s))"
    "nextLock (tab ?s) = nextLock (tab s)"
    "refs (objs (tab ?s) l') = (if l' = l then refs (objs (tab s) l) - 1 else refs (objs (tab s) l'))" for l'
    using gone by (auto simp: lock_release_def Let_def)
  show ?thesis
  proof (rule tab_invI)
    show "\<exists>j. refers (wpcs ?s j) = Some (k', l')" if a: "locks (tab ?s) k' = Some l'" for k' l'
    proof -
      have s: "locks (tab s) k' = Some l'" using a T(1) by (auto split: if_splits)
      have "\<exists>j. j \<noteq> i \<and> refers (wpcs s j) = Some (k', l')"
      proof (cases "l' = l")
        case True
        then have k: "k' = ?k" using s l(1) tab_invD(5) [OF inv] by blast
        then have "?R \<noteq> {i}" using a T(1) by auto
        then obtain j k'' where j: "j \<noteq> i" "refers (wpcs s j) = Some (k'', l)"
          using i by (auto simp: referrers_def)
        then have "k'' = ?k" using tab_invD(2) [OF inv] tab_invD(5) [OF inv] l(1) by blast
        then show ?thesis using j True k by auto
      next
        case False
        then show ?thesis using tab_invD(1) [OF inv s] pc by force
      qed
      then show ?thesis by auto
    qed
    show "locks (tab ?s) k' = Some l' \<and> l' < nextLock (tab ?s) \<and> \<not> nan k'"
      if "refers (wpcs ?s j) = Some (k', l')" for j k' l'
    proof -
      have j: "j \<noteq> i" "refers (wpcs s j) = Some (k', l')" using that by (auto split: if_splits)
      have "?R \<noteq> {i}" if "k' = ?k"
      proof -
        have "l' = l" using tab_invD(2) [OF inv j(2)] that l(1) by simp
        then have "j \<in> ?R" using j(2) by (auto simp: referrers_def)
        then show ?thesis using j(1) by auto
      qed
      then show ?thesis using T tab_invD(2) [OF inv j(2)] by auto
    qed
    show "finite (referrers ?s l')" for l'
      unfolding R using tab_invD(3) [OF inv] by simp
    show "refs (objs (tab ?s) l') = card (referrers ?s l')" if "l' < nextLock (tab ?s)" for l'
      using that n i fin tab_invD(4) [OF inv] unfolding T(2,3) R by simp
    show "k1 = k2" if "locks (tab ?s) k1 = Some l'" "locks (tab ?s) k2 = Some l'" for k1 k2 l'
      using that T(1) tab_invD(5) [OF inv] by (auto split: if_splits)
  qed
qed

lemma wstep_tab_inv: "wstep cause nan hasDeleter s s' \<Longrightarrow> tab_inv nan s \<Longrightarrow> tab_inv nan s'"
proof (induction rule: wstep.induct)
  case (enter s i op l T)
  then show ?case by (intro tab_inv_enter)
next
  case (release s i op l e)
  then show ?case by (intro tab_inv_release)
qed (erule tab_inv_cong; simp add: lock_send_def unlock_recv_def)+

text \<open>Holders.\<close>

lemma hold_invD:
  assumes "hold_inv nan s"
  shows "holds (wpcs s i) = Some l \<Longrightarrow> holds (wpcs s j) = Some l \<Longrightarrow> i = j"
    and "l < nextLock (tab s) \<Longrightarrow> ch (objs (tab s) l) \<longleftrightarrow> (\<exists>i. holds (wpcs s i) = Some l)"
    and "in_section (wpcs s i) = Some op \<Longrightarrow> holds (wpcs s i) = None \<Longrightarrow> nan (wkey op)"
  using assms unfolding hold_inv_def by blast+

lemma hold_invI:
  assumes "\<And>i j l. holds (wpcs s i) = Some l \<Longrightarrow> holds (wpcs s j) = Some l \<Longrightarrow> i = j"
    and "\<And>l. l < nextLock (tab s) \<Longrightarrow> ch (objs (tab s) l) \<longleftrightarrow> (\<exists>i. holds (wpcs s i) = Some l)"
    and "\<And>i op. in_section (wpcs s i) = Some op \<Longrightarrow> holds (wpcs s i) = None \<Longrightarrow> nan (wkey op)"
  shows "hold_inv nan s"
  using assms unfolding hold_inv_def by blast

lemma hold_inv_cong:
  assumes "hold_inv nan s" and "\<And>j. holds (wpcs s' j) = holds (wpcs s j)"
    and "\<And>j op. in_section (wpcs s' j) = Some op \<Longrightarrow> holds (wpcs s' j) = None \<Longrightarrow>
      in_section (wpcs s j) = Some op \<or> nan (wkey op)"
    and "nextLock (tab s') = nextLock (tab s)" and "\<And>l. ch (objs (tab s') l) = ch (objs (tab s) l)"
  shows "hold_inv nan s'"
proof (rule hold_invI)
  show "a = b" if "holds (wpcs s' a) = Some l" "holds (wpcs s' b) = Some l" for a b l
    using that hold_invD(1) [OF assms(1)] unfolding assms(2) by blast
  show "ch (objs (tab s') l) \<longleftrightarrow> (\<exists>j. holds (wpcs s' j) = Some l)" if "l < nextLock (tab s')" for l
    using that hold_invD(2) [OF assms(1)] unfolding assms(2,4,5) by blast
  show "nan (wkey op)" if "in_section (wpcs s' j) = Some op" "holds (wpcs s' j) = None" for j op
    using assms(3) [OF that] that(2) hold_invD(3) [OF assms(1)] unfolding assms(2) by blast
qed

lemma holds_bound:
  assumes "tab_inv nan s" and "holds (wpcs s i) = Some l"
  shows "l < nextLock (tab s)"
proof -
  from holds_refers [OF assms(2)] obtain k where "refers (wpcs s i) = Some (k, l)" ..
  from tab_invD(2) [OF assms(1) this] show ?thesis by simp
qed

lemma hold_inv_enter:
  assumes inv: "hold_inv nan s" "tab_inv nan s" and pc: "wpcs s i = Enter op"
    and e: "lock_enter (wkey op) (tab s) = (l, T)"
  shows "hold_inv nan (wgo (s\<lparr>tab := T\<rparr>) i (Trying op l))" (is "hold_inv nan ?s")
proof (rule hold_invI)
  have h: "holds (wpcs ?s j) = holds (wpcs s j)" "in_section (wpcs ?s j) = in_section (wpcs s j)" for j
    using pc by simp_all
  show "a = b" if "holds (wpcs ?s a) = Some l'" "holds (wpcs ?s b) = Some l'" for a b l'
    using that hold_invD(1) [OF inv(1)] unfolding h by blast
  show "nan (wkey op')" if "in_section (wpcs ?s j) = Some op'" "holds (wpcs ?s j) = None" for j op'
    using that hold_invD(3) [OF inv(1)] unfolding h by blast
  show "ch (objs (tab ?s) l') \<longleftrightarrow> (\<exists>j. holds (wpcs ?s j) = Some l')" if "l' < nextLock (tab ?s)" for l'
  proof (cases "l' < nextLock (tab s)")
    case True
    then have "ch (objs T l') = ch (objs (tab s) l')"
      using e by (auto simp: lock_enter_def split: option.splits if_splits)
    with True show ?thesis unfolding h using hold_invD(2) [OF inv(1)] by simp
  next
    case False
    then have "\<not> ch (objs T l')" using that e by (auto simp: lock_enter_def split: option.splits)
    moreover have "holds (wpcs s j) \<noteq> Some l'" for j
      using False holds_bound [OF inv(2)] by blast
    ultimately show ?thesis unfolding h by simp
  qed
qed

lemma hold_inv_acquire:
  assumes inv: "hold_inv nan s" "tab_inv nan s"
    and pc: "holds (wpcs s i) = None" "refers (wpcs s i) = Some (wkey op, l)"
    and free: "\<not> ch (objs (tab s) l)"
  shows "hold_inv nan (wgo (s\<lparr>tab := lock_send l (tab s)\<rparr>) i (Writing op (Some l)))"
proof -
  have l: "l < nextLock (tab s)" using tab_invD(2) [OF inv(2) pc(2)] by simp
  then have none: "holds (wpcs s j) \<noteq> Some l" for j using hold_invD(2) [OF inv(1)] free by blast
  let ?s = "wgo (s\<lparr>tab := lock_send l (tab s)\<rparr>) i (Writing op (Some l))"
  have h: "holds (wpcs ?s j) = (if j = i then Some l else holds (wpcs s j))" for j by simp
  show ?thesis
  proof (rule hold_invI)
    show "a = b" if "holds (wpcs ?s a) = Some l'" "holds (wpcs ?s b) = Some l'" for a b l'
      using that none hold_invD(1) [OF inv(1)] unfolding h by (auto split: if_splits)
    show "ch (objs (tab ?s) l') \<longleftrightarrow> (\<exists>j. holds (wpcs ?s j) = Some l')" if "l' < nextLock (tab ?s)" for l'
    proof (cases "l' = l")
      case True
      then show ?thesis unfolding h by (auto simp: lock_send_def)
    next
      case False
      then have "ch (objs (tab ?s) l') \<longleftrightarrow> (\<exists>j. holds (wpcs s j) = Some l')"
        using that hold_invD(2) [OF inv(1), of l'] by (simp add: lock_send_def)
      moreover have "holds (wpcs s i) \<noteq> Some l'" using pc by simp
      ultimately show ?thesis unfolding h using False by (metis option.inject)
    qed
    show "nan (wkey op')" if "in_section (wpcs ?s j) = Some op'" "holds (wpcs ?s j) = None" for j op'
      using that hold_invD(3) [OF inv(1), of j op'] by (auto split: if_splits)
  qed
qed

lemma hold_inv_unlock:
  assumes inv: "hold_inv nan s" and pc: "wpcs s i = Unlocking op (Some l) e"
  shows "hold_inv nan (wgo (s\<lparr>tab := unlock_recv l (tab s)\<rparr>) i (Releasing op l e))"
proof -
  have only: "holds (wpcs s j) = Some l \<Longrightarrow> j = i" for j
    using hold_invD(1) [OF inv, of j l i] pc by simp
  let ?s = "wgo (s\<lparr>tab := unlock_recv l (tab s)\<rparr>) i (Releasing op l e)"
  have h: "holds (wpcs ?s j) = (if j = i then None else holds (wpcs s j))" for j by simp
  show ?thesis
  proof (rule hold_invI)
    show "a = b" if "holds (wpcs ?s a) = Some l'" "holds (wpcs ?s b) = Some l'" for a b l'
      using that hold_invD(1) [OF inv] unfolding h by (auto split: if_splits)
    show "ch (objs (tab ?s) l') \<longleftrightarrow> (\<exists>j. holds (wpcs ?s j) = Some l')" if "l' < nextLock (tab ?s)" for l'
    proof (cases "l' = l")
      case True
      then show ?thesis unfolding h using only by (auto simp: unlock_recv_def)
    next
      case False
      then have "ch (objs (tab ?s) l') \<longleftrightarrow> (\<exists>j. holds (wpcs s j) = Some l')"
        using that hold_invD(2) [OF inv, of l'] by (simp add: unlock_recv_def)
      moreover have "holds (wpcs s i) \<noteq> Some l'" using False pc by simp
      ultimately show ?thesis unfolding h by (metis option.distinct(1))
    qed
    show "nan (wkey op')" if "in_section (wpcs ?s j) = Some op'" "holds (wpcs ?s j) = None" for j op'
      using that hold_invD(3) [OF inv, of j op'] by (auto split: if_splits)
  qed
qed

lemma wstep_hold_inv:
  "wstep cause nan hasDeleter s s' \<Longrightarrow> tab_inv nan s \<Longrightarrow> hold_inv nan s \<Longrightarrow> hold_inv nan s'"
proof (induction rule: wstep.induct)
  case (enter s i op l T)
  then show ?case by (intro hold_inv_enter)
next
  case (try_ok s i op l)
  then show ?case by (intro hold_inv_acquire) simp_all
next
  case (block_ok s i op l)
  then show ?case by (intro hold_inv_acquire) simp_all
next
  case (unlock s i op l e)
  then show ?case by (intro hold_inv_unlock)
qed (erule hold_inv_cong; auto simp: lock_release_def Let_def split: if_splits)+

text \<open>Two critical sections of one key are one.\<close>

lemma section_exclusive:
  assumes "tab_inv nan s" and "hold_inv nan s"
    and "in_section (wpcs s i) = Some op" and "in_section (wpcs s j) = Some op'"
    and "wkey op = wkey op'" and "\<not> nan (wkey op)"
  shows "i = j"
proof -
  obtain l l' where l: "holds (wpcs s i) = Some l" "holds (wpcs s j) = Some l'"
    using hold_invD(3) [OF assms(2)] assms(3-6) by (metis not_Some_eq)
  then have "locks (tab s) (wkey op) = Some l" "locks (tab s) (wkey op) = Some l'"
    using tab_invD(2) [OF assms(1)] section_refers assms(3-5) by metis+
  then show ?thesis using l hold_invD(1) [OF assms(2)] by auto
qed

section \<open>Store and front\<close>

fun fronting :: "('k, 'v) wpc \<Rightarrow> ('k, 'v) wop option" where
  "fronting (Fronting op lo) = Some op"
| "fronting _ = None"

lemma fronting_section: "fronting p = Some op \<Longrightarrow> in_section p = Some op"
  by (cases p) auto

text \<open>What a goroutine between the two writes knows of the store.\<close>

fun stored :: "bool \<Rightarrow> ('k, 'v) wop \<Rightarrow> ('k \<rightharpoonup> 'v) \<Rightarrow> bool" where
  "stored hasDeleter (WSet k v) st \<longleftrightarrow> st k = Some v"
| "stored hasDeleter (WDel k) st \<longleftrightarrow> hasDeleter \<longrightarrow> st k = None"

definition data_inv :: "('k \<Rightarrow> bool) \<Rightarrow> bool \<Rightarrow> ('k, 'v) wsys \<Rightarrow> bool" where
  "data_inv nan hasDeleter s \<longleftrightarrow>
     (\<forall>k. \<not> nan k \<longrightarrow> k \<notin> doubtful s \<longrightarrow> cfront s k = None \<or> cfront s k = store s k \<or>
        (\<exists>i op. fronting (wpcs s i) = Some op \<and> wkey op = k)) \<and>
     (\<forall>i op. fronting (wpcs s i) = Some op \<longrightarrow> \<not> nan (wkey op) \<longrightarrow> stored hasDeleter op (store s))"

lemma data_invD:
  assumes "data_inv nan hasDeleter s"
  shows "\<not> nan k \<Longrightarrow> k \<notin> doubtful s \<Longrightarrow> cfront s k = None \<or> cfront s k = store s k \<or>
      (\<exists>i op. fronting (wpcs s i) = Some op \<and> wkey op = k)"
    and "fronting (wpcs s i) = Some op \<Longrightarrow> \<not> nan (wkey op) \<Longrightarrow> stored hasDeleter op (store s)"
  using assms unfolding data_inv_def by blast+

lemma data_inv_cong:
  assumes "data_inv nan hasDeleter s" and "\<And>j. fronting (wpcs s' j) = fronting (wpcs s j)"
    and "store s' = store s" and "\<And>k. cfront s' k = None \<or> cfront s' k = cfront s k" and "doubtful s' = doubtful s"
  shows "data_inv nan hasDeleter s'"
  unfolding data_inv_def assms(2,3,5)
proof (intro conjI allI impI)
  show "cfront s' k = None \<or> cfront s' k = store s k \<or>
      (\<exists>i op. fronting (wpcs s i) = Some op \<and> wkey op = k)" if "\<not> nan k" "k \<notin> doubtful s" for k
    using data_invD(1) [OF assms(1) that] assms(4) [of k] by auto
qed (rule data_invD(2) [OF assms(1)])

lemma stored_apply: "stored hasDeleter op (apply_store hasDeleter op st)"
  by (cases op) auto

lemma stored_cong: "st (wkey op) = st' (wkey op) \<Longrightarrow> stored d op st \<Longrightarrow> stored d op st'"
  by (cases op) auto

lemma apply_other:
  "k \<noteq> wkey op \<Longrightarrow> apply_store d op st k = st k" "k \<noteq> wkey op \<Longrightarrow> apply_front op fr k = fr k"
  by (cases op; simp)+

lemma front_matches:
  "stored d op st \<Longrightarrow> apply_front op fr (wkey op) = None \<or> apply_front op fr (wkey op) = st (wkey op)"
  by (cases op) auto

text \<open>A step in the critical section of a key need only account for that key.\<close>

lemma data_inv_section:
  assumes inv: "tab_inv nan s" "hold_inv nan s" "data_inv nan hasDeleter s"
    and pc: "in_section (wpcs s i) = Some op" and pcs: "wpcs s' = (wpcs s)(i := q)"
    and apart: "\<And>k. k \<noteq> wkey op \<Longrightarrow>
      store s' k = store s k \<and> cfront s' k = cfront s k \<and> (k \<in> doubtful s' \<longleftrightarrow> k \<in> doubtful s)"
    and own: "\<not> nan (wkey op) \<Longrightarrow> wkey op \<notin> doubtful s' \<Longrightarrow>
      cfront s' (wkey op) = None \<or> cfront s' (wkey op) = store s' (wkey op) \<or> fronting q = Some op"
    and fronts: "\<And>op'. fronting q = Some op' \<Longrightarrow> op' = op \<and> stored hasDeleter op (store s')"
  shows "data_inv nan hasDeleter s'"
  unfolding data_inv_def
proof (intro conjI allI impI)
  fix k assume k: "\<not> nan k" "k \<notin> doubtful s'"
  show "cfront s' k = None \<or> cfront s' k = store s' k \<or>
      (\<exists>j op'. fronting (wpcs s' j) = Some op' \<and> wkey op' = k)"
  proof (cases "k = wkey op")
    case True
    have "fronting q = Some op \<Longrightarrow> fronting (wpcs s' i) = Some op" by (simp add: pcs)
    then show ?thesis using own k True by blast
  next
    case False
    then have "k \<notin> doubtful s" using apart k(2) by blast
    then consider "cfront s k = None \<or> cfront s k = store s k"
      | j op' where "fronting (wpcs s j) = Some op'" "wkey op' = k"
      using data_invD(1) [OF inv(3) k(1)] by blast
    then show ?thesis
    proof cases
      case 1
      then show ?thesis using apart [OF False] by auto
    next
      case 2
      then have "j \<noteq> i" using pc False fronting_section by fastforce
      then have "fronting (wpcs s' j) = Some op'" using 2 by (simp add: pcs)
      then show ?thesis using 2 by blast
    qed
  qed
next
  fix j op' assume f: "fronting (wpcs s' j) = Some op'" "\<not> nan (wkey op')"
  show "stored hasDeleter op' (store s')"
  proof (cases "j = i")
    case True
    then show ?thesis using f(1) fronts by (simp add: pcs)
  next
    case False
    then have f': "fronting (wpcs s j) = Some op'" using f(1) by (simp add: pcs)
    have "wkey op' \<noteq> wkey op"
      using section_exclusive [OF inv(1,2) fronting_section [OF f'] pc] f(2) False by auto
    then have "store s (wkey op') = store s' (wkey op')" using apart by simp
    then show ?thesis using data_invD(2) [OF inv(3) f' f(2)] by (rule stored_cong)
  qed
qed

lemma wstep_data_inv:
  "wstep cause nan hasDeleter s s' \<Longrightarrow> tab_inv nan s \<Longrightarrow> hold_inv nan s \<Longrightarrow>
     data_inv nan hasDeleter s \<Longrightarrow> data_inv nan hasDeleter s'"
proof (induction rule: wstep.induct)
  case (write_ok s i op lo)
  then show ?case
    by (intro data_inv_section [OF write_ok(2-4), where i = i and op = op and q = "Fronting op lo"]) (simp_all add: apply_other stored_apply)
next
  case (write_half s i op lo r x)
  then show ?case by (intro data_inv_section [OF write_half(4-6), where i = i and op = op and q = "Unlocking op lo r"]) simp_all
next
  case (write_front s i op lo)
  then have "\<not> nan (wkey op) \<Longrightarrow> stored hasDeleter op (store s)"
    using data_invD(2) [OF write_front(4), of i op] by simp
  then show ?case
    using write_front(1) front_matches [of hasDeleter op "store s" "cfront s"]
    by (intro data_inv_section [OF write_front(2-4), where i = i and op = op and q = "Unlocking op lo WOk"]) (auto simp: apply_other)
next
  case (front_fail s i op lo r x)
  then show ?case by (intro data_inv_section [OF front_fail(3-5), where i = i and op = op and q = "Unlocking op lo r"]) simp_all
qed (erule data_inv_cong; simp)+

lemma wreach_inv:
  "wreach cause nan hasDeleter s \<Longrightarrow>
     tab_inv nan s \<and> hold_inv nan s \<and> data_inv nan hasDeleter s"
proof (induction rule: wreach.induct)
  case (wreach_init s)
  then show ?case by (simp add: tab_inv_def hold_inv_def data_inv_def referrers_def)
next
  case (wreach_step s s')
  then show ?case using wstep_tab_inv wstep_hold_inv wstep_data_inv by metis
qed

section \<open>An example run\<close>

text \<open>Goroutine 0 holds key 5 and writes 9; goroutine 1 waits to delete it.\<close>

definition wsys0 :: "(nat, nat) wsys" where
  "wsys0 = \<lparr>tab = \<lparr>locks = Map.empty, objs = (\<lambda>_. \<lparr>ch = False, refs = 0\<rparr>), nextLock = 0\<rparr>,
     store = Map.empty, cfront = Map.empty, wended = (\<lambda>_. False), wpcs = (\<lambda>_. WIdle),
     doubtful = {}\<rparr>"

definition wsys_held :: "(nat, nat) wsys" where
  "wsys_held = wsys0\<lparr>tab := \<lparr>locks = [5 \<mapsto> 0], objs = (\<lambda>_. \<lparr>ch = False, refs = 0\<rparr>)
        (0 := \<lparr>ch = True, refs = 1\<rparr>), nextLock = 1\<rparr>,
     wpcs := (\<lambda>_. WIdle)(0 := Writing (WSet 5 9) (Some 0))\<rparr>"

definition wsys_blocked :: "(nat, nat) wsys" where
  "wsys_blocked = wsys0\<lparr>tab := \<lparr>locks = [5 \<mapsto> 0], objs = (\<lambda>_. \<lparr>ch = False, refs = 0\<rparr>)
        (0 := \<lparr>ch = True, refs = 2\<rparr>), nextLock = 1\<rparr>,
     wpcs := (\<lambda>_. WIdle)(0 := Writing (WSet 5 9) (Some 0), 1 := Blocked (WDel 5) 0)\<rparr>"

lemma wreach_held: "wreach cause (\<lambda>_. False) d wsys_held"
proof -
  have r0: "wreach cause (\<lambda>_. False) d wsys0" by (rule wreach_init) (simp_all add: wsys0_def)
  have r1: "wreach cause (\<lambda>_. False) d (wgo wsys0 0 (Enter (WSet 5 9)))"
    by (rule wreach_step [OF r0 w_call]) (simp add: wsys0_def)
  have "wreach cause (\<lambda>_. False) d
     (wgo (wsys0\<lparr>tab := snd (lock_enter 5 (tab wsys0))\<rparr>) 0 (Trying (WSet 5 9) 0))"
    using wreach_step [OF r1 enter [of _ 0 "WSet 5 9" _ 0 "snd (lock_enter 5 (tab wsys0))"]]
    by (simp add: wsys0_def lock_enter_def)
  from wreach_step [OF this try_ok [of _ 0 "WSet 5 9" 0]] show ?thesis
    by (simp add: wsys0_def wsys_held_def lock_enter_def lock_send_def)
qed

lemma wreach_blocked: "wreach cause (\<lambda>_. False) d wsys_blocked"
proof -
  have r1: "wreach cause (\<lambda>_. False) d (wgo wsys_held 1 (Enter (WDel 5)))"
    by (rule wreach_step [OF wreach_held w_call]) (simp add: wsys_held_def wsys0_def)
  have "wreach cause (\<lambda>_. False) d
     (wgo (wsys_held\<lparr>tab := snd (lock_enter 5 (tab wsys_held))\<rparr>) 1 (Trying (WDel 5) 0))"
    using wreach_step [OF r1 enter [of _ 1 "WDel 5" _ 0 "snd (lock_enter 5 (tab wsys_held))"]]
    by (simp add: wsys_held_def lock_enter_def)
  from wreach_step [OF this try_default [of _ 1 "WDel 5" 0]] show ?thesis
    by (simp add: wsys0_def wsys_held_def wsys_blocked_def lock_enter_def numeral_2_eq_2)
qed

text \<open>
  A front call that fails after the write leaves an old value in the front: the front and the
  store of key 5 have 1, the writer stores 9, the front refuses it, and the call returns the
  error with nothing left that would repair the front.
\<close>

lemma front_failure_leaves_stale:
  "\<exists>s. wreach cause (\<lambda>_. False) d s \<and> wpcs s = (\<lambda>_. WIdle)(0 := WReturned (WSet (5::nat) (9::nat)) (WErr e)) \<and>
     locks (tab s) = Map.empty \<and> cfront s 5 = Some 1 \<and> store s 5 = Some 9"
proof -
  let ?op = "WSet (5::nat) (9::nat)" and ?w = "\<lambda>p. (\<lambda>_. WIdle)(0 := p) :: nat \<Rightarrow> (nat, nat) wpc"
  let ?objs = "\<lambda>c n. (\<lambda>_. \<lparr>ch = False, refs = 0\<rparr>)(0 := \<lparr>ch = c, refs = n\<rparr>) :: nat \<Rightarrow> keyLock"
  let ?s = "wsys0\<lparr>store := [5 \<mapsto> 1], cfront := [5 \<mapsto> 1]\<rparr>"
  let ?t = "\<lambda>c p. ?s\<lparr>tab := \<lparr>locks = [5 \<mapsto> 0], objs = ?objs c 1, nextLock = 1\<rparr>, wpcs := ?w p\<rparr>"
  let ?u = "\<lambda>c p. (?t c p)\<lparr>store := [5 \<mapsto> 9], doubtful := {5}\<rparr>"
  have r0: "wreach cause (\<lambda>_. False) d ?s" by (rule wreach_init) (simp_all add: wsys0_def)
  have r1: "wreach cause (\<lambda>_. False) d (?s\<lparr>wpcs := ?w (Enter ?op)\<rparr>)"
    using wreach_step [OF r0 w_call [of _ 0 cause _ d ?op]] by (simp add: wsys0_def)
  have r2: "wreach cause (\<lambda>_. False) d (?t False (Trying ?op 0))"
    using wreach_step [OF r1 enter [of _ 0 ?op _ 0 "snd (lock_enter 5 (tab wsys0))"]]
    by (simp add: wsys0_def lock_enter_def)
  have r3: "wreach cause (\<lambda>_. False) d (?t True (Writing ?op (Some 0)))"
    using wreach_step [OF r2 try_ok [of _ 0 ?op 0]] by (simp add: wsys0_def lock_send_def)
  have r4: "wreach cause (\<lambda>_. False) d ((?t True (Fronting ?op (Some 0)))\<lparr>store := [5 \<mapsto> 9]\<rparr>)"
    using wreach_step [OF r3 write_ok [of _ 0 ?op "Some 0"]] by (simp add: wsys0_def)
  have r5: "wreach cause (\<lambda>_. False) d (?u True (Unlocking ?op (Some 0) (WErr e)))"
    using wreach_step [OF r4 front_fail [of _ 0 ?op "Some 0" "WErr e" cause _ d "Some 1"]]
    by (simp add: wsys0_def fun_upd_idem)
  have r6: "wreach cause (\<lambda>_. False) d (?u False (Releasing ?op 0 (WErr e)))"
    using wreach_step [OF r5 unlock [of _ 0 ?op 0 "WErr e"]] by (simp add: wsys0_def unlock_recv_def)
  have "wreach cause (\<lambda>_. False) d ((?u False (WReturned ?op (WErr e)))\<lparr>tab := \<lparr>locks = Map.empty, objs = ?objs False 0, nextLock = 1\<rparr>\<rparr>)"
    using wreach_step [OF r6 release [of _ 0 ?op 0 "WErr e"]] by (simp add: wsys0_def lock_release_def)
  then show ?thesis by (intro exI conjI) (assumption, simp_all add: wsys0_def)
qed

lemma acquire_steps:
  assumes "wpcs s i = Blocked op l" and "\<not> ch (objs (tab s) l)"
  shows "\<exists>s'. (wstep cause nan d)\<^sup>*\<^sup>* s s' \<and> wpcs s' i = Writing op (Some l)"
  by (rule exI, rule conjI, rule r_into_rtranclp, rule block_ok [OF assms]) simp

lemma unlock_steps:
  assumes "wpcs s i = Blocked op l" and "wpcs s j = Unlocking op' (Some l) e" and "ch (objs (tab s) l)"
  shows "\<exists>s'. (wstep cause nan d)\<^sup>*\<^sup>* s s' \<and> wpcs s' i = Writing op (Some l)"
proof -
  let ?s = "wgo (s\<lparr>tab := unlock_recv l (tab s)\<rparr>) j (Releasing op' l e)"
  have "j \<noteq> i" using assms by auto
  then have "wpcs ?s i = Blocked op l" "\<not> ch (objs (tab ?s) l)"
    using assms(1) by (auto simp: unlock_recv_def)
  from acquire_steps [OF this] show ?thesis
    using unlock [OF assms(2,3)] by (meson converse_rtranclp_into_rtranclp)
qed

lemma front_steps:
  assumes "wpcs s i = Blocked op l" and "wpcs s j = Fronting op' (Some l)" and "ch (objs (tab s) l)"
  shows "\<exists>s'. (wstep cause nan d)\<^sup>*\<^sup>* s s' \<and> wpcs s' i = Writing op (Some l)"
proof -
  let ?s = "wgo (s\<lparr>cfront := apply_front op' (cfront s), doubtful := doubtful s - {wkey op'}\<rparr>) j
    (Unlocking op' (Some l) WOk)"
  have "j \<noteq> i" using assms by auto
  then have "wpcs ?s i = Blocked op l" "wpcs ?s j = Unlocking op' (Some l) WOk" "ch (objs (tab ?s) l)"
    using assms by auto
  from unlock_steps [OF this] show ?thesis
    using write_front [OF assms(2)] by (meson converse_rtranclp_into_rtranclp)
qed

lemma write_steps:
  assumes "wpcs s i = Blocked op l" and "wpcs s j = Writing op' (Some l)" and "ch (objs (tab s) l)"
  shows "\<exists>s'. (wstep cause nan d)\<^sup>*\<^sup>* s s' \<and> wpcs s' i = Writing op (Some l)"
proof -
  let ?s = "wgo (s\<lparr>store := apply_store d op' (store s)\<rparr>) j (Fronting op' (Some l))"
  have "j \<noteq> i" using assms by auto
  then have "wpcs ?s i = Blocked op l" "wpcs ?s j = Fronting op' (Some l)" "ch (objs (tab ?s) l)"
    using assms by auto
  from front_steps [OF this] show ?thesis
    using write_ok [OF assms(2)] by (meson converse_rtranclp_into_rtranclp)
qed

section \<open>Properties\<close>

text \<open>
  C8. Store and front end in the same state. In every reachable state of any number of
  concurrent writes and deletes, of which some give up, fail or panic, take a key (not NaN)
  that no goroutine has written to the store but not yet to the front, and for which no call
  has failed halfway since its last complete write. The key is absent from the front or has
  there the value of the store.
\<close>

theorem front_agrees_with_store:
  assumes "wreach cause nan d s" and "\<not> nan k" and "k \<notin> doubtful s"
    and "\<And>i op lo. wpcs s i = Fronting op lo \<Longrightarrow> wkey op \<noteq> k"
  shows "cfront s k = None \<or> cfront s k = store s k"
proof -
  have "data_inv nan d s" using wreach_inv [OF assms(1)] by simp
  from data_invD(1) [OF this assms(2,3)] show ?thesis
    using assms(4) by (auto elim!: fronting.elims)
qed

theorem front_agrees_with_store_witness:
  "cfront wsys_blocked 5 = None \<or> cfront wsys_blocked 5 = store wsys_blocked 5"
  by (rule front_agrees_with_store [OF wreach_blocked [of "\<lambda>_. Canceled" True]])
    (auto simp: wsys_blocked_def wsys0_def split: if_splits)

text \<open>
  Writes and deletes of one key exclude each other. In every reachable state at most one
  goroutine is between the start of its writer or deleter call and the end of its front call
  for a given key that is not NaN.
\<close>

lemma key_lock_exclusive:
  assumes "wreach cause nan d s" and "\<not> nan k"
    and "in_section (wpcs s i) = Some op" and "wkey op = k"
    and "in_section (wpcs s j) = Some op'" and "wkey op' = k"
  shows "i = j \<and> op = op'"
  using section_exclusive [of nan s i op j op'] wreach_inv [OF assms(1)] assms(2-) by auto

text \<open>An entry exists exactly while it is used, and counts its users.\<close>

lemma key_locks_do_not_leak:
  assumes "wreach cause nan d s"
  shows "(locks (tab s) k = None \<longleftrightarrow> (\<nexists>i l. refers (wpcs s i) = Some (k, l))) \<and>
    (case locks (tab s) k of None \<Rightarrow> True
     | Some l \<Rightarrow> refs (objs (tab s) l) = card (referrers s l) \<and> refs (objs (tab s) l) > 0)"
proof -
  have inv: "tab_inv nan s" using wreach_inv [OF assms] by simp
  show ?thesis
  proof (cases "locks (tab s) k")
    case None
    then show ?thesis using tab_invD(2) [OF inv] by fastforce
  next
    case (Some l)
    from tab_invD(1) [OF inv Some] obtain i where i: "refers (wpcs s i) = Some (k, l)" ..
    then have "i \<in> referrers s l" by (auto simp: referrers_def)
    then have "card (referrers s l) > 0" using tab_invD(3) [OF inv] card_gt_0_iff by blast
    moreover have "l < nextLock (tab s)" using tab_invD(2) [OF inv i] by simp
    ultimately show ?thesis using Some i tab_invD(4) [OF inv] by auto
  qed
qed

text \<open>
  C9. The key locks exclude and do not leak. In every reachable state at most one goroutine
  is between the start of its writer or deleter call and the end of its front call for a key
  that is not NaN; and a key has an entry in the map of locks exactly while some goroutine
  uses or waits for it, the count of its keyLock being the number of those goroutines, also
  when waiters gave up because their context ended and when calls failed or panicked.
\<close>

theorem key_locks_sound:
  assumes "wreach cause nan d s"
  shows "(locks (tab s) k = None \<longleftrightarrow> (\<nexists>i l. refers (wpcs s i) = Some (k, l))) \<and>
    (case locks (tab s) k of None \<Rightarrow> True
     | Some l \<Rightarrow> refs (objs (tab s) l) = card (referrers s l) \<and> refs (objs (tab s) l) > 0) \<and>
    (\<not> nan k \<longrightarrow> (\<forall>i j op op'. in_section (wpcs s i) = Some op \<and> wkey op = k \<and>
       in_section (wpcs s j) = Some op' \<and> wkey op' = k \<longrightarrow> i = j \<and> op = op'))"
  using key_locks_do_not_leak [OF assms, of k] key_lock_exclusive [OF assms, of k] by blast

theorem key_locks_sound_witness:
  "refs (objs (tab wsys_blocked) 0) = card (referrers wsys_blocked 0) \<and> locks (tab wsys_blocked) 4 = None \<and>
     {(i, op). in_section (wpcs wsys_blocked i) = Some op \<and> wkey op = 5} = {(0, WSet 5 9)}"
proof -
  note r = wreach_blocked [of "\<lambda>_. Canceled" True]
  have h: "in_section (wpcs wsys_blocked 0) = Some (WSet 5 9) \<and> wkey (WSet 5 9) = (5::nat)" by (simp add: wsys_blocked_def)
  have "i = 0 \<and> op = WSet 5 9" if "in_section (wpcs wsys_blocked i) = Some op" "wkey op = 5" for i op
    using key_locks_sound [OF r, of 5] that h by blast
  with h have "{(i, op). in_section (wpcs wsys_blocked i) = Some op \<and> wkey op = 5} = {(0, WSet 5 9)}" by blast
  moreover have "refs (objs (tab wsys_blocked) 0) = card (referrers wsys_blocked 0)"
    using key_locks_sound [OF r, of 5] by (simp add: wsys_blocked_def wsys0_def split: if_splits)
  moreover have "locks (tab wsys_blocked) 4 = None"
    using key_locks_sound [OF r, of 4] by (auto simp: wsys_blocked_def wsys0_def split: if_splits)
  ultimately show ?thesis by blast
qed



end
