(* ===== verification/CacheRuns.thy ===== *)
theory CacheRuns
  imports CacheKeyLock CacheReadThroughConc
begin

text \<open>
  The two models of WriteThrough and of ReadThrough agree. CacheWriteThrough and
  CacheReadThrough have a call as a function on the world, with lock and Do as parameters;
  CacheKeyLock and CacheReadThroughConc have it as steps of a goroutine. Here a call of the
  functions that meets no other user of its key, or gives up waiting for one, is shown to be
  a run of the steps, by the goroutine that makes the call.
\<close>

section \<open>Writes and deletes\<close>

text \<open>SetContext or DeleteContext of WriteThrough, by the operation, with the error it returns.\<close>

fun wt_call ::
    "('w, 'k, 'v) writeThrough \<Rightarrow> 'w ctx \<Rightarrow> expiry \<Rightarrow> ('k, 'v) wop \<Rightarrow> 'w \<Rightarrow> gerr option \<times> 'w" where
  "wt_call t x ex (WSet k v) w = (case wt_set_context t x k v ex w of ((tm, e), w') \<Rightarrow> (e, w'))"
| "wt_call t x ex (WDel k) w = wt_delete_context t x k w"

definition result_of :: "gerr option \<Rightarrow> wres" where
  "result_of e = (case e of None \<Rightarrow> WOk | Some a \<Rightarrow> WErr a)"

lemma result_of_simps [simp]: "result_of None = WOk" "result_of (Some a) = WErr a"
  by (simp_all add: result_of_def)

definition key_free :: "('k \<Rightarrow> bool) \<Rightarrow> ('k, 'v) wsys \<Rightarrow> 'k \<Rightarrow> bool" where
  "key_free nan s k \<longleftrightarrow> nan k \<or> locks (tab s) k = None"

text \<open>
  What lock finds: nobody uses the key (or it is NaN), and lock succeeds; or the slot is
  taken and the context of i has ended, and lock fails with its cause.
\<close>

definition lock_agrees ::
    "(nat \<Rightarrow> gerr) \<Rightarrow> ('k \<Rightarrow> bool) \<Rightarrow> ('k, 'v) wsys \<Rightarrow> nat \<Rightarrow> 'k \<Rightarrow> gerr option \<Rightarrow> bool" where
  "lock_agrees cause nan s i k e \<longleftrightarrow>
     (case e of
        None \<Rightarrow> key_free nan s k
      | Some a \<Rightarrow> a = cause i \<and> wended s i \<and> \<not> nan k \<and>
          (\<exists>l. locks (tab s) k = Some l \<and> ch (objs (tab s) l) \<and> refs (objs (tab s) l) > 0))"

text \<open>
  From s goroutine i, idle, makes the call of op and returns with r; the store and the front
  become st and fr, and nothing changes for the other goroutines and in the map of locks.
\<close>

definition call_runs ::
    "(nat \<Rightarrow> gerr) \<Rightarrow> ('k \<Rightarrow> bool) \<Rightarrow> bool \<Rightarrow> ('k, 'v) wsys \<Rightarrow> nat \<Rightarrow> ('k, 'v) wop \<Rightarrow> wres \<Rightarrow>
      ('k \<rightharpoonup> 'v) \<Rightarrow> ('k \<rightharpoonup> 'v) \<Rightarrow> bool" where
  "call_runs cause nan d s i op r st fr \<longleftrightarrow>
     (\<exists>s'. (wstep cause nan d)\<^sup>*\<^sup>* s s' \<and> wpcs s' = (wpcs s)(i := WReturned op r) \<and>
        store s' = st \<and> cfront s' = fr \<and> locks (tab s') = locks (tab s) \<and> wended s' = wended s)"

text \<open>The lock of goroutine i at the start of its critical section, and the map with it.\<close>

definition taken :: "('k \<Rightarrow> bool) \<Rightarrow> 'k \<Rightarrow> 'k locktab \<Rightarrow> nat option \<Rightarrow> 'k locktab \<Rightarrow> bool" where
  "taken nan k T0 lo T \<longleftrightarrow>
     (if nan k then lo = None \<and> T = T0
      else locks T0 k = None \<and> (\<exists>l. lo = Some l \<and> locks T = (locks T0)(k \<mapsto> l) \<and>
        objs T l = \<lparr>ch = True, refs = 1\<rparr>))"

lemma wsteps_trans:
  "(wstep cause nan d)\<^sup>*\<^sup>* s s1 \<Longrightarrow> wstep cause nan d s1 s2 \<Longrightarrow> (wstep cause nan d)\<^sup>*\<^sup>* s s2"
  by (rule rtranclp.rtrancl_into_rtrancl)

lemma wstep_one: "wstep cause nan d s s' \<Longrightarrow> (wstep cause nan d)\<^sup>*\<^sup>* s s'"
  by (rule r_into_rtranclp)

lemma take_lock:
  assumes "wpcs s i = WIdle" and "key_free nan s (wkey op)"
  shows "\<exists>lo T. taken nan (wkey op) (tab s) lo T \<and>
    (wstep cause nan d)\<^sup>*\<^sup>* s (wgo (s\<lparr>tab := T\<rparr>) i (Writing op lo))"
proof -
  note free = assms(2) [unfolded key_free_def]
  let ?k = "wkey op" and ?s1 = "wgo s i (Enter op)"
  have 1: "wstep cause nan d s ?s1" by (rule w_call [OF assms(1)])
  show ?thesis
  proof (cases "nan ?k")
    case True
    have "wstep cause nan d ?s1 (wgo ?s1 i (Writing op None))"
      by (rule enter_nan) (use True in simp_all)
    moreover have "wgo ?s1 i (Writing op None) = wgo (s\<lparr>tab := tab s\<rparr>) i (Writing op None)" by simp
    ultimately show ?thesis
      using 1 True by (intro exI [of _ None] exI [of _ "tab s"]) (auto simp: taken_def)
  next
    case False
    let ?l = "nextLock (tab s)"
    let ?T = "snd (lock_enter ?k (tab s))" and ?s2 = "wgo ?s1 i (Trying op ?l)\<lparr>tab := snd (lock_enter ?k (tab s))\<rparr>"
    have e: "lock_enter ?k (tab s) = (?l, ?T)" using free False by (simp add: lock_enter_def)
    have 2: "wstep cause nan d ?s1 (wgo (?s1\<lparr>tab := ?T\<rparr>) i (Trying op ?l))"
      by (rule enter) (use e False in simp_all)
    let ?s3 = "wgo (?s1\<lparr>tab := ?T\<rparr>) i (Trying op ?l)"
    have t: "locks ?T = (locks (tab s))(?k \<mapsto> ?l)" "objs ?T ?l = \<lparr>ch = False, refs = 1\<rparr>"
      using free False by (simp_all add: lock_enter_def)
    have 3: "wstep cause nan d ?s3 (wgo (?s3\<lparr>tab := lock_send ?l (tab ?s3)\<rparr>) i (Writing op (Some ?l)))"
      by (rule try_ok) (use t in simp_all)
    have "wgo (?s3\<lparr>tab := lock_send ?l (tab ?s3)\<rparr>) i (Writing op (Some ?l)) =
        wgo (s\<lparr>tab := lock_send ?l ?T\<rparr>) i (Writing op (Some ?l))" by simp
    with 1 2 3 have "(wstep cause nan d)\<^sup>*\<^sup>* s (wgo (s\<lparr>tab := lock_send ?l ?T\<rparr>) i (Writing op (Some ?l)))"
      by (metis (no_types, lifting) rtranclp.simps)
    moreover have "taken nan ?k (tab s) (Some ?l) (lock_send ?l ?T)"
      using t False free by (auto simp: taken_def lock_send_def)
    ultimately show ?thesis by blast
  qed
qed

lemma drop_lock:
  assumes "wpcs s i = Unlocking op lo r" and "taken nan (wkey op) T0 lo (tab s)"
  shows "\<exists>T. locks T = locks T0 \<and> (wstep cause nan d)\<^sup>*\<^sup>* s (wgo (s\<lparr>tab := T\<rparr>) i (WReturned op r))"
proof (cases lo)
  case None
  then have "wstep cause nan d s (wgo s i (WReturned op r))" using unlock_nil assms(1) by metis
  moreover have "wgo (s\<lparr>tab := tab s\<rparr>) i (WReturned op r) = wgo s i (WReturned op r)" by simp
  moreover have "locks (tab s) = locks T0" using assms(2) None by (auto simp: taken_def split: if_splits)
  ultimately show ?thesis by (metis r_into_rtranclp)
next
  case (Some l)
  let ?s1 = "wgo (s\<lparr>tab := unlock_recv l (tab s)\<rparr>) i (Releasing op l r)"
  have t: "locks T0 (wkey op) = None" "locks (tab s) = (locks T0)(wkey op \<mapsto> l)"
    "objs (tab s) l = \<lparr>ch = True, refs = 1\<rparr>"
    using assms(2) Some by (auto simp: taken_def split: if_splits)
  have 1: "wstep cause nan d s ?s1" by (rule unlock) (use assms(1) Some t in simp_all)
  have 2: "wstep cause nan d ?s1 (wgo (?s1\<lparr>tab := lock_release (wkey op) l (tab ?s1)\<rparr>) i (WReturned op r))"
    by (rule release) simp
  have "wgo (?s1\<lparr>tab := lock_release (wkey op) l (tab ?s1)\<rparr>) i (WReturned op r) =
      wgo (s\<lparr>tab := lock_release (wkey op) l (unlock_recv l (tab s))\<rparr>) i (WReturned op r)" by simp
  with 1 2 have "(wstep cause nan d)\<^sup>*\<^sup>* s
      (wgo (s\<lparr>tab := lock_release (wkey op) l (unlock_recv l (tab s))\<rparr>) i (WReturned op r))"
    by (metis (no_types, lifting) rtranclp.simps)
  moreover have "locks (lock_release (wkey op) l (unlock_recv l (tab s))) = locks T0"
    using t by (auto simp: lock_release_def unlock_recv_def fun_eq_iff)
  ultimately show ?thesis by blast
qed

text \<open>The critical section: what happens between lock and unlock is one of four runs.\<close>

lemma call_runs_section:
  assumes idle: "wpcs s i = WIdle" and free: "key_free nan s (wkey op)"
    and body: "\<And>s0 lo. wpcs s0 i = Writing op lo \<Longrightarrow> store s0 = store s \<Longrightarrow> cfront s0 = cfront s \<Longrightarrow>
      \<exists>D. (wstep cause nan d)\<^sup>*\<^sup>* s0
        (wgo (s0\<lparr>store := st, cfront := fr, doubtful := D\<rparr>) i (Unlocking op lo r))"
  shows "call_runs cause nan d s i op r st fr"
proof -
  from take_lock [where cause = cause and d = d, OF idle free] obtain lo T
    where t: "taken nan (wkey op) (tab s) lo T"
      and 1: "(wstep cause nan d)\<^sup>*\<^sup>* s (wgo (s\<lparr>tab := T\<rparr>) i (Writing op lo))" (is "rtranclp _ _ ?s0") by blast
  have "wpcs ?s0 i = Writing op lo" "store ?s0 = store s" "cfront ?s0 = cfront s" by simp_all
  from body [OF this] obtain D where
    2: "(wstep cause nan d)\<^sup>*\<^sup>* ?s0 (wgo (?s0\<lparr>store := st, cfront := fr, doubtful := D\<rparr>) i (Unlocking op lo r))"
      (is "rtranclp _ _ ?s1") by blast
  have "wpcs ?s1 i = Unlocking op lo r" "taken nan (wkey op) (tab s) lo (tab ?s1)" using t by simp_all
  from drop_lock [where cause = cause and d = d, OF this] obtain T' where T': "locks T' = locks (tab s)"
      and 3: "(wstep cause nan d)\<^sup>*\<^sup>* ?s1 (wgo (?s1\<lparr>tab := T'\<rparr>) i (WReturned op r))" by blast
  show ?thesis
    unfolding call_runs_def
    using rtranclp_trans [OF rtranclp_trans [OF 1 2] 3] T' by (intro exI conjI) (assumption, simp_all)
qed

lemma give_up_runs:
  assumes idle: "wpcs s i = WIdle" and busy: "lock_agrees cause nan s i (wkey op) (Some a)"
  shows "call_runs cause nan d s i op (WErr a) (store s) (cfront s)"
proof -
  let ?k = "wkey op"
  from busy obtain l where l: "locks (tab s) ?k = Some l" "ch (objs (tab s) l)" "refs (objs (tab s) l) > 0"
    and a: "a = cause i" "wended s i" "\<not> nan ?k" by (auto simp: lock_agrees_def)
  let ?T = "snd (lock_enter ?k (tab s))" let ?s1 = "wgo s i (Enter op)"
  let ?s2 = "wgo (?s1\<lparr>tab := ?T\<rparr>) i (Trying op l)"
  let ?s3 = "wgo ?s2 i (Blocked op l)" let ?s4 = "wgo ?s3 i (Releasing op l (WErr a))"
  let ?s5 = "wgo (?s4\<lparr>tab := lock_release ?k l (tab ?s4)\<rparr>) i (WReturned op (WErr a))"
  have e: "lock_enter ?k (tab s) = (l, ?T)" using l by (simp add: lock_enter_def)
  have 1: "wstep cause nan d s ?s1" by (rule w_call [OF idle])
  have 2: "wstep cause nan d ?s1 ?s2" by (rule enter) (use e a in simp_all)
  have 3: "wstep cause nan d ?s2 ?s3" by (rule try_default) (use l in \<open>simp_all add: lock_enter_def\<close>)
  have 4: "wstep cause nan d ?s3 ?s4" unfolding a(1) by (rule block_ctx) (use a in simp_all)
  have 5: "wstep cause nan d ?s4 ?s5" by (rule release) simp
  have "(wstep cause nan d)\<^sup>*\<^sup>* s ?s5"
    by (rule wsteps_trans [OF wsteps_trans [OF wsteps_trans [OF wsteps_trans
        [OF wstep_one [OF 1] 2] 3] 4] 5])
  moreover have "locks (tab ?s5) = locks (tab s)"
    using l by (simp add: lock_enter_def lock_release_def Let_def)
  ultimately show ?thesis unfolding call_runs_def by (intro exI [of _ ?s5]) simp
qed

lemma write_fails_runs:
  assumes "wpcs s i = WIdle" and "key_free nan s (wkey op)" and "can_fail d op"
  shows "call_runs cause nan d s i op (WErr a) (store s) (cfront s)"
proof (rule call_runs_section [OF assms(1,2)])
  fix s0 :: "('a, 'b) wsys" and lo
  assume s0: "wpcs s0 i = Writing op lo" "store s0 = store s" "cfront s0 = cfront s"
  have "wstep cause nan d s0 (wgo s0 i (Unlocking op lo (WErr a)))"
    by (rule write_fail [OF s0(1) assms(3)]) simp
  moreover have "wgo (s0\<lparr>store := store s, cfront := cfront s, doubtful := doubtful s0\<rparr>) i (Unlocking op lo (WErr a)) =
      wgo s0 i (Unlocking op lo (WErr a))" by (simp flip: s0(2,3))
  ultimately show "\<exists>D. (wstep cause nan d)\<^sup>*\<^sup>* s0
      (wgo (s0\<lparr>store := store s, cfront := cfront s, doubtful := D\<rparr>) i (Unlocking op lo (WErr a)))"
    by (metis r_into_rtranclp)
qed

lemma front_fails_runs:
  assumes "wpcs s i = WIdle" and "key_free nan s (wkey op)"
  shows "call_runs cause nan d s i op (WErr a) (apply_store d op (store s)) ((cfront s)(wkey op := x))"
proof (rule call_runs_section [OF assms(1,2)])
  fix s0 :: "('a, 'b) wsys" and lo
  assume s0: "wpcs s0 i = Writing op lo" "store s0 = store s" "cfront s0 = cfront s"
  let ?s1 = "wgo (s0\<lparr>store := apply_store d op (store s0)\<rparr>) i (Fronting op lo)"
  have 1: "wstep cause nan d s0 ?s1" by (rule write_ok [OF s0(1)])
  have 2: "wstep cause nan d ?s1 (wgo (?s1\<lparr>cfront := (cfront ?s1)(wkey op := x),
      doubtful := insert (wkey op) (doubtful ?s1)\<rparr>) i (Unlocking op lo (WErr a)))"
    by (rule front_fail) simp_all
  show "\<exists>D. (wstep cause nan d)\<^sup>*\<^sup>* s0 (wgo (s0\<lparr>store := apply_store d op (store s),
      cfront := (cfront s)(wkey op := x), doubtful := D\<rparr>) i (Unlocking op lo (WErr a)))"
    using wsteps_trans [OF wstep_one [OF 1] 2] s0(2,3)
    by (intro exI [of _ "insert (wkey op) (doubtful s0)"]) simp
qed

text \<open>A complete write, whose entry has perhaps expired already when the call returns.\<close>

lemma write_runs:
  assumes "wpcs s i = WIdle" and "key_free nan s (wkey op)"
    and "fr = apply_front op (cfront s) \<or> fr = (apply_front op (cfront s))(wkey op := None)"
  shows "call_runs cause nan d s i op WOk (apply_store d op (store s)) fr"
proof (rule call_runs_section [OF assms(1,2)])
  fix s0 :: "('a, 'b) wsys" and lo
  assume s0: "wpcs s0 i = Writing op lo" "store s0 = store s" "cfront s0 = cfront s"
  let ?D = "doubtful s0 - {wkey op}" and ?s1 = "wgo (s0\<lparr>store := apply_store d op (store s0)\<rparr>) i (Fronting op lo)"
  let ?s2 = "wgo (?s1\<lparr>cfront := apply_front op (cfront ?s1), doubtful := doubtful ?s1 - {wkey op}\<rparr>) i (Unlocking op lo WOk)"
  have 1: "wstep cause nan d s0 ?s1" by (rule write_ok [OF s0(1)])
  have 2: "wstep cause nan d ?s1 ?s2" by (rule write_front) simp
  have 3: "wstep cause nan d ?s2 (?s2\<lparr>cfront := (cfront ?s2)(wkey op := None)\<rparr>)" by (rule front_expire)
  note r2 = wsteps_trans [OF wstep_one [OF 1] 2]
  show "\<exists>D. (wstep cause nan d)\<^sup>*\<^sup>* s0 (wgo (s0\<lparr>store := apply_store d op (store s),
      cfront := fr, doubtful := D\<rparr>) i (Unlocking op lo WOk))"
    using assms(3)
  proof
    assume "fr = apply_front op (cfront s)"
    with r2 s0(2,3) show ?thesis by (intro exI [of _ ?D]) simp
  next
    assume "fr = (apply_front op (cfront s))(wkey op := None)"
    then have "?s2\<lparr>cfront := (cfront ?s2)(wkey op := None)\<rparr> =
        wgo (s0\<lparr>store := apply_store d op (store s), cfront := fr, doubtful := ?D\<rparr>) i (Unlocking op lo WOk)"
      by (cases s0) (use s0(2,3) in simp)
    with wsteps_trans [OF r2 3] show ?thesis by (intro exI [of _ ?D]) metis
  qed
qed

lemma set_call_runs:
  assumes wt: "write_through t I view now backing" "I w" and call: "wt_set_context t x k v ex w = ((tm, e), w')"
    and st: "store s = backing w" "cfront s = view w" "wpcs s i = WIdle"
    and lk: "lock_agrees cause nan s i k (fst (klock t x k w))"
  shows "call_runs cause nan d s i (WSet k v) (result_of e) (backing w') (view w')"
proof -
  let ?op = "WSet k v"
  note law = write_through.set_cases [OF wt call]
  show ?thesis
  proof (cases "fst (klock t x k w)")
    case (Some a)
    with law have "e = Some a" "backing w' = store s" "view w' = cfront s" using st by auto
    then show ?thesis using give_up_runs [OF st(3), of cause nan ?op a d] lk Some by simp
  next
    case None
    then have free: "key_free nan s (wkey ?op)" using lk by (simp add: lock_agrees_def)
    consider (fail) a where "e = Some a" "backing w' = store s" "view w' = cfront s"
      | (wrote) "backing w' = apply_store d ?op (store s)" "\<forall>k'. k' \<noteq> k \<longrightarrow> view w' k' = view w k'"
          "e = None \<longrightarrow> view w' k = (if expired tm (now w) then None else Some v)"
      using law None st by fastforce
    then show ?thesis
    proof cases
      case fail
      then show ?thesis using write_fails_runs [OF st(3) free, of d] by simp
    next
      case wrote
      then have v: "view w' = (cfront s)(k := view w' k)" using st(2) by (simp add: fun_eq_iff)
      show ?thesis
      proof (cases e)
        case (Some a)
        then show ?thesis using front_fails_runs [OF st(3) free, of cause d a "view w' k"] wrote v by simp
      next
        case e: None
        then have "view w' = apply_front ?op (cfront s) \<or> view w' = (apply_front ?op (cfront s))(k := None)"
          using wrote v by (auto split: if_splits)
        then show ?thesis using write_runs [OF st(3) free] wrote(1) e by simp
      qed
    qed
  qed
qed

lemma delete_call_runs:
  assumes wt: "write_through t I view now backing" "I w" and call: "wt_delete_context t x k w = (e, w')"
    and st: "store s = backing w" "cfront s = view w" "wpcs s i = WIdle"
    and lk: "lock_agrees cause nan s i k (fst (klock t x k w))"
  shows "call_runs cause nan (deleter t \<noteq> None) s i (WDel k) (result_of e) (backing w') (view w')"
proof -
  let ?op = "WDel k" and ?d = "deleter t \<noteq> None"
  note law = write_through.delete_cases [OF wt call]
  show ?thesis
  proof (cases "fst (klock t x k w)")
    case (Some a)
    with law have "e = Some a" "backing w' = store s" "view w' = cfront s" using st by auto
    then show ?thesis using give_up_runs [OF st(3), of cause nan ?op a ?d] lk Some by simp
  next
    case None
    then have free: "key_free nan s (wkey ?op)" using lk by (simp add: lock_agrees_def)
    consider (fail) a where "e = Some a" ?d "backing w' = store s" "view w' = cfront s"
      | (gone) "backing w' = apply_store ?d ?op (store s)" "\<forall>k'. k' \<noteq> k \<longrightarrow> view w' k' = view w k'"
          "e = None \<longrightarrow> view w' k = None"
      using law None st by fastforce
    then show ?thesis
    proof cases
      case fail
      then show ?thesis using write_fails_runs [OF st(3) free, of ?d] by simp
    next
      case gone
      then have v: "view w' = (cfront s)(k := view w' k)" using st(2) by (simp add: fun_eq_iff)
      show ?thesis
      proof (cases e)
        case (Some a)
        then show ?thesis using front_fails_runs [OF st(3) free, of cause ?d a "view w' k"] gone v by simp
      next
        case e: None
        then have "view w' = apply_front ?op (cfront s)" using gone v by simp
        then show ?thesis using write_runs [OF st(3) free] gone(1) e by simp
      qed
    qed
  qed
qed

section \<open>Reads\<close>

text \<open>
  From s goroutine i makes a call of GetContext for k and returns res; the front shows fr, and
  nothing changes for the other goroutines and in the map of the flight; the only value that
  the loader may have returned is the one in res, and nothing was set.
\<close>

definition read_runs ::
    "bool \<Rightarrow> (gerr \<Rightarrow> bool) \<Rightarrow> (nat \<Rightarrow> gerr) \<Rightarrow> ('k, 'v::zero) rsys \<Rightarrow> nat \<Rightarrow> 'k \<Rightarrow>
      'v \<times> bool \<times> gerr option \<Rightarrow> ('k \<rightharpoonup> 'v) \<Rightarrow> bool" where
  "read_runs single mis cause s i k res fr \<longleftrightarrow>
     (\<exists>s'. (rstep single mis cause)\<^sup>*\<^sup>* s s' \<and> rpcs s' = (rpcs s)(i := RDone k res) \<and> rfront s' = fr \<and>
        written s' = written s \<and> loaded s' \<subseteq> insert (k, fst res) (loaded s) \<and>
        group (fl s') = group (fl s) \<and> ended (fl s') = ended (fl s) \<and>
        (\<forall>j. j \<noteq> i \<longrightarrow> pcs (fl s') j = pcs (fl s) j))"

text \<open>s1 is s but for goroutine i, which is inside the function load for k.\<close>

definition inside :: "bool \<Rightarrow> ('k, 'v::zero) rsys \<Rightarrow> nat \<Rightarrow> 'k \<Rightarrow> ('k, 'v) rsys \<Rightarrow> bool" where
  "inside single s i k s1 \<longleftrightarrow>
     (if single
      then rpcs s1 = (rpcs s)(i := RFlight k) \<and> ended (fl s1) = ended (fl s) \<and>
        (\<exists>c. pcs (fl s1) = (pcs (fl s))(i := Loading k c) \<and> group (fl s1) = (group (fl s))(k \<mapsto> c))
      else rpcs s1 = (rpcs s)(i := RAlone k) \<and> fl s1 = fl s)"

lemma inside_loading: "inside single s i k s1 \<Longrightarrow> loading s1 i k"
  by (auto simp: inside_def loading_def split: if_splits)

lemma inside_cong: "inside single s i k s1 \<Longrightarrow> rpcs s2 = rpcs s1 \<Longrightarrow> fl s2 = fl s1 \<Longrightarrow> inside single s i k s2"
  by (simp add: inside_def)

lemma rsteps_trans:
  "(rstep single mis cause)\<^sup>*\<^sup>* s s1 \<Longrightarrow> rstep single mis cause s1 s2 \<Longrightarrow> (rstep single mis cause)\<^sup>*\<^sup>* s s2"
  by (rule rtranclp.rtrancl_into_rtrancl)

lemma rstep_one: "rstep single mis cause s s' \<Longrightarrow> (rstep single mis cause)\<^sup>*\<^sup>* s s'"
  by (rule r_into_rtranclp)

lemma enter_load:
  assumes "rpcs s i = RFront k" and "rfront s k = None"
    and "single \<Longrightarrow> pcs (fl s) i = Idle" and "single \<Longrightarrow> group (fl s) k = None"
  shows "\<exists>s1. (rstep single mis cause)\<^sup>*\<^sup>* s s1 \<and> inside single s i k s1 \<and> work s1 i = Before \<and>
    rfront s1 = rfront s \<and> written s1 = written s \<and> loaded s1 = loaded s"
proof (cases single)
  case True
  let ?f = "(fl s)\<lparr>pcs := (pcs (fl s))(i := Start k)\<rparr>" and ?c = "nextCall (fl s)"
  let ?s1 = "rgo (rwork (s\<lparr>fl := ?f\<rparr>) i Before) i (RFlight k)"
  let ?f' = "?f\<lparr>group := (group ?f)(k \<mapsto> ?c), calls := (calls ?f)(?c := new_call k i),
      nextCall := Suc ?c, pcs := (pcs ?f)(i := Loading k ?c)\<rparr>"
  have 1: "rstep single mis cause s ?s1" by (rule r_miss_flight) (use assms True in simp_all)
  have "fstep cause ?f ?f'" by (rule do_lead) (use assms True in simp_all)
  then have 2: "rstep single mis cause ?s1 (?s1\<lparr>fl := ?f'\<rparr>)"
    by (intro r_flight) (simp_all add: inner_def)
  show ?thesis
    by (rule exI [of _ "?s1\<lparr>fl := ?f'\<rparr>"]) (use rsteps_trans [OF rstep_one [OF 1] 2] True in \<open>auto simp: inside_def\<close>)
next
  case False
  have 1: "rstep single mis cause s (rgo (rwork s i Before) i (RAlone k))"
    by (rule r_miss_alone) (use assms False in simp_all)
  show ?thesis
    by (rule exI [of _ "rgo (rwork s i Before) i (RAlone k)"]) (use rstep_one [OF 1] False in \<open>simp add: inside_def\<close>)
qed

lemma leave_load:
  assumes i: "inside single s i k s1" and w: "work s1 i = Ended (Ret v e)" and g: "single \<Longrightarrow> group (fl s) k = None"
  shows "\<exists>s'. (rstep single mis cause)\<^sup>*\<^sup>* s1 s' \<and> rpcs s' = (rpcs s)(i := RDone k (load_answer mis v e)) \<and>
    rfront s' = rfront s1 \<and> written s' = written s1 \<and> loaded s' = loaded s1 \<and>
    group (fl s') = group (fl s) \<and> ended (fl s') = ended (fl s) \<and> (\<forall>j. j \<noteq> i \<longrightarrow> pcs (fl s') j = pcs (fl s) j)"
proof (cases single)
  case True
  with i obtain c where c: "pcs (fl s1) = (pcs (fl s))(i := Loading k c)" "group (fl s1) = (group (fl s))(k \<mapsto> c)"
    and r: "rpcs s1 = (rpcs s)(i := RFlight k)" "ended (fl s1) = ended (fl s)" by (auto simp: inside_def)
  let ?r = "Ret v e"
  let ?f2 = "(fl s1)\<lparr>calls := (calls (fl s1))(c := record_outcome ?r (ended (fl s1) i) (calls (fl s1) c)),
      pcs := (pcs (fl s1))(i := Publishing k c ?r)\<rparr>"
  let ?s2 = "rwork (s1\<lparr>fl := ?f2\<rparr>) i Before"
  let ?f3 = "?f2\<lparr>group := (group ?f2)(k := None), pcs := (pcs ?f2)(i := Closing k c ?r)\<rparr>"
  let ?f4 = "?f3\<lparr>calls := (calls ?f3)(c := (calls ?f3 c)\<lparr>callDone := True\<rparr>), pcs := (pcs ?f3)(i := leave k ?r)\<rparr>"
  let ?s3 = "?s2\<lparr>fl := ?f3\<rparr>" let ?s4 = "?s3\<lparr>fl := ?f4\<rparr>"
  let ?s5 = "rgo ?s4 i (RDone k (load_answer mis v e))"
  have 1: "rstep single mis cause s1 ?s2" by (rule r_load_end) (use c w in simp_all)
  have "fstep cause ?f2 ?f3" by (rule publish) simp
  then have 2: "rstep single mis cause ?s2 ?s3" by (intro r_flight) (simp_all add: inner_def)
  have "fstep cause ?f3 ?f4" by (rule close) simp
  then have 3: "rstep single mis cause ?s3 ?s4" by (intro r_flight) (simp_all add: inner_def)
  have 4: "rstep single mis cause ?s4 ?s5" by (rule r_finish_flight) (use r in \<open>simp_all add: leave_def\<close>)
  show ?thesis
    by (rule exI [of _ ?s5])
      (use rsteps_trans [OF rsteps_trans [OF rsteps_trans [OF rstep_one [OF 1] 2] 3] 4] c r g True in
        \<open>simp add: fun_upd_idem\<close>)
next
  case False
  with i have r: "rpcs s1 = (rpcs s)(i := RAlone k)" "fl s1 = fl s" by (auto simp: inside_def)
  have 1: "rstep single mis cause s1 (rgo s1 i (RDone k (load_answer mis v e)))"
    by (rule r_finish_alone) (use r w in simp_all)
  show ?thesis
    by (rule exI [of _ "rgo s1 i (RDone k (load_answer mis v e))"]) (use rstep_one [OF 1] r in simp)
qed

text \<open>
  A load that the goroutine makes, and its end: the error of the loader, or its value, which
  the front then shows or not.
\<close>

lemma load_runs:
  assumes front: "rpcs s i = RFront k" "rfront s k = None"
    and quiet: "single \<Longrightarrow> pcs (fl s) i = Idle" "single \<Longrightarrow> group (fl s) k = None"
    and fr: "fr = rfront s \<or> e = None \<and> fr = (rfront s)(k \<mapsto> v)"
  shows "read_runs single mis cause s i k (load_answer mis v e) fr"
proof -
  from enter_load [where single = single and mis = mis and cause = cause, OF front quiet]
  obtain s1 where 1: "(rstep single mis cause)\<^sup>*\<^sup>* s s1" and ins: "inside single s i k s1"
    and s1: "work s1 i = Before" "rfront s1 = rfront s" "written s1 = written s" "loaded s1 = loaded s" by blast
  note ld = inside_loading [OF ins]
  have "\<exists>s2. (rstep single mis cause)\<^sup>*\<^sup>* s1 s2 \<and> rpcs s2 = rpcs s1 \<and> fl s2 = fl s1 \<and>
      work s2 i = Ended (Ret v e) \<and> rfront s2 = fr \<and> written s2 = written s \<and>
      (loaded s2 = loaded s \<or> e = None \<and> loaded s2 = insert (k, v) (loaded s))"
  proof (cases e)
    case (Some a)
    have "rstep single mis cause s1 (rwork s1 i (Ended (Ret v (Some a))))"
      by (rule r_load_error [OF ld s1(1)])
    then show ?thesis
      by (intro exI [of _ "rwork s1 i (Ended (Ret v (Some a)))"]) (use Some fr s1 rstep_one in auto)
  next
    case None
    let ?s2 = "rwork (s1\<lparr>loaded := insert (k, v) (loaded s1)\<rparr>) i (Storing v)"
    have 2: "rstep single mis cause s1 ?s2" by (rule r_load_ok [OF ld s1(1)])
    have l2: "loading ?s2 i k" "work ?s2 i = Storing v" using ld by (simp_all add: loading_def)
    show ?thesis
    proof (cases "fr = rfront s")
      case True
      have 3: "rstep single mis cause ?s2 (rwork ?s2 i (Ended (Ret v None)))"
        by (rule r_store_error [OF l2])
      show ?thesis
        by (intro exI [of _ "rwork ?s2 i (Ended (Ret v None))"])
          (use None True s1 rsteps_trans [OF rstep_one [OF 2] 3] in auto)
    next
      case False
      have 3: "rstep single mis cause ?s2 (rwork (?s2\<lparr>rfront := (rfront ?s2)(k \<mapsto> v)\<rparr>) i (Ended (Ret v None)))"
        by (rule r_store [OF l2])
      show ?thesis
        by (intro exI [of _ "rwork (?s2\<lparr>rfront := (rfront ?s2)(k \<mapsto> v)\<rparr>) i (Ended (Ret v None))"])
          (use None False fr s1 rsteps_trans [OF rstep_one [OF 2] 3] in auto)
    qed
  qed
  then obtain s2 where 2: "(rstep single mis cause)\<^sup>*\<^sup>* s1 s2" "rpcs s2 = rpcs s1" "fl s2 = fl s1"
      "work s2 i = Ended (Ret v e)" "rfront s2 = fr" "written s2 = written s"
      "loaded s2 = loaded s \<or> e = None \<and> loaded s2 = insert (k, v) (loaded s)" by blast
  have "inside single s i k s2" by (rule inside_cong [OF ins 2(2,3)])
  from leave_load [where mis = mis and cause = cause, OF this 2(4) quiet(2)] obtain s' where
    3: "(rstep single mis cause)\<^sup>*\<^sup>* s2 s'" "rpcs s' = (rpcs s)(i := RDone k (load_answer mis v e))"
      "rfront s' = rfront s2" "written s' = written s2" "loaded s' = loaded s2"
      "group (fl s') = group (fl s)" "ended (fl s') = ended (fl s)"
      "\<forall>j. j \<noteq> i \<longrightarrow> pcs (fl s') j = pcs (fl s) j" by blast
  have "loaded s' \<subseteq> insert (k, fst (load_answer mis v e)) (loaded s)" using 3(5) 2(7) by auto
  then show ?thesis
    unfolding read_runs_def
    using rtranclp_trans [OF rtranclp_trans [OF 1 2(1)] 3(1)] 2 3 by (intro exI [of _ s']) simp
qed

text \<open>
  What a read relies on: its front is a store that a failed store leaves as it was for the
  key, or without it; the loader does not touch the front; and Do, which nobody else uses,
  runs the load and returns its result.
\<close>

definition solo :: "('w, 'k, 'v) flight" where
  "solo x k fn w = fn w"

locale read_alone = front: cache_store "front r" inv view now
  for r :: "('w, 'k, 'v::zero) readThrough"
    and inv :: "'w \<Rightarrow> bool" and view :: "'w \<Rightarrow> 'k \<rightharpoonup> 'v" and now :: "'w \<Rightarrow> time" +
  assumes load_quiet: "inv w \<Longrightarrow> inv (snd (load r x k w)) \<and> view (snd (load r x k w)) = view w"
    and refusal: "inv w \<Longrightarrow> SetContext (front r) x k v Default w = ((tm, Some e), w') \<Longrightarrow>
      view w' k = None \<or> view w' k = view w k"
    and uncontended: "flight r = None \<or> flight r = Some solo"
begin

lemma load_result:
  assumes "inv w" and "view w k = None" and "loadAndStore r x k w = ((v, e), w')"
  shows "view w' = view w \<or> e = None \<and> view w' = (view w)(k \<mapsto> v)"
proof -
  obtain v2 e2 w2 where l: "load r x k w = ((v2, e2), w2)" by (metis surj_pair)
  have 2: "inv w2" "view w2 = view w" using load_quiet [OF assms(1), of x k] l by simp_all
  obtain t3 e3 w3 where s: "SetContext (front r) x k v2 Default w2 = ((t3, e3), w3)" by (metis surj_pair)
  have eq: "load_and_set r x k w = ((v, e), w')"
    using assms(3) uncontended by (auto simp: loadAndStore_def solo_def)
  show ?thesis
  proof (cases e2)
    case (Some a)
    then show ?thesis using eq l 2 by (simp add: load_and_set_def)
  next
    case None
    then have r: "v = v2" "e = None" "w' = w3" using eq l s by (simp_all add: load_and_set_def)
    note law = front.set_law [OF 2(1) s]
    have "view w3 k = None \<or> view w3 k = Some v2"
      using law refusal [OF 2(1), of x k v2 t3 _ w3] s 2(2) assms(2) by (cases e3) (auto split: if_splits)
    then have "view w3 = view w \<or> view w3 = (view w)(k \<mapsto> v2)"
    proof
      assume "view w3 k = None"
      then have "view w3 = view w" using law 2(2) assms(2) by (metis ext)
      then show ?thesis ..
    next
      assume "view w3 k = Some v2"
      then have "view w3 = (view w)(k \<mapsto> v2)" using law 2(2) by (auto simp: fun_eq_iff)
      then show ?thesis ..
    qed
    then show ?thesis using r by simp
  qed
qed

lemma get_branches:
  assumes "inv w" and "rt_get_context r x k w = ((v, ok, e), w')"
  shows "(view w' = view w \<and> (e \<noteq> None \<or> ok \<and> view w k = Some v)) \<or>
    view w k = None \<and> (\<exists>v' e'. (v, ok, e) = load_answer (isMiss r) v' e' \<and>
      (view w' = view w \<or> e' = None \<and> view w' = (view w)(k \<mapsto> v')))"
proof -
  obtain v1 ok1 e1 w1 where g: "GetContext (front r) x k w = ((v1, ok1, e1), w1)" by (metis surj_pair)
  note law = front.get_law [OF assms(1) g]
  show ?thesis
  proof (cases "e1 \<noteq> None \<or> ok1")
    case True
    then have "v = v1" "ok = ok1" "e = e1" "w' = w1" using assms(2) g by (auto simp: rt_get_context_def)
    with True law show ?thesis by (cases "view w k") auto
  next
    case False
    then have n: "view w k = None" using law by (cases "view w k") auto
    obtain v2 e2 w2 where l: "loadAndStore r x k w1 = ((v2, e2), w2)" by (metis surj_pair)
    have "(v, ok, e) = load_answer (isMiss r) v2 e2" "w' = w2"
      using assms(2) g False l by (simp_all add: rt_get_context_def)
    moreover have "view w2 = view w \<or> e2 = None \<and> view w2 = (view w)(k \<mapsto> v2)"
      using load_result [of w1 k x v2 e2 w2] law n l by simp
    ultimately show ?thesis using n by blast
  qed
qed

end

text \<open>Two Memory tiers, joined by LoaderFromCache, with and without WithSingleFlight.\<close>

definition tiers_flight ::
    "bool \<Rightarrow> nat \<Rightarrow> nat \<Rightarrow> gerr list \<Rightarrow> (('k, 'v::zero, 'z) heap_scheme, 'k, 'v) readThrough" where
  "tiers_flight single p q errs = (two_tier p q errs)\<lparr>flight := if single then Some solo else None\<rparr>"

lemma tiers_flight_simps [simp]:
  "front (tiers_flight single p q errs) = memory_cache p"
  "load (tiers_flight single p q errs) = LoaderFromCache (memory_cache q)"
  "flight (tiers_flight single p q errs) = (if single then Some solo else None)"
  by (simp_all add: tiers_flight_def)

interpretation solo_tiers: read_alone "tiers_flight single p q errs" heap_ok "mem_view p" clock
  for single p q errs
proof (intro read_alone.intro read_alone_axioms.intro)
  show "cache_store (front (tiers_flight single p q errs)) heap_ok (mem_view p) clock"
    using mem.cache_store_axioms by simp
  fix w x k v tm a w'
  show "heap_ok (snd (load (tiers_flight single p q errs) x k w)) \<and>
      mem_view p (snd (load (tiers_flight single p q errs) x k w)) = mem_view p w" if "heap_ok w"
    using heap_ok_ops(1) [OF that] by (simp add: loader_memory mem_get_view split: option.splits)
  show "mem_view p w' k = None \<or> mem_view p w' k = mem_view p w k"
    if "SetContext (front (tiers_flight single p q errs)) x k v Default w = ((tm, Some a), w')"
    using that by (auto simp: mem_set_context_def split: prod.splits)
qed simp

section \<open>Properties\<close>

text \<open>
  C14. A call of the sequential WriteThrough is a run of the concurrent one. Take a layer over
  a front and a writer under their laws, and a state of the steps with the same store and
  front, in which goroutine i is idle and lock meets what the sequential lock reports. The
  call of SetContext or DeleteContext, whether it gives up, fails in the writer or in the
  front, or succeeds, is a run of goroutine i alone (and of expiry) with the same result,
  after which store and front are those of the world and the map of locks is as before.
\<close>

theorem write_call_is_run:
  assumes "write_through t I view now backing" and "I w" and "wt_call t x ex op w = (e, w')"
    and "store s = backing w" and "cfront s = view w" and "wpcs s i = WIdle"
    and "lock_agrees cause nan s i (wkey op) (fst (klock t x (wkey op) w))"
  shows "call_runs cause nan (deleter t \<noteq> None) s i op (result_of e) (backing w') (view w')"
proof (cases op)
  case (WSet k v)
  with assms(3) obtain tm where "wt_set_context t x k v ex w = ((tm, e), w')"
    by (auto split: prod.splits)
  from set_call_runs [OF assms(1,2) this assms(4-6)] assms(7) WSet show ?thesis by simp
next
  case (WDel k)
  with assms(3) have "wt_delete_context t x k w = (e, w')" by simp
  from delete_call_runs [OF assms(1,2) this assms(4-6)] assms(7) WDel show ?thesis by simp
qed

text \<open>The state of the steps that agrees with a world of two Memory objects, before any call.\<close>

definition calm :: "nat \<Rightarrow> nat \<Rightarrow> ('k, 'v, 'z) heap_scheme \<Rightarrow> ('k, 'v) wsys" where
  "calm p q w = \<lparr>tab = \<lparr>locks = Map.empty, objs = (\<lambda>_. \<lparr>ch = False, refs = 0\<rparr>), nextLock = 0\<rparr>,
     store = mem_view q w, cfront = mem_view p w, wended = (\<lambda>_. False), wpcs = (\<lambda>_. WIdle), doubtful = {}\<rparr>"

theorem write_call_is_run_witness:
  "\<exists>w'. wt_call (write_pair 5 6) background Never (WSet 1 9) example_heap = (None, w') \<and>
     mem_view 6 w' 1 = Some 9 \<and>
     call_runs (\<lambda>_. Canceled) (\<lambda>_. False) True (calm 5 6 example_heap) 0 (WSet 1 9) WOk (mem_view 6 w') (mem_view 5 w')"
proof -
  obtain tm e w' where s: "wt_set_context (write_pair 5 6) background 1 9 Never example_heap = ((tm, e), w')"
    by (metis surj_pair)
  have e: "e = None"
    using s by (auto simp: wt_set_context_def store_writer_def mem_set_context_def split: prod.splits)
  have c: "wt_call (write_pair 5 6) background Never (WSet 1 9) example_heap = (None, w')" using s e by simp
  have "call_runs (\<lambda>_. Canceled) (\<lambda>_. False) (deleter (write_pair 5 6 :: ((nat, nat, unit) heap_scheme, nat, nat) writeThrough) \<noteq> None)
      (calm 5 6 example_heap) 0 (WSet 1 9) (result_of None) (mem_view 6 w') (mem_view 5 w')"
    by (rule write_call_is_run [OF pair.write_through_axioms pair_inv_example c])
      (simp_all add: calm_def lock_agrees_def key_free_def)
  then show ?thesis using c e pair.set_result [OF pair_inv_example s] by auto
qed


text \<open>A read of key 3 from tier 1 into tier 0, and the state of the steps before it.\<close>

definition tiered_heap :: "(nat, nat, unit) heap_scheme" where
  "tiered_heap = example_heap\<lparr>mems := (mems example_heap)(1 := example_memory\<lparr>m := [3 \<mapsto> \<lparr>evalue = 6, expiresAt = 0\<rparr>]\<rparr>)\<rparr>"

definition calm_reads :: "nat \<Rightarrow> (nat, nat, 'z) heap_scheme \<Rightarrow> (nat, nat) rsys" where
  "calm_reads p w = \<lparr>fl = \<lparr>group = Map.empty, calls = (\<lambda>_. new_call 0 0), nextCall = 0,
       ended = (\<lambda>_. False), pcs = (\<lambda>_. Idle)\<rparr>,
     rfront = mem_view p w, rpcs = (\<lambda>_. RIdle), work = (\<lambda>_. Before), written = {}, loaded = {}\<rparr>"


end
