(* ===== verification/CacheMock.thy ===== *)
theory CacheMock
  imports CacheApi
begin

text \<open>
  The test double of the cache interface (cache/mock/mock.go): a Backend delegates to the
  functions that the test sets and records every call. The record mock_world is the part of
  the world that the Backend owns; the test's functions see all of the world.
\<close>

datatype op_name = OGet | OSet | ODelete | OItems

record ('k, 'v) mcall =
  Op :: op_name
  Key :: 'k
  Val :: 'v
  Exp :: expiry

record ('k, 'v) mock_world =
  mcalls :: "('k, 'v) mcall list"

record ('w, 'k, 'v) backend =
  GetFunc :: "('w ctx \<Rightarrow> 'k \<Rightarrow> 'w \<Rightarrow> ('v \<times> bool \<times> gerr option) \<times> 'w) option"
  SetFunc :: "('w ctx \<Rightarrow> 'k \<Rightarrow> 'v \<Rightarrow> expiry \<Rightarrow> 'w \<Rightarrow> (time \<times> gerr option) \<times> 'w) option"
  DeleteFunc :: "('w ctx \<Rightarrow> 'k \<Rightarrow> 'w \<Rightarrow> gerr option \<times> 'w) option"
  ItemsContextFunc :: "('w ctx \<Rightarrow> ('w, 'k, 'v) body \<Rightarrow> 'w \<Rightarrow> (bool \<times> gerr option) \<times> 'w) option"

text \<open>The zero Expiry is Default; the zero key and value are those of the class zero.\<close>

definition record_call :: "('k, 'v) mcall \<Rightarrow> ('k, 'v, 'z) mock_world_scheme \<Rightarrow> ('k, 'v, 'z) mock_world_scheme" where
  "record_call c w = w\<lparr>mcalls := mcalls w @ [c]\<rparr>"

type_synonym ('k, 'v, 'z) mbackend = "(('k, 'v, 'z) mock_world_scheme, 'k, 'v) backend"

definition mock_get_context ::
    "('k, 'v::zero, 'z) mbackend \<Rightarrow> ('k, 'v, 'z) mock_world_scheme ctx \<Rightarrow> 'k \<Rightarrow>
      ('k, 'v, 'z) mock_world_scheme \<Rightarrow> ('v \<times> bool \<times> gerr option) \<times> ('k, 'v, 'z) mock_world_scheme" where
  "mock_get_context b x key w =
     (let w1 = record_call \<lparr>Op = OGet, Key = key, Val = 0, Exp = Default\<rparr> w in
      case GetFunc b of Some f \<Rightarrow> f x key w1 | None \<Rightarrow> ((0, False, None), w1))"

definition mock_set_context ::
    "('k, 'v, 'z) mbackend \<Rightarrow> ('k, 'v, 'z) mock_world_scheme ctx \<Rightarrow> 'k \<Rightarrow> 'v \<Rightarrow> expiry \<Rightarrow>
      ('k, 'v, 'z) mock_world_scheme \<Rightarrow> (time \<times> gerr option) \<times> ('k, 'v, 'z) mock_world_scheme" where
  "mock_set_context b x key val ex w =
     (let w1 = record_call \<lparr>Op = OSet, Key = key, Val = val, Exp = ex\<rparr> w in
      case SetFunc b of Some f \<Rightarrow> f x key val ex w1 | None \<Rightarrow> ((0, None), w1))"

definition mock_delete_context ::
    "('k, 'v::zero, 'z) mbackend \<Rightarrow> ('k, 'v, 'z) mock_world_scheme ctx \<Rightarrow> 'k \<Rightarrow>
      ('k, 'v, 'z) mock_world_scheme \<Rightarrow> gerr option \<times> ('k, 'v, 'z) mock_world_scheme" where
  "mock_delete_context b x key w =
     (let w1 = record_call \<lparr>Op = ODelete, Key = key, Val = 0, Exp = Default\<rparr> w in
      case DeleteFunc b of Some f \<Rightarrow> f x key w1 | None \<Rightarrow> (None, w1))"

definition mock_items_context ::
    "('k::zero, 'v::zero, 'z) mbackend \<Rightarrow> ('k, 'v, 'z) mock_world_scheme ctx \<Rightarrow>
      (('k, 'v, 'z) mock_world_scheme, 'k, 'v) body \<Rightarrow>
      ('k, 'v, 'z) mock_world_scheme \<Rightarrow> (bool \<times> gerr option) \<times> ('k, 'v, 'z) mock_world_scheme" where
  "mock_items_context b x yield w =
     (let w1 = record_call \<lparr>Op = OItems, Key = 0, Val = 0, Exp = Default\<rparr> w in
      case ItemsContextFunc b of Some f \<Rightarrow> f x yield w1 | None \<Rightarrow> ((False, None), w1))"

definition mock_get ::
    "('k, 'v::zero, 'z) mbackend \<Rightarrow> 'k \<Rightarrow> ('k, 'v, 'z) mock_world_scheme \<Rightarrow>
      ('v \<times> bool) \<times> ('k, 'v, 'z) mock_world_scheme" where
  "mock_get b key w =
     (case mock_get_context b background key w of ((v, ok, err), w') \<Rightarrow>
        (if err \<noteq> None then (0, False) else (v, ok), w'))"

definition mock_set ::
    "('k, 'v, 'z) mbackend \<Rightarrow> 'k \<Rightarrow> 'v \<Rightarrow> expiry \<Rightarrow> ('k, 'v, 'z) mock_world_scheme \<Rightarrow>
      time \<times> ('k, 'v, 'z) mock_world_scheme" where
  "mock_set b key val ex w =
     (case mock_set_context b background key val ex w of ((t, e), w') \<Rightarrow> (t, w'))"

definition mock_delete ::
    "('k, 'v::zero, 'z) mbackend \<Rightarrow> 'k \<Rightarrow> ('k, 'v, 'z) mock_world_scheme \<Rightarrow>
      ('k, 'v, 'z) mock_world_scheme" where
  "mock_delete b key w = snd (mock_delete_context b background key w)"

definition mock_items ::
    "('k::zero, 'v::zero, 'z) mbackend \<Rightarrow> (('k, 'v, 'z) mock_world_scheme, 'k, 'v) body \<Rightarrow>
      ('k, 'v, 'z) mock_world_scheme \<Rightarrow> bool \<times> ('k, 'v, 'z) mock_world_scheme" where
  "mock_items b yield w =
     (case mock_items_context b background yield w of ((broke, e), w') \<Rightarrow> (broke, w'))"

text \<open>Calls returns a copy of the recorded calls.\<close>

definition Calls :: "('k, 'v, 'z) mock_world_scheme \<Rightarrow> ('k, 'v) mcall list" where
  "Calls w = mcalls w"

text \<open>Backend has no Close method.\<close>

definition mock_cache :: "('k::zero, 'v::zero, 'z) mbackend \<Rightarrow> (('k, 'v, 'z) mock_world_scheme, 'k, 'v) cache" where
  "mock_cache b =
     \<lparr>Get = mock_get b, Set = mock_set b, Delete = mock_delete b, Items = mock_items b,
      GetContext = mock_get_context b, SetContext = mock_set_context b,
      DeleteContext = mock_delete_context b, ItemsContext = mock_items_context b,
      Closer = None\<rparr>"

lemmas mock_defs = mock_get_def mock_set_def mock_delete_def mock_items_def mock_get_context_def
  mock_set_context_def mock_delete_context_def mock_items_context_def mock_cache_def Let_def

interpretation mock: cache_api "mock_cache b" for b
  by unfold_locales (auto simp: mock_defs miss_def split: prod.splits option.splits)

section \<open>Recorded calls\<close>

datatype ('k, 'v) mock_op = DoGet 'k | DoSet 'k 'v expiry | DoDelete 'k | DoItems

fun call_of :: "('k::zero, 'v::zero) mock_op \<Rightarrow> ('k, 'v) mcall" where
  "call_of (DoGet k) = \<lparr>Op = OGet, Key = k, Val = 0, Exp = Default\<rparr>"
| "call_of (DoSet k v ex) = \<lparr>Op = OSet, Key = k, Val = v, Exp = ex\<rparr>"
| "call_of (DoDelete k) = \<lparr>Op = ODelete, Key = k, Val = 0, Exp = Default\<rparr>"
| "call_of DoItems = \<lparr>Op = OItems, Key = 0, Val = 0, Exp = Default\<rparr>"

fun exec_cache :: "('w, 'k, 'v) cache \<Rightarrow> ('w, 'k, 'v) body \<Rightarrow> ('k, 'v) mock_op \<Rightarrow> 'w \<Rightarrow> 'w" where
  "exec_cache c f (DoGet k) w = snd (Get c k w)"
| "exec_cache c f (DoSet k v ex) w = snd (Set c k v ex w)"
| "exec_cache c f (DoDelete k) w = Delete c k w"
| "exec_cache c f DoItems w = snd (Items c f w)"

lemma mcalls_record_call [simp]: "mcalls (record_call c w) = mcalls w @ [c]"
  by (simp add: record_call_def)

text \<open>Configured functions that leave the record of calls alone.\<close>

definition quiet :: "('k, 'v, 'z) mbackend \<Rightarrow> bool" where
  "quiet b \<longleftrightarrow>
     (\<forall>f. GetFunc b = Some f \<longrightarrow> (\<forall>x k w. mcalls (snd (f x k w)) = mcalls w)) \<and>
     (\<forall>f. SetFunc b = Some f \<longrightarrow> (\<forall>x k v ex w. mcalls (snd (f x k v ex w)) = mcalls w)) \<and>
     (\<forall>f. DeleteFunc b = Some f \<longrightarrow> (\<forall>x k w. mcalls (snd (f x k w)) = mcalls w)) \<and>
     (\<forall>f. ItemsContextFunc b = Some f \<longrightarrow> (\<forall>x y w. mcalls (snd (f x y w)) = mcalls w))"

lemma exec_mock:
  assumes "quiet b"
  shows "mcalls (exec_cache (mock_cache b) f op w) = mcalls w @ [call_of op]"
proof (cases op)
  case (DoGet k)
  then show ?thesis
    using assms by (cases "GetFunc b") (simp_all add: mock_defs quiet_def case_prod_unfold)
next
  case (DoSet k v ex)
  then show ?thesis
    using assms by (cases "SetFunc b") (simp_all add: mock_defs quiet_def case_prod_unfold)
next
  case (DoDelete k)
  then show ?thesis
    using assms by (cases "DeleteFunc b") (simp_all add: mock_defs quiet_def)
next
  case DoItems
  then show ?thesis
    using assms by (cases "ItemsContextFunc b") (simp_all add: mock_defs quiet_def case_prod_unfold)
qed

text \<open>
  The mock's log is complete and in order. Whatever functions a test configures, as long
  as they do not call the Backend themselves, after any sequence of operations Calls returns
  the calls that were recorded before, followed by exactly one call per operation, in the
  order of the operations and with their arguments.
\<close>

lemma mock_calls_complete:
  assumes "quiet b"
  shows "Calls (fold (exec_cache (mock_cache b) f) ops w) = Calls w @ map call_of ops"
  using assms by (induction ops arbitrary: w) (simp_all add: exec_mock Calls_def)

end
