(* ===== verification/Retry.thy ===== *)
theory Retry
  imports GoBase
begin

text \<open>
  Package retry (retry/retry.go and retry/stop.go): stop conditions and their combinators,
  and the loop of Retry.Do. The loop has no bound of its own, so it is a partial function:
  None is a Do that never returns. The function, the schedule and the hook act on the world;
  a StopFunc is pure, as its documentation asks.
\<close>

section \<open>Stop conditions\<close>

type_synonym stopFunc = "int \<Rightarrow> duration \<Rightarrow> gerr \<Rightarrow> bool"

definition MaxAttempts :: "int \<Rightarrow> stopFunc go" where
  "MaxAttempts n =
     (if n \<le> 0 then Inl ''retry.MaxAttempts: n must be > 0''
      else Inr (\<lambda>attempt elapsed err. attempt \<ge> n))"

definition MaxElapsed :: "duration \<Rightarrow> stopFunc go" where
  "MaxElapsed d =
     (if d \<le> 0 then Inl ''retry.MaxElapsed: d must be > 0''
      else Inr (\<lambda>attempt elapsed err. elapsed \<ge> d))"

definition OnError :: "(gerr \<Rightarrow> bool) option \<Rightarrow> stopFunc go" where
  "OnError predOpt =
     (case predOpt of
        None \<Rightarrow> Inl ''retry.OnError: pred must not be nil''
      | Some pred \<Rightarrow> Inr (\<lambda>attempt elapsed err. pred err))"

text \<open>The check of the entries, from index i on: the panic names the first nil entry.\<close>

fun check_stops :: "string \<Rightarrow> nat \<Rightarrow> stopFunc option list \<Rightarrow> stopFunc list go" where
  "check_stops who i [] = Inr []"
| "check_stops who i (None # ss) = Inl (''retry.'' @ who @ '': stops['' @ itoa i @ ''] is nil'')"
| "check_stops who i (Some s # ss) = go_bind (check_stops who (Suc i) ss) (\<lambda>rest. Inr (s # rest))"

fun any_loop :: "stopFunc list \<Rightarrow> stopFunc" where
  "any_loop [] attempt elapsed err = False"
| "any_loop (s # ss) attempt elapsed err =
     (if s attempt elapsed err then True else any_loop ss attempt elapsed err)"

fun all_loop :: "stopFunc list \<Rightarrow> stopFunc" where
  "all_loop [] attempt elapsed err = True"
| "all_loop (s # ss) attempt elapsed err =
     (if \<not> s attempt elapsed err then False else all_loop ss attempt elapsed err)"

definition Any :: "stopFunc option list \<Rightarrow> stopFunc go" where
  "Any stops =
     (if stops = [] then Inl ''retry.Any: at least one StopFunc is required''
      else go_bind (check_stops ''Any'' 0 stops) (\<lambda>ss. Inr (any_loop ss)))"

definition All :: "stopFunc option list \<Rightarrow> stopFunc go" where
  "All stops =
     (if stops = [] then Inl ''retry.All: at least one StopFunc is required''
      else go_bind (check_stops ''All'' 0 stops) (\<lambda>ss. Inr (all_loop ss)))"

lemma any_loop_iff: "any_loop ss a el e \<longleftrightarrow> (\<exists>s \<in> set ss. s a el e)"
  by (induction ss) auto

lemma all_loop_iff: "all_loop ss a el e \<longleftrightarrow> (\<forall>s \<in> set ss. s a el e)"
  by (induction ss) auto

lemma check_stops_iff: "check_stops who i stops = Inr ss \<longleftrightarrow> stops = map Some ss"
proof (induction who i stops arbitrary: ss rule: check_stops.induct)
  case (3 who i s rest)
  show ?case by (cases ss) (auto simp: 3)
qed auto

lemma Any_iff: "Any stops = Inr f \<longleftrightarrow> (\<exists>ss. ss \<noteq> [] \<and> stops = map Some ss \<and> f = any_loop ss)"
  by (auto simp: Any_def check_stops_iff)

lemma All_iff: "All stops = Inr f \<longleftrightarrow> (\<exists>ss. ss \<noteq> [] \<and> stops = map Some ss \<and> f = all_loop ss)"
  by (auto simp: All_def check_stops_iff)

section \<open>Retry\<close>

record attemptInfo =
  Attempt :: int
  Elapsed :: duration
  ErrOf :: "gerr option"
  NextOf :: duration

text \<open>A Schedule, with its Reset if it is a Resetter too.\<close>

record 'w schedule =
  Next :: "'w \<Rightarrow> duration \<times> 'w"
  Reset :: "('w \<Rightarrow> 'w) option"

record 'w retry =
  rschedule :: "'w schedule"
  rstop :: stopFunc
  onAttempt :: "(attemptInfo \<Rightarrow> 'w \<Rightarrow> 'w) option"

definition WithHook :: "(attemptInfo \<Rightarrow> 'w \<Rightarrow> 'w) option \<Rightarrow> ('w retry \<Rightarrow> 'w retry) go" where
  "WithHook fn =
     (if fn = None then Inl ''retry.WithHook: fn must not be nil''
      else Inr (\<lambda>r. r\<lparr>onAttempt := fn\<rparr>))"

definition New :: "'w schedule option \<Rightarrow> stopFunc option \<Rightarrow> ('w retry \<Rightarrow> 'w retry) list \<Rightarrow> 'w retry go" where
  "New s stop opts =
     (case s of
        None \<Rightarrow> Inl ''retry.New: schedule must not be nil''
      | Some sch \<Rightarrow>
          (case stop of
             None \<Rightarrow> Inl ''retry.New: stop must not be nil''
           | Some st \<Rightarrow>
               Inr (apply_opts opts \<lparr>rschedule = sch, rstop = st, onAttempt = None\<rparr>)))"

definition fire :: "'w retry \<Rightarrow> attemptInfo \<Rightarrow> 'w \<Rightarrow> 'w" where
  "fire r info w = (case onAttempt r of Some h \<Rightarrow> h info w | None \<Rightarrow> w)"

text \<open>The for loop of Do, from the attempt with the given number on.\<close>

partial_function (option) retry_loop ::
    "'w go_env \<Rightarrow> 'w retry \<Rightarrow> 'w ctx \<Rightarrow> ('w ctx \<Rightarrow> 'w \<Rightarrow> gerr option \<times> 'w) \<Rightarrow> time \<Rightarrow> int \<Rightarrow>
      'w \<Rightarrow> (gerr option \<times> 'w) option" where
  "retry_loop env r x fn start attempt w =
     (case fn x w of (err, w1) \<Rightarrow>
        (let elapsed = time_Sub (nowOf env w1) start in
         case err of
           None \<Rightarrow> Some (None, fire r \<lparr>Attempt = attempt, Elapsed = elapsed, ErrOf = None, NextOf = 0\<rparr> w1)
         | Some e \<Rightarrow>
             if rstop r attempt elapsed e
             then Some (Some e,
               fire r \<lparr>Attempt = attempt, Elapsed = elapsed, ErrOf = Some e, NextOf = 0\<rparr> w1)
             else (case Next (rschedule r) w1 of (next, w2) \<Rightarrow>
                (case go_sleep env x next
                   (fire r \<lparr>Attempt = attempt, Elapsed = elapsed, ErrOf = Some e, NextOf = next\<rparr> w2) of
                   (Some e', w4) \<Rightarrow> Some (Some e', w4)
                 | (None, w4) \<Rightarrow> retry_loop env r x fn start (attempt + 1) w4))))"

definition Do ::
    "'w go_env \<Rightarrow> 'w retry \<Rightarrow> 'w ctx \<Rightarrow> ('w ctx \<Rightarrow> 'w \<Rightarrow> gerr option \<times> 'w) \<Rightarrow> 'w \<Rightarrow>
      (gerr option \<times> 'w) option" where
  "Do env r x fn w =
     (let w0 = (case Reset (rschedule r) of Some reset \<Rightarrow> reset w | None \<Rightarrow> w)
      in retry_loop env r x fn (nowOf env w0) 1 w0)"

section \<open>Observations\<close>

text \<open>
  An observer of the runs: calls counts the calls of fn and infos collects what the hook is
  given, in a world that the schedule and the timers otherwise change as they like.
\<close>

definition observed ::
    "'w go_env \<Rightarrow> 'w retry \<Rightarrow> 'w ctx \<Rightarrow> ('w ctx \<Rightarrow> 'w \<Rightarrow> gerr option \<times> 'w) \<Rightarrow> ('w \<Rightarrow> nat) \<Rightarrow>
      ('w \<Rightarrow> attemptInfo list) \<Rightarrow> bool" where
  "observed env r x fn calls infos \<longleftrightarrow>
     (\<forall>w. calls (snd (fn x w)) = Suc (calls w) \<and> infos (snd (fn x w)) = infos w) \<and>
     (\<exists>h. onAttempt r = Some h \<and> (\<forall>i w. calls (h i w) = calls w \<and> infos (h i w) = infos w @ [i])) \<and>
     (\<forall>w. calls (snd (Next (rschedule r) w)) = calls w \<and> infos (snd (Next (rschedule r) w)) = infos w) \<and>
     (\<forall>f w. Reset (rschedule r) = Some f \<longrightarrow> calls (f w) = calls w \<and> infos (f w) = infos w) \<and>
     (\<forall>d w. calls (snd (select_timer env x d w)) = calls w \<and> infos (snd (select_timer env x d w)) = infos w)"

lemma observedD:
  assumes "observed env r x fn calls infos"
  shows "fn x w = (e, w') \<Longrightarrow> calls w' = Suc (calls w) \<and> infos w' = infos w"
    and "calls (fire r i w) = calls w \<and> infos (fire r i w) = infos w @ [i]"
    and "Next (rschedule r) w = (d, w') \<Longrightarrow> calls w' = calls w \<and> infos w' = infos w"
    and "go_sleep env x d w = (e, w') \<Longrightarrow> calls w' = calls w \<and> infos w' = infos w"
    and "calls (case Reset (rschedule r) of Some reset \<Rightarrow> reset w | None \<Rightarrow> w) = calls w \<and>
      infos (case Reset (rschedule r) of Some reset \<Rightarrow> reset w | None \<Rightarrow> w) = infos w"
proof -
  note o = assms [unfolded observed_def]
  show "fn x w = (e, w') \<Longrightarrow> calls w' = Suc (calls w) \<and> infos w' = infos w"
    using o by (metis snd_conv)
  show "calls (fire r i w) = calls w \<and> infos (fire r i w) = infos w @ [i]"
    using o by (auto simp: fire_def)
  show "Next (rschedule r) w = (d, w') \<Longrightarrow> calls w' = calls w \<and> infos w' = infos w"
    using o by (metis snd_conv)
  show "go_sleep env x d w = (e, w') \<Longrightarrow> calls w' = calls w \<and> infos w' = infos w"
    using o by (auto simp: go_sleep_def split: if_splits prod.splits bool.splits; metis snd_conv)
  show "calls (case Reset (rschedule r) of Some reset \<Rightarrow> reset w | None \<Rightarrow> w) = calls w \<and>
      infos (case Reset (rschedule r) of Some reset \<Rightarrow> reset w | None \<Rightarrow> w) = infos w"
    using o by (auto split: option.splits)
qed

text \<open>
  What the hook must be told of a run that started with attempt number a and ended with
  res, while the context's error was then cerr: all attempts but the last failed without
  being halted, and the last one succeeded, or was halted, or the wait after it was cut off.
\<close>

fun log_ok :: "stopFunc \<Rightarrow> gerr option \<Rightarrow> gerr option \<Rightarrow> int \<Rightarrow> attemptInfo list \<Rightarrow> bool" where
  "log_ok stop cerr res a [] \<longleftrightarrow> False"
| "log_ok stop cerr res a [i] \<longleftrightarrow> Attempt i = a \<and>
     (case ErrOf i of
        None \<Rightarrow> res = None \<and> NextOf i = 0
      | Some e \<Rightarrow>
          if stop a (Elapsed i) e then res = Some e \<and> NextOf i = 0
          else cerr \<noteq> None \<and> res = cerr)"
| "log_ok stop cerr res a (i # is) \<longleftrightarrow> Attempt i = a \<and>
     (\<exists>e. ErrOf i = Some e \<and> \<not> stop a (Elapsed i) e) \<and> log_ok stop cerr res (a + 1) is"

lemma log_ok_Cons:
  assumes "log_ok stop cerr res (a + 1) is" and "Attempt i = a" and "ErrOf i = Some e"
    and "\<not> stop a (Elapsed i) e"
  shows "log_ok stop cerr res a (i # is)"
  using assms by (cases "is") simp_all

lemma log_ok_attempts:
  "log_ok stop cerr res a is \<Longrightarrow> is \<noteq> [] \<and> map Attempt is = [a..a + int (length is) - 1]"
proof (induction stop cerr res a "is" rule: log_ok.induct)
  case (3 stop cerr res a i j js)
  then show ?case by (simp add: upto.simps [of a])
qed simp_all

lemma log_ok_length:
  assumes "\<And>a el e. n \<le> a \<Longrightarrow> stop a el e" and "a \<le> n" and "log_ok stop cerr res a is"
  shows "a + int (length is) \<le> n + 1"
  using assms(2,3)
proof (induction "is" arbitrary: a)
  case (Cons i js)
  show ?case
  proof (cases js)
    case (Cons j ks)
    then obtain e where "\<not> stop a (Elapsed i) e" "log_ok stop cerr res (a + 1) js"
      using Cons.prems(2) by auto
    moreover from this(1) have "a < n" using assms(1) not_le by blast
    ultimately show ?thesis using Cons.IH [of "a + 1"] by simp
  qed (use Cons.prems in simp)
qed simp

lemmas retry_loop_induct = retry_loop.raw_induct
  [where xa = "((((((env, r), x), fn), start), a), w)" for env r x fn start a w, unfolded prod.case]

lemma retry_loop_log:
  assumes o: "observed env r x fn calls infos"
    and "retry_loop env r x fn start a w = Some (res, w')"
  shows "\<exists>is. infos w' = infos w @ is \<and> calls w' = calls w + length is \<and>
     log_ok (rstop r) (ctxErr x w') res a is"
proof -
  let ?P = "\<lambda>env r x fn start a w y. observed env r x fn calls infos \<longrightarrow>
    (\<exists>is. infos (snd y) = infos w @ is \<and> calls (snd y) = calls w + length is \<and>
       log_ok (rstop r) (ctxErr x (snd y)) (fst y) a is)"
  have "?P env r x fn start a w (res, w')"
  proof (rule retry_loop_induct [where P = ?P, OF _ assms(2)], rule impI)
    fix loop env r x fn start a w y
    assume IH: "\<And>env r x fn start a w y. loop env r x fn start a w = Some y \<Longrightarrow> ?P env r x fn start a w y"
      and body: "(case fn x w of (err, w1) \<Rightarrow>
        (let elapsed = time_Sub (nowOf env w1) start in
         case err of
           None \<Rightarrow> Some (None, fire r \<lparr>Attempt = a, Elapsed = elapsed, ErrOf = None, NextOf = 0\<rparr> w1)
         | Some e \<Rightarrow>
             if rstop r a elapsed e
             then Some (Some e,
               fire r \<lparr>Attempt = a, Elapsed = elapsed, ErrOf = Some e, NextOf = 0\<rparr> w1)
             else (case Next (rschedule r) w1 of (next, w2) \<Rightarrow>
                (case go_sleep env x next
                   (fire r \<lparr>Attempt = a, Elapsed = elapsed, ErrOf = Some e, NextOf = next\<rparr> w2) of
                   (Some e', w4) \<Rightarrow> Some (Some e', w4)
                 | (None, w4) \<Rightarrow> loop env r x fn start (a + 1) w4)))) = Some y"
      and o: "observed env r x fn calls infos"
    obtain err w1 where fn: "fn x w = (err, w1)" by (metis surj_pair)
    note f = observedD(1) [OF o fn]
    let ?el = "time_Sub (nowOf env w1) start"
    show "\<exists>is. infos (snd y) = infos w @ is \<and> calls (snd y) = calls w + length is \<and>
       log_ok (rstop r) (ctxErr x (snd y)) (fst y) a is"
    proof (cases "\<exists>e. err = Some e \<and> \<not> rstop r a ?el e")
      case False
      then have "y = (err, fire r \<lparr>Attempt = a, Elapsed = ?el, ErrOf = err, NextOf = 0\<rparr> w1)"
        using body fn by (cases err) (simp_all add: Let_def)
      then show ?thesis
        using f False observedD(2) [OF o]
        by (intro exI [of _ "[\<lparr>Attempt = a, Elapsed = ?el, ErrOf = err, NextOf = 0\<rparr>]"])
          (auto split: option.splits)
    next
      case True
      then obtain e where e: "err = Some e" "\<not> rstop r a ?el e" by blast
      obtain nx w2 where n: "Next (rschedule r) w1 = (nx, w2)" by (metis surj_pair)
      let ?i = "\<lparr>Attempt = a, Elapsed = ?el, ErrOf = Some e, NextOf = nx\<rparr>"
      obtain ce w4 where s: "go_sleep env x nx (fire r ?i w2) = (ce, w4)" by (metis surj_pair)
      have w4: "infos w4 = infos w @ [?i]" "calls w4 = Suc (calls w)"
        using f observedD(2) [OF o, of ?i w2] observedD(3) [OF o n] observedD(4) [OF o s] by simp_all
      show ?thesis
      proof (cases ce)
        case (Some c)
        then have "y = (Some c, w4)" using body fn e n s by (simp add: Let_def)
        then show ?thesis using w4 e go_sleep_err [of env x nx _ c w4] s Some
          by (intro exI [of _ "[?i]"]) simp
      next
        case None
        then have "loop env r x fn start (a + 1) w4 = Some y" using body fn e n s by (simp add: Let_def)
        from IH [OF this] o obtain js where j: "infos (snd y) = infos w4 @ js"
          "calls (snd y) = calls w4 + length js" "log_ok (rstop r) (ctxErr x (snd y)) (fst y) (a + 1) js"
          by blast
        have "log_ok (rstop r) (ctxErr x (snd y)) (fst y) a (?i # js)"
          by (rule log_ok_Cons [OF j(3), where e = e]) (use e in simp_all)
        then show ?thesis using j w4 by (intro exI [of _ "?i # js"]) simp
      qed
    qed
  qed
  then show ?thesis using o by simp
qed


text \<open>Rounds that do not end in the middle: the loop ends if its continuation does.\<close>

lemma retry_loop_ends:
  assumes "\<And>w1 e nx w2 w4. fn x w = (Some e, w1) \<Longrightarrow> Next (rschedule r) w1 = (nx, w2) \<Longrightarrow>
      \<not> rstop r a (time_Sub (nowOf env w1) start) e \<Longrightarrow>
      go_sleep env x nx (fire r \<lparr>Attempt = a, Elapsed = time_Sub (nowOf env w1) start,
        ErrOf = Some e, NextOf = nx\<rparr> w2) = (None, w4) \<Longrightarrow>
      retry_loop env r x fn start (a + 1) w4 \<noteq> None"
  shows "retry_loop env r x fn start a w \<noteq> None"
  using assms
  by (subst retry_loop.simps) (simp add: Let_def split: prod.splits option.splits)

lemma retry_loop_attempts:
  assumes "\<And>a el e. n \<le> a \<Longrightarrow> rstop r a el e"
  shows "retry_loop env r x fn start a w \<noteq> None"
proof (induction "nat (n - a)" arbitrary: a w rule: less_induct)
  case less
  show ?case
  proof (rule retry_loop_ends)
    fix w1 e nx w2 w4
    assume "\<not> rstop r a (time_Sub (nowOf env w1) start) e"
    then have "a < n" using assms not_le by blast
    then show "retry_loop env r x fn start (a + 1) w4 \<noteq> None" by (intro less) simp
  qed
qed

text \<open>The function, the schedule and the hook do not turn the clock back.\<close>

definition forward :: "'w go_env \<Rightarrow> 'w retry \<Rightarrow> 'w ctx \<Rightarrow> ('w ctx \<Rightarrow> 'w \<Rightarrow> gerr option \<times> 'w) \<Rightarrow> bool" where
  "forward env r x fn \<longleftrightarrow>
     (\<forall>w. nowOf env w \<le> nowOf env (snd (fn x w)) \<and>
        nowOf env w \<le> nowOf env (snd (Next (rschedule r) w)) \<and>
        (\<forall>i. nowOf env w \<le> nowOf env (fire r i w)))"

lemma forwardD:
  assumes "forward env r x fn"
  shows "fn x w = (e, w') \<Longrightarrow> nowOf env w \<le> nowOf env w'"
    and "Next (rschedule r) w = (d, w') \<Longrightarrow> nowOf env w \<le> nowOf env w'"
    and "nowOf env w \<le> nowOf env (fire r i w)"
  using assms unfolding forward_def by (metis snd_conv)+

lemma retry_loop_elapsed:
  assumes "\<And>a el e. d \<le> el \<Longrightarrow> rstop r a el e" and "is_dur d"
    and "env_ok env" and "forward env r x fn" and "0 < \<delta>" and "\<And>w. \<delta> \<le> fst (Next (rschedule r) w)"
  shows "retry_loop env r x fn start a w \<noteq> None"
proof (induction "nat (start + d - nowOf env w)" arbitrary: a w rule: less_induct)
  case less
  show ?case
  proof (rule retry_loop_ends)
    fix w1 e nx w2 w4
    let ?i = "\<lparr>Attempt = a, Elapsed = time_Sub (nowOf env w1) start, ErrOf = Some e, NextOf = nx\<rparr>"
    assume r: "fn x w = (Some e, w1)" "Next (rschedule r) w1 = (nx, w2)"
      and h: "\<not> rstop r a (time_Sub (nowOf env w1) start) e"
      and s: "go_sleep env x nx (fire r ?i w2) = (None, w4)"
    have "nowOf env w1 - start < d"
      using h assms(1) saturate_mono [of d "nowOf env w1 - start"] saturate_id [OF assms(2)]
      by (auto simp: time_Sub_def not_le [symmetric])
    moreover have "\<delta> \<le> nx" using assms(6) [of w1] r(2) by simp
    moreover have "nowOf env w \<le> nowOf env w1" "nowOf env w1 \<le> nowOf env w2"
        "nowOf env w2 \<le> nowOf env (fire r ?i w2)"
      using forwardD [OF assms(4)] r by blast+
    moreover have "nowOf env (fire r ?i w2) + nx \<le> nowOf env w4"
      by (rule go_sleep_ok [OF assms(3) s])
    ultimately show "retry_loop env r x fn start (a + 1) w4 \<noteq> None"
      using assms(5) by (intro less) linarith
  qed
qed

section \<open>An example\<close>

text \<open>
  A world with a clock, the two observations, and a function that fails twice and then
  succeeds, each call taking one unit of time.
\<close>

record retry_world =
  rclock :: time
  rcalls :: nat
  rinfos :: "attemptInfo list"

definition example_env :: "retry_world go_env" where
  "example_env = \<lparr>nowOf = rclock, select_timer = (\<lambda>x d w. (True, w\<lparr>rclock := rclock w + d\<rparr>))\<rparr>"

definition example_fn :: "retry_world ctx \<Rightarrow> retry_world \<Rightarrow> gerr option \<times> retry_world" where
  "example_fn x w = (if rcalls w < 2 then Some (Err ''unavailable'') else None,
     w\<lparr>rclock := rclock w + 1, rcalls := Suc (rcalls w)\<rparr>)"

definition example_retry :: "stopFunc \<Rightarrow> retry_world retry" where
  "example_retry stop = \<lparr>rschedule = \<lparr>Next = (\<lambda>w. (5, w)), Reset = None\<rparr>, rstop = stop,
     onAttempt = Some (\<lambda>i w. w\<lparr>rinfos := rinfos w @ [i]\<rparr>)\<rparr>"

lemmas example_retry_defs = example_env_def example_fn_def example_retry_def

lemma example_observed: "observed example_env (example_retry stop) x example_fn rcalls rinfos"
  by (simp add: observed_def example_retry_defs)

lemma example_env_ok: "env_ok example_env"
  by (auto simp: env_ok_def example_env_def)

lemma example_forward: "forward example_env (example_retry stop) x example_fn"
  by (simp add: forward_def example_retry_defs fire_def)

lemma example_run:
  "Do example_env (example_retry (\<lambda>a el e. a \<ge> 3)) background example_fn
     \<lparr>rclock = 100, rcalls = 0, rinfos = []\<rparr> =
   Some (None, \<lparr>rclock = 113, rcalls = 3, rinfos =
     [\<lparr>Attempt = 1, Elapsed = 1, ErrOf = Some (Err ''unavailable''), NextOf = 5\<rparr>,
      \<lparr>Attempt = 2, Elapsed = 7, ErrOf = Some (Err ''unavailable''), NextOf = 5\<rparr>,
      \<lparr>Attempt = 3, Elapsed = 13, ErrOf = None, NextOf = 0\<rparr>]\<rparr>)"
  by (simp add: Do_def retry_loop.simps example_retry_defs fire_def go_sleep_def Let_def go_time)

section \<open>Properties\<close>

text \<open>
  C16. One report per attempt, and the result they account for. When Do returns, the hook has
  been given exactly one report for each call of fn, numbered 1, 2, 3 and so on. All but the
  last tell of an error that the stop condition let pass; the last one tells of success, and
  then Do returned nil, or of an error on which the stop condition halted, and then Do
  returned that error, or the wait after it was cut off, and then Do returned ctx.Err ().
\<close>

theorem retry_reports_every_attempt:
  assumes "observed env r x fn calls infos" and "Do env r x fn w = Some (res, w')"
  shows "\<exists>is. infos w' = infos w @ is \<and> calls w' = calls w + length is \<and>
    map Attempt is = [1..int (length is)] \<and> is \<noteq> [] \<and> log_ok (rstop r) (ctxErr x w') res 1 is"
  using retry_loop_log [OF assms(1) assms(2) [unfolded Do_def Let_def]]
    log_ok_attempts observedD(5) [OF assms(1), of w] by fastforce

theorem retry_reports_every_attempt_witness:
  "log_ok (\<lambda>a el e. a \<ge> 3) None None 1
     [\<lparr>Attempt = 1, Elapsed = 1, ErrOf = Some (Err ''unavailable''), NextOf = 5\<rparr>,
      \<lparr>Attempt = 2, Elapsed = 7, ErrOf = Some (Err ''unavailable''), NextOf = 5\<rparr>,
      \<lparr>Attempt = 3, Elapsed = 13, ErrOf = None, NextOf = 0\<rparr>]"
  using retry_reports_every_attempt [OF example_observed example_run]
  by (auto simp: example_retry_def)

text \<open>
  An attempt budget bounds Do. With a stop condition built by Any from conditions that
  include MaxAttempts (n), Do returns, whatever fn, the schedule and the other conditions
  do, and it calls fn at most n times.
\<close>

lemma retry_max_attempts:
  assumes "MaxAttempts n = Inr s" and "Any stops = Inr (rstop r)" and "Some s \<in> set stops"
    and "observed env r x fn calls infos"
  shows "\<exists>res w'. Do env r x fn w = Some (res, w') \<and> calls w' \<le> calls w + nat n"
proof -
  have n: "0 < n" and s: "s = (\<lambda>a el e. n \<le> a)"
    using assms(1) by (auto simp: MaxAttempts_def split: if_splits)
  have halt: "n \<le> a \<Longrightarrow> rstop r a el e" for a el e
    using assms(2,3) s by (auto simp: Any_iff any_loop_iff)
  then obtain y where "Do env r x fn w = Some y"
    using retry_loop_attempts [OF halt] unfolding Do_def Let_def by blast
  then obtain res w' where d: "Do env r x fn w = Some (res, w')" by (cases y) auto
  from retry_loop_log [OF assms(4) d [unfolded Do_def Let_def]] obtain "is" where
    c: "calls w' = calls w + length is" and l: "log_ok (rstop r) (ctxErr x w') res 1 is"
    using observedD(5) [OF assms(4), of w] by auto
  have "1 + int (length is) \<le> n + 1" by (rule log_ok_length [OF halt _ l]) (use n in simp_all)
  then show ?thesis using c d by auto
qed

text \<open>
  A time budget bounds Do. With a stop condition built by Any from conditions that
  include MaxElapsed (d), on a clock that does not go back and with a schedule whose delays
  are at least some positive duration, Do returns, even if fn always fails.
\<close>

lemma retry_max_elapsed:
  assumes "MaxElapsed d = Inr s" and "Any stops = Inr (rstop r)" and "Some s \<in> set stops"
    and "is_dur d" and "env_ok env" and "forward env r x fn"
    and "0 < \<delta>" and "\<And>w. \<delta> \<le> fst (Next (rschedule r) w)"
  shows "\<exists>res w'. Do env r x fn w = Some (res, w')"
proof -
  have s: "s = (\<lambda>a el e. d \<le> el)" using assms(1) by (auto simp: MaxElapsed_def split: if_splits)
  have halt: "d \<le> el \<Longrightarrow> rstop r a el e" for a el e
    using assms(2,3) s by (auto simp: Any_iff any_loop_iff)
  show ?thesis
    using retry_loop_elapsed [OF halt assms(4-8)] unfolding Do_def Let_def by fastforce
qed

text \<open>
  C17. A budget bounds Do. Take a stop condition built by Any. If its conditions include
  MaxAttempts (n), Do returns, whatever fn, the schedule and the other conditions do, and it
  calls fn at most n times. If they include MaxElapsed (d), Do returns on a clock that does
  not go back and with a schedule whose delays are at least some positive duration, even if
  fn always fails.
\<close>

theorem retry_budget_bounds:
  assumes "Any stops = Inr (rstop r)"
  shows "(\<forall>n s. MaxAttempts n = Inr s \<and> Some s \<in> set stops \<and> observed env r x fn calls infos \<longrightarrow>
      (\<exists>res w'. Do env r x fn w = Some (res, w') \<and> calls w' \<le> calls w + nat n)) \<and>
    (\<forall>d s \<delta>. MaxElapsed d = Inr s \<and> Some s \<in> set stops \<and> is_dur d \<and> env_ok env \<and> forward env r x fn \<and>
      0 < \<delta> \<and> (\<forall>w. \<delta> \<le> fst (Next (rschedule r) w)) \<longrightarrow> (\<exists>res w'. Do env r x fn w = Some (res, w')))"
proof (intro conjI allI impI; elim conjE)
  show "\<exists>res w'. Do env r x fn w = Some (res, w') \<and> calls w' \<le> calls w + nat n"
    if "MaxAttempts n = Inr s" "Some s \<in> set stops" "observed env r x fn calls infos" for n s
    by (rule retry_max_attempts [OF that(1) assms that(2,3)])
  show "\<exists>res w'. Do env r x fn w = Some (res, w')"
    if "MaxElapsed d = Inr s" "Some s \<in> set stops" "is_dur d" "env_ok env" "forward env r x fn"
      "0 < \<delta>" "\<forall>w. \<delta> \<le> fst (Next (rschedule r) w)" for d s \<delta>
    by (rule retry_max_elapsed [OF that(1) assms that(2-6)]) (use that(7) in simp)
qed

theorem retry_budget_bounds_witness:
  "(\<exists>res w'. Do example_env (example_retry (any_loop [\<lambda>a el e. el \<ge> 1000, \<lambda>a el e. a \<ge> 2])) background
     example_fn \<lparr>rclock = 100, rcalls = 0, rinfos = []\<rparr> = Some (res, w') \<and> rcalls w' \<le> 2) \<and>
   (\<exists>res w'. Do example_env (example_retry (any_loop [\<lambda>a el e. el \<ge> 12])) background
     (\<lambda>x w. (Some (Err ''down''), w)) \<lparr>rclock = 100, rcalls = 0, rinfos = []\<rparr> = Some (res, w'))"
proof
  show "\<exists>res w'. Do example_env (example_retry (any_loop [\<lambda>a el e. el \<ge> 1000, \<lambda>a el e. a \<ge> 2])) background
     example_fn \<lparr>rclock = 100, rcalls = 0, rinfos = []\<rparr> = Some (res, w') \<and> rcalls w' \<le> 2"
    using retry_budget_bounds [THEN conjunct1, rule_format, of "[Some (\<lambda>a el e. el \<ge> 1000), Some (\<lambda>a el e. a \<ge> 2)]"
        "example_retry (any_loop [\<lambda>a el e. el \<ge> 1000, \<lambda>a el e. a \<ge> 2])" 2 "\<lambda>a el e. a \<ge> 2",
        OF _ conjI [OF _ conjI [OF _ example_observed]],
        of background "\<lparr>rclock = 100, rcalls = 0, rinfos = []\<rparr>"]
    by (auto simp: MaxAttempts_def Any_def example_retry_def)
  show "\<exists>res w'. Do example_env (example_retry (any_loop [\<lambda>a el e. el \<ge> 12])) background
     (\<lambda>x w. (Some (Err ''down''), w)) \<lparr>rclock = 100, rcalls = 0, rinfos = []\<rparr> = Some (res, w')"
    by (rule retry_budget_bounds [THEN conjunct2, rule_format, of "[Some (\<lambda>a el e. el \<ge> 12)]" _ 12 "\<lambda>a el e. el \<ge> 12" _ _ _ 5])
      (auto simp: MaxElapsed_def Any_def example_retry_defs example_env_ok [unfolded example_retry_defs]
        forward_def fire_def go_time)
qed

text \<open>
  Combined stop conditions. Any and All of a list without nil entries return, exactly
  when the list is not empty, the disjunction and the conjunction of the conditions; with a
  nil entry they panic, naming the index of the first one.
\<close>

lemma stop_combinators:
  assumes "stops = map Some ss"
  shows "(case Any stops of Inl p \<Rightarrow> ss = [] | Inr f \<Rightarrow> ss \<noteq> [] \<and> (\<forall>a el e. f a el e = (\<exists>s \<in> set ss. s a el e))) \<and>
    (case All stops of Inl p \<Rightarrow> ss = [] | Inr f \<Rightarrow> ss \<noteq> [] \<and> (\<forall>a el e. f a el e = (\<forall>s \<in> set ss. s a el e))) \<and>
    Any (stops @ None # rest) = Inl (''retry.Any: stops['' @ itoa (length ss) @ ''] is nil'') \<and>
    All (stops @ None # rest) = Inl (''retry.All: stops['' @ itoa (length ss) @ ''] is nil'')"
proof -
  have c: "check_stops who i stops = Inr ss" for who i using assms by (simp add: check_stops_iff)
  have n: "check_stops who i (map Some ss @ None # rest) =
      Inl (''retry.'' @ who @ '': stops['' @ itoa (i + length ss) @ ''] is nil'')" for who i
    by (induction ss arbitrary: i) simp_all
  show ?thesis
    using assms c n [of _ 0] by (auto simp: Any_def All_def any_loop_iff all_loop_iff)
qed

end
