(* ===== verification/Float64.thy ===== *)
theory Float64
  imports GoBase
begin

text \<open>
  The part of float64 that the schedules use: finite numbers that are not negative, as a
  mantissa and a binary exponent, with rounding to nearest even at 53 bits. The exponent is
  not bounded: a product that would overflow to infinity is a large number here, and is
  only compared with numbers below 2 ^ 64, with the same outcome. All operations compute.
\<close>

section \<open>Bit lengths\<close>

fun bitlen :: "nat \<Rightarrow> nat" where
  "bitlen n = (if n = 0 then 0 else Suc (bitlen (n div 2)))"

declare bitlen.simps [simp del]

lemma bitlen_0 [simp]: "bitlen 0 = 0"
  by (simp add: bitlen.simps)

lemma bitlen_pos: "0 < n \<Longrightarrow> bitlen n = Suc (bitlen (n div 2))"
  by (simp add: bitlen.simps)

lemma bitlen_upper: "n < 2 ^ bitlen n"
proof (induction n rule: bitlen.induct)
  case (1 n)
  show ?case
  proof (cases "n = 0")
    case False
    then have "n div 2 < 2 ^ bitlen (n div 2)" using 1 by simp
    then have "n < 2 * 2 ^ bitlen (n div 2)" by linarith
    then show ?thesis using False bitlen_pos [of n] by simp
  qed simp
qed

lemma bitlen_lower: "0 < n \<Longrightarrow> 2 ^ (bitlen n - 1) \<le> n"
proof (induction n rule: bitlen.induct)
  case (1 n)
  show ?case
  proof (cases "n div 2 = 0")
    case True
    then have "n = 1" using 1 by linarith
    then show ?thesis by (simp add: bitlen_pos)
  next
    case False
    then have "2 ^ (bitlen (n div 2) - 1) \<le> n div 2" using 1 by simp
    moreover have "bitlen (n div 2) = Suc (bitlen (n div 2) - 1)"
      using False bitlen_pos [of "n div 2"] by simp
    ultimately have "2 ^ bitlen (n div 2) \<le> 2 * (n div 2)" by (metis mult_le_mono2 power_Suc)
    then show ?thesis using 1(2) bitlen_pos [of n] by simp
  qed
qed

lemma bitlen_le_iff: "bitlen n \<le> k \<longleftrightarrow> n < 2 ^ k"
proof
  assume "bitlen n \<le> k"
  then have "(2::nat) ^ bitlen n \<le> 2 ^ k" by simp
  then show "n < 2 ^ k" using bitlen_upper [of n] by linarith
next
  assume n: "n < 2 ^ k"
  show "bitlen n \<le> k"
  proof (rule ccontr)
    assume "\<not> bitlen n \<le> k"
    then have "0 < n" "k \<le> bitlen n - 1" by (auto intro: Nat.gr0I)
    then have "2 ^ k \<le> (2::nat) ^ (bitlen n - 1)" "2 ^ (bitlen n - 1) \<le> n"
      using bitlen_lower by simp_all
    then have "2 ^ k \<le> n" by (rule order_trans)
    with n show False by simp
  qed
qed

lemma bitlen_eqI:
  assumes "2 ^ (k - 1) \<le> n" and "n < 2 ^ k" and "0 < k"
  shows "bitlen n = k"
  using assms bitlen_le_iff [of n k] bitlen_le_iff [of n "k - 1"] by linarith

section \<open>Numbers\<close>

text \<open>The value of (m, e) is m times 2 to the e.\<close>

type_synonym fl = "nat \<times> int"

text \<open>Round an integer to 53 bits, half to even: the new mantissa, and the bits dropped.\<close>

definition round_mant :: "nat \<Rightarrow> nat \<times> nat" where
  "round_mant n =
     (let s = bitlen n - 53; q = n div 2 ^ s; r = n mod 2 ^ s in
      if s = 0 then (n, 0)
      else if 2 * r > 2 ^ s \<or> (2 * r = 2 ^ s \<and> odd q) then (q + 1, s) else (q, s))"

definition fl_of_nat :: "nat \<Rightarrow> fl" where
  "fl_of_nat n = (case round_mant n of (m, s) \<Rightarrow> (m, int s))"

definition fl_mult :: "fl \<Rightarrow> fl \<Rightarrow> fl" where
  "fl_mult a b = (case round_mant (fst a * fst b) of (m, s) \<Rightarrow> (m, snd a + snd b + int s))"

text \<open>The quotient, with a last bit that is set if the division leaves a remainder.\<close>

definition fl_div :: "fl \<Rightarrow> fl \<Rightarrow> fl" where
  "fl_div a b =
     (let k = bitlen (fst b) + 55; n = fst a * 2 ^ k; q = n div fst b
      in case round_mant (2 * q + (if n mod fst b = 0 then 0 else 1)) of
           (m, s) \<Rightarrow> (m, snd a - snd b - int k - 1 + int s))"

text \<open>Finite numbers with a sign.\<close>

type_synonym sfl = "int \<times> int"

text \<open>1 - c, for c at most 1.\<close>

definition fl_one_minus :: "sfl \<Rightarrow> fl" where
  "fl_one_minus c = (case c of (n, e) \<Rightarrow>
     (if 0 \<le> e then fl_of_nat (nat (1 - n * 2 ^ nat e))
      else case round_mant (nat (2 ^ nat (- e) - n)) of (m, s) \<Rightarrow> (m, e + int s)))"

definition fl_less :: "fl \<Rightarrow> fl \<Rightarrow> bool" where
  "fl_less a b \<longleftrightarrow>
     (if snd a \<le> snd b then fst a < fst b * 2 ^ nat (snd b - snd a)
      else fst a * 2 ^ nat (snd a - snd b) < fst b)"

text \<open>Truncation towards zero.\<close>

definition fl_trunc :: "fl \<Rightarrow> nat" where
  "fl_trunc a = (if 0 \<le> snd a then fst a * 2 ^ nat (snd a) else fst a div 2 ^ nat (- snd a))"

text \<open>
  The conversion to an int64: truncation if that is in range. Otherwise the result is
  implementation-defined, given here by the parameter wild.
\<close>

definition fl_to_i64 :: "(fl \<Rightarrow> int) \<Rightarrow> fl \<Rightarrow> int" where
  "fl_to_i64 wild a = (if int (fl_trunc a) \<le> max_dur then int (fl_trunc a) else wild a)"

definition fl_ok :: "fl \<Rightarrow> bool" where
  "fl_ok a \<longleftrightarrow> fst a \<le> 2 ^ 53"

section \<open>Rounding\<close>

lemma round_small: "n < 2 ^ 53 \<Longrightarrow> round_mant n = (n, 0)"
  using bitlen_le_iff [of n 53] by (simp add: round_mant_def Let_def)

lemma fl_of_small [simp]: "n < 2 ^ 53 \<Longrightarrow> fl_of_nat n = (n, 0)"
  by (simp add: fl_of_nat_def round_small)

lemma round_mant_le: "fst (round_mant n) \<le> 2 ^ 53"
proof (cases "bitlen n - 53 = 0")
  case True
  then have "n < 2 ^ 53" using bitlen_le_iff [of n 53] by simp
  then show ?thesis by (simp add: round_small)
next
  case False
  then have "(2::nat) ^ bitlen n = 2 ^ (bitlen n - 53) * 2 ^ 53" unfolding power_add [symmetric] by simp
  then have "n < 2 ^ (bitlen n - 53) * 2 ^ 53" using bitlen_upper [of n] by (simp only:)
  then have "n div 2 ^ (bitlen n - 53) < 2 ^ 53" by (simp add: less_mult_imp_div_less mult.commute)
  then show ?thesis using False by (simp add: round_mant_def Let_def)
qed

lemma fl_of_nat_ok: "fl_ok (fl_of_nat n)" and fl_mult_ok: "fl_ok (fl_mult a b)"
  using round_mant_le by (auto simp: fl_ok_def fl_of_nat_def fl_mult_def split: prod.splits) (metis fst_conv)+

text \<open>Rounding never passes a number of 53 bits: the next multiple bounds it above.\<close>

lemma round_mant_upper:
  assumes "round_mant n = (m, s)" and "n \<le> k * 2 ^ s"
  shows "m \<le> k"
proof (cases "bitlen n - 53 = 0")
  case False
  then have s: "s = bitlen n - 53" using assms(1) by (auto simp: round_mant_def Let_def split: if_splits)
  let ?q = "n div 2 ^ s" and ?r = "n mod 2 ^ s"
  have q: "n = ?q * 2 ^ s + ?r" by (rule div_mult_mod_eq [symmetric])
  have "m = ?q \<or> m = ?q + 1 \<and> 0 < ?r"
  proof (cases "?r = 0")
    case True
    then show ?thesis using assms(1) False s by (auto simp: round_mant_def Let_def)
  next
    case False
    then show ?thesis using assms(1) s by (auto simp: round_mant_def Let_def split: if_splits)
  qed
  moreover have "?q \<le> k" using assms(2) div_le_mono [of n "k * 2 ^ s" "2 ^ s"] by simp
  moreover have "?q < k" if "0 < ?r"
  proof (rule ccontr)
    assume "\<not> ?q < k"
    then have "k * 2 ^ s \<le> ?q * 2 ^ s" by simp
    then show False using q that assms(2) by linarith
  qed
  ultimately show ?thesis by linarith
qed (use assms in \<open>auto simp: round_mant_def Let_def\<close>)

text \<open>
  The fact behind both schedules: a number of 53 bits that is below the rounded bound
  truncates to at most the exact bound.
\<close>

theorem trunc_below_bound:
  assumes "fl_ok a" and "fl_less a (fl_of_nat n)"
  shows "fl_trunc a \<le> n"
proof (rule ccontr)
  assume "\<not> fl_trunc a \<le> n"
  then have n: "n < fl_trunc a" by simp
  obtain m s where r: "round_mant n = (m, s)" by (metis surj_pair)
  obtain ma ea where a: "a = (ma, ea)" by (metis surj_pair)
  have ma: "ma \<le> 2 ^ 53" using assms(1) a by (simp add: fl_ok_def)
  show False
  proof (cases "s = 0")
    case True
    then have "m = n" using r by (auto simp: round_mant_def Let_def split: if_splits)
    then have l: "fl_less a (n, 0)" using assms(2) r True by (simp add: fl_of_nat_def)
    show False
    proof (cases "0 \<le> ea")
      case True
      then show False using l n a by (cases "ea = 0") (auto simp: fl_less_def fl_trunc_def)
    next
      case False
      then have "ma < n * 2 ^ nat (- ea)" using l a by (simp add: fl_less_def)
      then have "ma div 2 ^ nat (- ea) < n" by (simp add: less_mult_imp_div_less)
      then show False using n a False by (simp add: fl_trunc_def)
    qed
  next
    case False
    have s: "s = bitlen n - 53" using r by (auto simp: round_mant_def Let_def split: if_splits)
    have big: "2 ^ (52 + s) \<le> n"
    proof -
      have "0 < n" using False s by (cases "n = 0") auto
      moreover have "bitlen n - 1 = 52 + s" using False s by simp
      ultimately show ?thesis using bitlen_lower by metis
    qed
    have pos: "0 \<le> ea"
    proof (rule ccontr)
      assume "\<not> 0 \<le> ea"
      then have "fl_trunc a \<le> ma" using a by (simp add: fl_trunc_def)
      moreover have "(2::nat) ^ 53 \<le> 2 ^ (52 + s)" using False by (intro power_increasing) auto
      ultimately show False using n ma big by linarith
    qed
    then have v: "fl_trunc a = ma * 2 ^ nat ea" using a by (simp add: fl_trunc_def)
    have "\<exists>k. ma * 2 ^ nat ea = k * 2 ^ s"
    proof (cases "s \<le> nat ea")
      case True
      then have "(2::nat) ^ nat ea = 2 ^ (nat ea - s) * 2 ^ s" by (simp flip: power_add)
      then show ?thesis by (metis mult.assoc)
    next
      case False
      have "2 ^ (52 + s) < ma * 2 ^ nat ea" using big n v by simp
      also have "\<dots> \<le> 2 ^ 53 * 2 ^ nat ea" using ma by simp
      also have "\<dots> = 2 ^ (53 + nat ea)" by (simp add: power_add)
      finally have "52 + s < 53 + nat ea" by simp
      with False show ?thesis by simp
    qed
    then obtain k where k: "ma * 2 ^ nat ea = k * 2 ^ s" ..
    then have "m \<le> k" using round_mant_upper [OF r, of k] n v by simp
    then have "m * 2 ^ s \<le> ma * 2 ^ nat ea" using k by simp
    moreover have "fl_less a (m, int s)" using assms(2) r by (simp add: fl_of_nat_def)
    then have "ma * 2 ^ nat ea < m * 2 ^ s"
    proof (cases "ea \<le> int s")
      case True
      then have "ma < m * 2 ^ (s - nat ea)"
        using \<open>fl_less a (m, int s)\<close> a pos by (simp add: fl_less_def nat_diff_distrib)
      then have "ma * 2 ^ nat ea < m * 2 ^ (s - nat ea) * 2 ^ nat ea" by simp
      also have "\<dots> = m * 2 ^ s" using True pos by (simp flip: power_add mult.assoc)
      finally show ?thesis .
    next
      case False
      then have "ma * 2 ^ (nat ea - s) < m"
        using \<open>fl_less a (m, int s)\<close> a pos by (simp add: fl_less_def nat_diff_distrib)
      then have "ma * 2 ^ (nat ea - s) * 2 ^ s < m * 2 ^ s" by simp
      moreover have "(2::nat) ^ (nat ea - s) * 2 ^ s = 2 ^ nat ea"
        using False by (simp flip: power_add)
      ultimately show ?thesis by (metis mult.assoc)
    qed
    ultimately show False by simp
  qed
qed

lemma round_mant_lower:
  assumes "round_mant n = (m, s)" and "k * 2 ^ s \<le> n"
  shows "k \<le> m"
proof -
  have "k \<le> n div 2 ^ s" using div_le_mono [OF assms(2), of "2 ^ s"] by simp
  moreover have "n div 2 ^ s \<le> m" using assms(1) by (auto simp: round_mant_def Let_def split: if_splits)
  ultimately show ?thesis by simp
qed

lemma round_mant_normal:
  assumes "round_mant n = (m, s)" and "0 < s"
  shows "2 ^ 52 \<le> m"
proof -
  have s: "s = bitlen n - 53" using assms by (auto simp: round_mant_def Let_def split: if_splits)
  have "0 < n" using assms(2) s by (cases "n = 0") auto
  then have "2 ^ (bitlen n - 1) \<le> n" by (rule bitlen_lower)
  moreover have "bitlen n - 1 = 52 + s" using assms(2) s by simp
  ultimately have "2 ^ 52 * 2 ^ s \<le> n" by (simp only: power_add)
  then show ?thesis by (rule round_mant_lower [OF assms(1)])
qed

text \<open>A product is at least any number of 53 bits that the exact product is at least.\<close>

theorem mult_lower:
  assumes "k < 2 ^ 53" and "fl_trunc (fst a * fst b, snd a + snd b) \<ge> k"
  shows "k \<le> fl_trunc (fl_mult a b)"
proof -
  let ?M = "fst a * fst b" and ?E = "snd a + snd b"
  obtain m s where r: "round_mant ?M = (m, s)" by (metis surj_pair)
  then have f: "fl_mult a b = (m, ?E + int s)" by (simp add: fl_mult_def)
  show ?thesis
  proof (cases "s = 0")
    case True
    then have "m = ?M" using r by (auto simp: round_mant_def Let_def split: if_splits)
    then show ?thesis using f True assms(2) by simp
  next
    case False
    then have m: "2 ^ 52 \<le> m" using round_mant_normal [OF r] by simp
    show ?thesis
    proof (cases "0 < ?E + int s")
      case True
      then have "(2::nat) ^ 1 \<le> 2 ^ nat (?E + int s)" by (intro power_increasing) auto
      then have "2 ^ 52 * 2 ^ 1 \<le> m * 2 ^ nat (?E + int s)" using m by (intro mult_le_mono)
      then show ?thesis using f True assms(1) by (simp add: fl_trunc_def)
    next
      case F: False
      then have e: "?E < 0" "nat (- ?E) = nat (- (?E + int s)) + s" using False by auto
      then have "k \<le> ?M div 2 ^ nat (- ?E)" using assms(2) by (simp add: fl_trunc_def)
      then have "k * 2 ^ nat (- ?E) \<le> ?M" by (simp add: less_eq_div_iff_mult_less_eq)
      then have "k * 2 ^ nat (- (?E + int s)) * 2 ^ s \<le> ?M"
        unfolding e(2) power_add by (simp only: mult.assoc)
      from round_mant_lower [OF r this] have "k \<le> m div 2 ^ nat (- (?E + int s))"
        by (simp add: less_eq_div_iff_mult_less_eq)
      then show ?thesis using f F by (cases "?E + int s = 0") (simp_all add: fl_trunc_def)
    qed
  qed
qed

section \<open>Doubling and halving\<close>

lemma round_mant_shift:
  assumes "bitlen n = 53"
  shows "round_mant (n * 2 ^ a) = (n, a)"
proof -
  have "2 ^ 52 \<le> n" "n < 2 ^ 53" using assms bitlen_lower [of n] bitlen_upper [of n] by (cases "n = 0"; simp)+
  then have "(2::nat) ^ (52 + a) \<le> n * 2 ^ a" "n * 2 ^ a < 2 ^ (53 + a)" by (simp_all add: power_add)
  then have "bitlen (n * 2 ^ a) = 53 + a" by (intro bitlen_eqI) simp_all
  then show ?thesis by (simp add: round_mant_def Let_def)
qed

lemma bitlen_2: "bitlen (2 ^ a) = Suc a"
  by (rule bitlen_eqI) simp_all

lemma round_mant_power: "52 \<le> a \<Longrightarrow> round_mant (2 ^ a) = (2 ^ 52, a - 52)"
proof -
  assume "52 \<le> a"
  then have "(2::nat) ^ a = 2 ^ 52 * 2 ^ (a - 52)" by (subst power_add [symmetric]) simp
  then show ?thesis using round_mant_shift [OF bitlen_2 [of 52, simplified], of "a - 52"] by simp
qed

lemma bitlen_double: "0 < n \<Longrightarrow> bitlen (2 * n) = Suc (bitlen n)"
  by (subst bitlen.simps) simp

text \<open>Rounding commutes with doubling.\<close>

lemma round_mant_double:
  assumes "0 < n" and "round_mant n = (m, s)"
  shows "round_mant (2 * n) = (2 * m, 0) \<and> s = 0 \<or> round_mant (2 * n) = (m, Suc s)"
proof -
  consider "bitlen n < 53" | "bitlen n = 53" | "53 < bitlen n" by linarith
  then show ?thesis
  proof cases
    case 1
    then show ?thesis using assms bitlen_double [OF assms(1)] by (simp add: round_mant_def Let_def)
  next
    case 2
    then show ?thesis using round_mant_shift [OF 2, of 1] round_mant_shift [OF 2, of 0] assms(2)
      by (simp add: mult.commute)
  next
    case 3
    define t where "t = bitlen n - 53"
    have t: "bitlen n - 53 = t" "bitlen (2 * n) - 53 = Suc t" "0 < t"
      using 3 bitlen_double [OF assms(1)] by (simp_all add: t_def)
    have "(2 * n) div 2 ^ Suc t = n div 2 ^ t" "(2 * n) mod 2 ^ Suc t = 2 * (n mod 2 ^ t)"
      by (simp_all add: mod_mult_mult1)
    then show ?thesis using assms(2) t by (auto simp: round_mant_def Let_def split: if_splits)
  qed
qed

lemma round_mant_0 [simp]: "round_mant 0 = (0, 0)"
  by (simp add: round_mant_def)

lemma round_mant_pos: "0 < n \<Longrightarrow> round_mant n = (m, s) \<Longrightarrow> 0 < m"
  using round_mant_normal [of n m s] by (cases "s = 0") (auto simp: round_mant_def Let_def split: if_splits)

text \<open>The quotient of a number and its double is one half, exactly.\<close>

lemma fl_div_half:
  assumes "0 < n"
  shows "fl_div (fl_of_nat n) (fl_of_nat (2 * n)) = (2 ^ 52, - 53)"
proof -
  obtain m s where r: "round_mant n = (m, s)" by (metis surj_pair)
  have m: "0 < m" by (rule round_mant_pos [OF assms r])
  define k where "k = bitlen m"
  have p1: "round_mant (2 ^ (k + 56)) = (2 ^ 52, k + 4)" by (subst round_mant_power) simp_all
  have two: "(2::nat) * 2 ^ (k + 55) = 2 ^ (k + 56)" by (simp flip: power_Suc)
  have q1: "2 * (m * 2 ^ (k + 55) div m) = 2 ^ (k + 56)" "m * 2 ^ (k + 55) mod m = 0" using m two by simp_all
  have q2: "2 * (m * 2 ^ (k + 56) div (2 * m)) = 2 ^ (k + 56)" "m * 2 ^ (k + 56) mod (2 * m) = 0"
    using m by (simp_all add: power_add mult.assoc mult.left_commute [of _ 2])
  show ?thesis
    using round_mant_double [OF assms r]
  proof (elim disjE conjE)
    assume "round_mant (2 * n) = (2 * m, 0)" "s = 0"
    then show ?thesis
      using r q2 m p1 p1 [unfolded add.commute [of k]] bitlen_double [OF m] by (simp add: fl_of_nat_def fl_div_def Let_def k_def [symmetric])
  next
    assume "round_mant (2 * n) = (m, Suc s)"
    then show ?thesis
      using r q1 p1 by (simp add: fl_of_nat_def fl_div_def Let_def k_def [symmetric])
  qed
qed

end
