(* ===== verification/Schedule.thy ===== *)
theory Schedule
  imports Float64
begin

text \<open>
  Package schedule: the delay sequences Constant, Exponential, Uniform and Sine, and the
  adapter TokenBucket (schedule/*.go). A schedule is its state and a function that returns
  the delay and the new state. The locale bounded_schedule is what the users of a Schedule
  rely on, with the bounds that each schedule provides.
\<close>

section \<open>Bounded schedules\<close>

locale bounded_schedule =
  fixes nxt :: "'s \<Rightarrow> duration \<times> 's"
    and ok :: "'s \<Rightarrow> bool" and lo :: "'s \<Rightarrow> duration" and hi :: "'s \<Rightarrow> duration"
  assumes next_ok: "ok s \<Longrightarrow> nxt s = (d, s') \<Longrightarrow> ok s' \<and> lo s' = lo s \<and> hi s' = hi s"
    and next_bounds: "ok s \<Longrightarrow> nxt s = (d, s') \<Longrightarrow> lo s \<le> d \<and> d \<le> hi s"

text \<open>The first n delays.\<close>

primrec delays :: "('s \<Rightarrow> duration \<times> 's) \<Rightarrow> nat \<Rightarrow> 's \<Rightarrow> duration list" where
  "delays nxt 0 s = []"
| "delays nxt (Suc n) s = (case nxt s of (d, s') \<Rightarrow> d # delays nxt n s')"

lemma delays_2: "delays nxt 2 s = (case nxt s of (d, s') \<Rightarrow> [d, fst (nxt s')])"
  by (simp add: numeral_2_eq_2 split: prod.splits)

lemma length_delays [simp]: "length (delays nxt n s) = n"
  by (induction n arbitrary: s) (auto split: prod.splits)

context bounded_schedule
begin

lemma delays_bounds: "ok s \<Longrightarrow> d \<in> set (delays nxt n s) \<Longrightarrow> lo s \<le> d \<and> d \<le> hi s"
proof (induction n arbitrary: s)
  case (Suc n)
  obtain e s' where e: "nxt s = (e, s')" by (metis surj_pair)
  show ?case
    using Suc.IH [of s'] Suc.prems e next_ok [OF Suc.prems(1) e] next_bounds [OF Suc.prems(1) e] by auto
qed simp

lemma delays_sum: "ok s \<Longrightarrow> int n * lo s \<le> sum_list (delays nxt n s) \<and> sum_list (delays nxt n s) \<le> int n * hi s"
proof (induction n arbitrary: s)
  case (Suc n)
  obtain e s' where e: "nxt s = (e, s')" by (metis surj_pair)
  then show ?case
    using Suc.IH [of s'] next_ok [OF Suc.prems e] next_bounds [OF Suc.prems e]
    by (simp add: algebra_simps)
qed simp

end

section \<open>Constant\<close>

record constant_sched =
  cdelay :: duration

definition NewConstant :: "duration \<Rightarrow> constant_sched go" where
  "NewConstant d =
     (if d < 0 then Inl ''schedule.NewConstant: d must be >= 0'' else Inr \<lparr>cdelay = d\<rparr>)"

definition constant_next :: "constant_sched \<Rightarrow> duration \<times> constant_sched" where
  "constant_next c = (cdelay c, c)"

interpretation const_delays: bounded_schedule constant_next "\<lambda>c. True" cdelay cdelay
  by unfold_locales (auto simp: constant_next_def)

section \<open>Exponential\<close>

text \<open>A float64 argument of WithFactor; Fin True is a negative number.\<close>

datatype float64 = NaN | Infinity bool | Fin bool fl

record exponential =
  base :: duration
  maxDelay :: duration
  factor :: fl
  current :: duration

definition float_ge_1 :: "float64 \<Rightarrow> bool" where
  "float_ge_1 f = (case f of NaN \<Rightarrow> False | Infinity neg \<Rightarrow> \<not> neg | Fin neg a \<Rightarrow> \<not> neg \<and> \<not> fl_less a (1, 0))"

definition WithFactor :: "float64 \<Rightarrow> (exponential \<Rightarrow> exponential) go" where
  "WithFactor f =
     (if \<not> float_ge_1 f \<or> f = Infinity False then Inl ''schedule.WithFactor: f must be finite and >= 1''
      else case f of Fin neg a \<Rightarrow> Inr (\<lambda>e. e\<lparr>factor := a\<rparr>) | _ \<Rightarrow> Inr (\<lambda>e. e))"

definition NewExponential ::
    "duration \<Rightarrow> duration \<Rightarrow> (exponential \<Rightarrow> exponential) list \<Rightarrow> exponential go" where
  "NewExponential b mx opts =
     (if b \<le> 0 then Inl ''schedule.NewExponential: base must be positive''
      else if mx < b then Inl ''schedule.NewExponential: maxDelay must be >= base''
      else Inr (apply_opts opts \<lparr>base = b, maxDelay = mx, factor = (1, 1), current = b\<rparr>))"

text \<open>wild is the outcome of a conversion to int64 that is out of range.\<close>

definition exp_next :: "(fl \<Rightarrow> int) \<Rightarrow> exponential \<Rightarrow> duration \<times> exponential" where
  "exp_next wild e =
     (let d = current e;
          nx = fl_mult (fl_of_nat (nat (current e))) (factor e)
      in (d, if fl_less nx (fl_of_nat (nat (maxDelay e)))
             then e\<lparr>current := fl_to_i64 wild nx\<rparr>
             else e\<lparr>current := maxDelay e\<rparr>))"

definition exp_reset :: "exponential \<Rightarrow> exponential" where
  "exp_reset e = e\<lparr>current := base e\<rparr>"

definition exp_ok :: "exponential \<Rightarrow> bool" where
  "exp_ok e \<longleftrightarrow> 1 \<le> base e \<and> base e \<le> maxDelay e \<and> maxDelay e \<le> max_dur \<and>
     1 \<le> current e \<and> current e \<le> maxDelay e \<and> \<not> fl_less (factor e) (1, 0)"

lemma factor_ge_1: "\<not> fl_less (m, x) (1, 0) \<Longrightarrow> 0 < m \<and> (x < 0 \<longrightarrow> 2 ^ nat (- x) \<le> m)"
proof (cases "x \<le> 0")
  case True
  assume "\<not> fl_less (m, x) (1, 0)"
  then have "2 ^ nat (- x) \<le> m" using True by (simp add: fl_less_def)
  moreover from this have "0 < m" by (rule less_le_trans [rotated]) simp
  ultimately show ?thesis by simp
qed (auto simp: fl_less_def)

lemma mult_factor:
  assumes "\<not> fl_less f (1, 0)" and "0 \<le> x"
  shows "c \<le> fl_trunc (c * fst f, x + snd f) \<or> c = 0"
proof -
  obtain m y where f: "f = (m, y)" by (metis surj_pair)
  note g = factor_ge_1 [OF assms(1) [unfolded f]]
  show ?thesis
  proof (cases "0 \<le> x + y")
    case True
    then have "c * 1 \<le> c * m * 2 ^ nat (x + y)" unfolding mult.assoc using g by (intro mult_le_mono2) (simp add: Suc_leI)
    then show ?thesis using True f by (simp add: fl_trunc_def)
  next
    case False
    then have "(2::nat) ^ nat (- (x + y)) \<le> 2 ^ nat (- y)" using assms(2) by (intro power_increasing) auto
    also have "\<dots> \<le> m" using g False assms(2) by simp
    finally have "c * 2 ^ nat (- (x + y)) \<le> c * m" by simp
    then have "c \<le> c * m div 2 ^ nat (- (x + y))" by (simp add: less_eq_div_iff_mult_less_eq)
    then show ?thesis using False f by (simp add: fl_trunc_def)
  qed
qed

lemma fl_of_nat_pos: "0 < n \<Longrightarrow> 0 < fst (fl_of_nat n) \<and> 0 \<le> snd (fl_of_nat n)"
proof -
  assume n: "0 < n"
  obtain m s where r: "round_mant n = (m, s)" by (metis surj_pair)
  have "0 < m"
  proof (cases "s = 0")
    case True
    then show ?thesis using n r by (auto simp: round_mant_def Let_def split: if_splits)
  next
    case False
    then have "2 ^ 52 \<le> m" using round_mant_normal [OF r] by simp
    then show ?thesis by (rule less_le_trans [rotated]) simp
  qed
  then show ?thesis using r by (simp add: fl_of_nat_def)
qed

text \<open>The next delay is in range, whatever a conversion out of range would give.\<close>

lemma exp_next_ok:
  assumes "exp_ok e" and "exp_next wild e = (d, e')"
  shows "exp_ok e' \<and> base e' = base e \<and> maxDelay e' = maxDelay e \<and> factor e' = factor e \<and> d = current e"
proof -
  let ?c = "fl_of_nat (nat (current e))"
  let ?n = "fl_mult ?c (factor e)"
  have "1 \<le> current e' \<and> current e' \<le> maxDelay e"
  proof (cases "fl_less ?n (fl_of_nat (nat (maxDelay e)))")
    case True
    have "fl_trunc ?n \<le> nat (maxDelay e)" by (rule trunc_below_bound [OF fl_mult_ok True])
    moreover have c: "0 < fst ?c" "0 \<le> snd ?c" using fl_of_nat_pos [of "nat (current e)"] assms(1) by (auto simp: exp_ok_def)
    then have "1 \<le> fl_trunc (fst ?c * fst (factor e), snd ?c + snd (factor e))"
      using mult_factor [of "factor e" "snd ?c" "fst ?c"] assms(1) by (simp add: exp_ok_def)
    then have "1 \<le> fl_trunc ?n" by (intro mult_lower) simp_all
    ultimately show ?thesis
      using assms True by (auto simp: exp_next_def Let_def fl_to_i64_def exp_ok_def)
  next
    case False
    then show ?thesis using assms by (auto simp: exp_next_def Let_def exp_ok_def)
  qed
  then show ?thesis using assms by (auto simp: exp_next_def Let_def exp_ok_def split: if_splits)
qed

interpretation exp_delays: bounded_schedule "exp_next wild" exp_ok "\<lambda>e. 1" maxDelay for wild
proof
  fix s d s'
  assume a: "exp_ok s" "exp_next wild s = (d, s')"
  from exp_next_ok [OF this] show "exp_ok s' \<and> (1::int) = 1 \<and> maxDelay s' = maxDelay s" by simp
  from exp_next_ok [OF a] a(1) show "1 \<le> d \<and> d \<le> maxDelay s" by (simp add: exp_ok_def)
qed

text \<open>Below 2 ^ 53 (about 104 days) conversions to float64 are exact, and delays never shrink.\<close>

lemma exp_next_grows:
  assumes "exp_ok e" and "maxDelay e < 2 ^ 53" and "exp_next wild e = (d, e')"
  shows "current e \<le> current e'"
proof (cases "fl_less (fl_mult (fl_of_nat (nat (current e))) (factor e)) (fl_of_nat (nat (maxDelay e)))")
  case True
  let ?c = "nat (current e)"
  have s: "?c < 2 ^ 53" using assms(1,2) by (simp add: exp_ok_def nat_less_iff)
  then have c: "fl_of_nat ?c = (?c, 0)" by simp
  have "?c \<le> fl_trunc (?c * fst (factor e), 0 + snd (factor e))"
    using mult_factor [of "factor e" 0 ?c] assms(1) by (auto simp: exp_ok_def)
  then have "?c \<le> fl_trunc (fl_mult (?c, 0) (factor e))" by (intro mult_lower s) simp
  moreover have "fl_trunc (fl_mult (?c, 0) (factor e)) \<le> nat (maxDelay e)"
    using trunc_below_bound [OF fl_mult_ok True] c by simp
  ultimately show ?thesis
    using assms True c by (auto simp: exp_next_def Let_def fl_to_i64_def exp_ok_def)
next
  case False
  then show ?thesis using assms(1,3) by (auto simp: exp_next_def Let_def exp_ok_def)
qed

lemma exp_next_double:
  assumes "exp_ok e" and "maxDelay e < 2 ^ 53" and "factor e = (1, 1)" and "exp_next wild e = (d, e')"
  shows "current e' = min (2 * current e) (maxDelay e)"
proof -
  have s: "nat (current e) < 2 ^ 53" "nat (maxDelay e) < 2 ^ 53" using assms(1,2) by (auto simp: exp_ok_def nat_less_iff)
  have n: "fl_mult (fl_of_nat (nat (current e))) (factor e) = (nat (current e), 1)"
    using s by (simp add: fl_mult_def assms(3) round_small)
  have l: "fl_less (nat (current e), 1) (fl_of_nat (nat (maxDelay e))) \<longleftrightarrow> 2 * current e < maxDelay e"
    using s assms(1) by (simp add: fl_less_def exp_ok_def) linarith
  have "2 * current e < maxDelay e \<Longrightarrow> fl_to_i64 wild (nat (current e), 1) = 2 * current e"
    using assms(1,2) by (simp add: fl_to_i64_def fl_trunc_def exp_ok_def max_dur_def)
  then show ?thesis using assms(4) n l by (auto simp: exp_next_def Let_def min_def)
qed

section \<open>Uniform\<close>

text \<open>draw n is Uint64N (n) of the random source, which must be below n; w is its state.\<close>

record 'w uniform =
  ulo :: duration
  uhi :: duration
  draw :: "int \<Rightarrow> 'w \<Rightarrow> int \<times> 'w"
  rng :: 'w

definition WithSource ::
    "(int \<Rightarrow> 'w \<Rightarrow> int \<times> 'w) option \<Rightarrow> 'w \<Rightarrow> ('w uniform \<Rightarrow> 'w uniform) go" where
  "WithSource src w =
     (case src of None \<Rightarrow> Inl ''schedule.WithSource: src must not be nil''
      | Some f \<Rightarrow> Inr (\<lambda>u. u\<lparr>draw := f, rng := w\<rparr>))"

definition NewUniform ::
    "duration \<Rightarrow> duration \<Rightarrow> (int \<Rightarrow> 'w \<Rightarrow> int \<times> 'w) \<Rightarrow> 'w \<Rightarrow> ('w uniform \<Rightarrow> 'w uniform) list \<Rightarrow> 'w uniform go" where
  "NewUniform l h seeded w opts =
     (if l < 0 then Inl ''schedule.NewUniform: lo must be >= 0''
      else if h < l then Inl ''schedule.NewUniform: hi must be >= lo''
      else Inr (apply_opts opts \<lparr>ulo = l, uhi = h, draw = seeded, rng = w\<rparr>))"

definition uniform_next :: "'w uniform \<Rightarrow> duration \<times> 'w uniform" where
  "uniform_next u =
     (case draw u (wrap_u64 (wrap_u64 (uhi u - ulo u) + 1)) (rng u) of
        (n, w) \<Rightarrow> (wrap_i64 (ulo u + wrap_i64 n), u\<lparr>rng := w\<rparr>))"

definition uniform_ok :: "'w uniform \<Rightarrow> bool" where
  "uniform_ok u \<longleftrightarrow> 0 \<le> ulo u \<and> ulo u \<le> uhi u \<and> uhi u \<le> max_dur \<and>
     (\<forall>n w. 0 < n \<longrightarrow> 0 \<le> fst (draw u n w) \<and> fst (draw u n w) < n)"

lemma uniform_next_eq:
  assumes "uniform_ok u" and "uniform_next u = (d, u')"
  shows "\<exists>n. 0 \<le> n \<and> n \<le> uhi u - ulo u \<and> d = ulo u + n \<and> u' = u\<lparr>rng := snd (draw u (uhi u - ulo u + 1) (rng u))\<rparr>"
proof -
  have b: "0 \<le> uhi u - ulo u" "uhi u - ulo u < 2 ^ 63"
    using assms(1) by (auto simp: uniform_ok_def max_dur_def)
  then have a: "wrap_u64 (wrap_u64 (uhi u - ulo u) + 1) = uhi u - ulo u + 1" by simp
  let ?n = "fst (draw u (uhi u - ulo u + 1) (rng u))"
  have n: "0 \<le> ?n" "?n < uhi u - ulo u + 1"
    using assms(1) b(1) unfolding uniform_ok_def by (metis add_strict_increasing zero_less_one add.commute)+
  then have "is_dur ?n" "is_dur (ulo u + ?n)"
    using b assms(1) by (auto simp: uniform_ok_def go_time)
  then show ?thesis
    using assms(2) n a by (intro exI [of _ ?n]) (auto simp: uniform_next_def case_prod_unfold)
qed

interpretation uniform_delays: bounded_schedule uniform_next uniform_ok ulo uhi
proof
  fix s :: "'a uniform" and d s'
  assume a: "uniform_ok s" "uniform_next s = (d, s')"
  from uniform_next_eq [OF this] a(1)
  show "uniform_ok s' \<and> ulo s' = ulo s \<and> uhi s' = uhi s" by (auto simp: uniform_ok_def)
  from uniform_next_eq [OF a] show "ulo s \<le> d \<and> d \<le> uhi s" by auto
qed

section \<open>Sine\<close>

text \<open>
  readClock is the clock function, on the state of the world.
\<close>

record 'w sine =
  slo :: duration
  shi :: duration
  period :: duration
  readClock :: "'w \<Rightarrow> time \<times> 'w"
  start :: time
  sworld :: 'w

definition WithClock :: "('w \<Rightarrow> time \<times> 'w) option \<Rightarrow> ('w sine \<Rightarrow> 'w sine) go" where
  "WithClock fn =
     (case fn of None \<Rightarrow> Inl ''schedule.WithClock: fn must not be nil''
      | Some f \<Rightarrow> Inr (\<lambda>s. s\<lparr>readClock := f\<rparr>))"

definition NewSine ::
    "duration \<Rightarrow> duration \<Rightarrow> duration \<Rightarrow> ('w \<Rightarrow> time \<times> 'w) \<Rightarrow> 'w \<Rightarrow> ('w sine \<Rightarrow> 'w sine) list \<Rightarrow> 'w sine go" where
  "NewSine l h p timeNow w opts =
     (if l < 0 then Inl ''schedule.NewSine: lo must be >= 0''
      else if h < l then Inl ''schedule.NewSine: hi must be >= lo''
      else if p \<le> 0 then Inl ''schedule.NewSine: period must be positive''
      else Inr (apply_opts opts
        \<lparr>slo = l, shi = h, period = p, readClock = timeNow, start = 0, sworld = w\<rparr>))"

text \<open>The remainder of Go has the sign of the dividend.\<close>

definition go_rem :: "int \<Rightarrow> int \<Rightarrow> int" where
  "go_rem a b = sgn a * (\<bar>a\<bar> mod \<bar>b\<bar>)"

text \<open>math.Pi\<close>

definition fl_pi :: fl where
  "fl_pi = (7074237752028440, - 51)"

text \<open>
  The phase of the remainder r in the period p, in [0, 2 pi], and the scale (1 - cos) / 2. The
  function math.Cos is the parameter cosine, with values in [-1, 1]. Halving is exact.
\<close>

definition sine_phase :: "int \<Rightarrow> duration \<Rightarrow> sfl" where
  "sine_phase r p =
     (case fl_mult (fl_mult (fl_div (fl_of_nat (nat \<bar>r\<bar>)) (fl_of_nat (nat p))) (2, 0)) fl_pi of
        (n, e) \<Rightarrow> (sgn r * int n, e))"

definition sine_scale :: "(sfl \<Rightarrow> sfl) \<Rightarrow> sfl \<Rightarrow> fl" where
  "sine_scale cosine phase = (case fl_one_minus (cosine phase) of (n, e) \<Rightarrow> (n, e - 1))"

definition sine_delay :: "(fl \<Rightarrow> int) \<Rightarrow> duration \<Rightarrow> duration \<Rightarrow> fl \<Rightarrow> duration" where
  "sine_delay wild l h scale =
     (let span = h - l;
          offset = fl_mult (fl_of_nat (nat span)) scale
      in if \<not> fl_less offset (fl_of_nat (nat span)) then h
         else wrap_i64 (l + fl_to_i64 wild offset))"

definition sine_curve :: "(sfl \<Rightarrow> sfl) \<Rightarrow> (fl \<Rightarrow> int) \<Rightarrow> duration \<Rightarrow> duration \<Rightarrow> duration \<Rightarrow> duration \<Rightarrow> duration" where
  "sine_curve cosine wild l h p elapsed =
     sine_delay wild l h (sine_scale cosine (sine_phase (go_rem elapsed p) p))"

definition sine_next :: "(sfl \<Rightarrow> sfl) \<Rightarrow> (fl \<Rightarrow> int) \<Rightarrow> 'w sine \<Rightarrow> duration \<times> 'w sine" where
  "sine_next cosine wild s =
     (case (if isZero (start s) then readClock s (sworld s) else (start s, sworld s)) of
        (st, w1) \<Rightarrow>
          (case readClock s w1 of
             (now, w2) \<Rightarrow>
               (sine_curve cosine wild (slo s) (shi s) (period s) (time_Sub now st),
                s\<lparr>start := st, sworld := w2\<rparr>)))"

definition sine_ok :: "'w sine \<Rightarrow> bool" where
  "sine_ok s \<longleftrightarrow> 0 \<le> slo s \<and> slo s \<le> shi s \<and> shi s \<le> max_dur \<and> 0 < period s"

lemma sine_delay_bounds:
  assumes "0 \<le> l" and "l \<le> h" and "h \<le> max_dur"
  shows "l \<le> sine_delay wild l h scale \<and> sine_delay wild l h scale \<le> h"
proof (cases "fl_less (fl_mult (fl_of_nat (nat (h - l))) scale) (fl_of_nat (nat (h - l)))")
  case True
  let ?o = "fl_mult (fl_of_nat (nat (h - l))) scale"
  have "fl_trunc ?o \<le> nat (h - l)" by (rule trunc_below_bound [OF fl_mult_ok True])
  then have o: "int (fl_trunc ?o) \<le> h - l" using assms(2) by linarith
  then have "fl_to_i64 wild ?o = int (fl_trunc ?o)" using assms by (simp add: fl_to_i64_def)
  moreover have "is_dur (l + int (fl_trunc ?o))" using o assms by (simp add: go_time)
  ultimately show ?thesis using True o by (simp add: sine_delay_def Let_def)
next
  case False
  then show ?thesis using assms by (simp add: sine_delay_def Let_def)
qed

lemma sine_curve_bounds:
  assumes "0 \<le> l" and "l \<le> h" and "h \<le> max_dur"
  shows "l \<le> sine_curve cosine wild l h p e \<and> sine_curve cosine wild l h p e \<le> h"
  unfolding sine_curve_def by (rule sine_delay_bounds [OF assms])

lemma sine_next_eq:
  "\<exists>e st w. sine_next cosine wild s =
     (sine_curve cosine wild (slo s) (shi s) (period s) e, s\<lparr>start := st, sworld := w\<rparr>)"
  unfolding sine_next_def case_prod_unfold by blast

interpretation sine_delays: bounded_schedule "sine_next cosine wild" sine_ok slo shi for cosine wild
proof
  fix s :: "'a sine" and d s'
  assume a: "sine_ok s" "sine_next cosine wild s = (d, s')"
  with sine_next_eq [of cosine wild s] obtain e st w
    where "d = sine_curve cosine wild (slo s) (shi s) (period s) e" "s' = s\<lparr>start := st, sworld := w\<rparr>" by auto
  then show "sine_ok s' \<and> slo s' = slo s \<and> shi s' = shi s" "slo s \<le> d \<and> d \<le> shi s"
    using a(1) sine_curve_bounds [of "slo s" "shi s" cosine wild "period s" e] by (auto simp: sine_ok_def)
qed

subsection \<open>The curve\<close>

text \<open>What the curve needs of math.Cos: the cosines of 0 and of math.Pi are exact.\<close>

definition cosine_exact :: "(sfl \<Rightarrow> sfl) \<Rightarrow> bool" where
  "cosine_exact cosine \<longleftrightarrow> (\<forall>e. cosine (0, e) = (1, 0)) \<and> cosine (int (fst fl_pi), snd fl_pi) = (- 1, 0)"

lemma go_rem_nonneg: "0 \<le> e \<Longrightarrow> 0 < p \<Longrightarrow> go_rem e p = e mod p"
  by (cases "e = 0") (simp_all add: go_rem_def)

lemma go_rem_dvd: "p dvd e \<Longrightarrow> go_rem e p = 0"
  by (simp add: go_rem_def)

lemma curve_start:
  assumes "cosine_exact cosine" and "0 \<le> l" and "l \<le> h" and "h \<le> max_dur"
  shows "sine_delay wild l h (sine_scale cosine (sine_phase 0 p)) = l"
proof -
  have "sine_scale cosine (sine_phase 0 p) = (0, - 1)"
    using assms(1) by (simp add: sine_phase_def sine_scale_def fl_mult_def fl_div_def Let_def
        cosine_exact_def fl_one_minus_def split: prod.split)
  moreover have "fl_less (0, e) (fl_of_nat n) \<or> n = 0" for e n
    using round_mant_pos [of n] by (auto simp: fl_less_def fl_of_nat_def split: prod.split)
  ultimately show ?thesis using assms
    by (fastforce simp: sine_delay_def Let_def fl_mult_def fl_to_i64_def fl_trunc_def go_time)
qed

text \<open>A product with 1, as the scale gives it, is not below the number.\<close>

lemma times_one: "\<not> fl_less (fl_mult (fl_of_nat n) (2, - 1)) (fl_of_nat n)"
proof -
  obtain m s where r: "round_mant n = (m, s)" by (metis surj_pair)
  obtain m' s' where r': "round_mant (2 * m) = (m', s')" by (metis surj_pair)
  have m: "m \<le> 2 ^ 53" using round_mant_le [of n] r by simp
  consider "s' = 0" | "s' = 1" | "m = 2 ^ 53"
  proof -
    have "s' = bitlen (2 * m) - 53" using r' by (auto simp: round_mant_def Let_def split: if_splits)
    moreover have "bitlen (2 * m) \<le> 54" if "m \<noteq> 2 ^ 53" using m that by (subst bitlen_le_iff) simp
    ultimately show ?thesis using that by linarith
  qed
  then show ?thesis
  proof cases
    case 1
    then have "m' = 2 * m" using r' by (auto simp: round_mant_def Let_def split: if_splits)
    then show ?thesis using 1 r r' by (simp add: fl_less_def fl_mult_def fl_of_nat_def mult.commute)
  next
    case 2
    then have "m \<le> m'" using round_mant_lower [OF r', of m] by simp
    then show ?thesis using 2 r r' by (simp add: fl_less_def fl_mult_def fl_of_nat_def mult.commute)
  next
    case 3
    then have "m' = 2 ^ 52" "s' = 2" using r' round_mant_power [of 54] by simp_all
    then show ?thesis using 3 r r' by (simp add: fl_less_def fl_mult_def fl_of_nat_def mult.commute)
  qed
qed

lemma phase_half: "0 < k \<Longrightarrow> sine_phase k (2 * k) = (int (fst fl_pi), snd fl_pi)"
proof -
  assume "0 < k"
  then have q: "fl_div (fl_of_nat (nat \<bar>k\<bar>)) (fl_of_nat (nat (2 * k))) = (2 ^ 52, - 53)"
    using fl_div_half [of "nat k"] by (simp add: nat_mult_distrib)
  have p: "round_mant (2 ^ 53) = (2 ^ 52, 1)" using round_mant_power [of 53] by simp
  have "bitlen (fst fl_pi) = 53" by (rule bitlen_eqI) (simp_all add: fl_pi_def)
  from round_mant_shift [OF this, of 52] have "fl_mult (2 ^ 52, - 52) fl_pi = fl_pi"
    by (simp add: fl_mult_def fl_pi_def)
  moreover have "fl_mult (2 ^ 52, - 53) (2, 0) = (2 ^ 52, - 52)" using p by (simp add: fl_mult_def)
  ultimately show ?thesis using \<open>0 < k\<close> unfolding sine_phase_def q by (simp add: fl_pi_def)
qed

lemma curve_middle:
  assumes "cosine_exact cosine" and "0 < k"
  shows "sine_delay wild l h (sine_scale cosine (sine_phase k (2 * k))) = h"
proof -
  have "sine_scale cosine (sine_phase k (2 * k)) = (2, - 1)"
    using assms by (simp add: phase_half sine_scale_def cosine_exact_def fl_one_minus_def)
  then show ?thesis using times_one by (simp add: sine_delay_def Let_def)
qed

text \<open>The clock readings of n further calls of Next, and the delays they give.\<close>

primrec readings :: "('w \<Rightarrow> time \<times> 'w) \<Rightarrow> nat \<Rightarrow> 'w \<Rightarrow> time list" where
  "readings f 0 w = []"
| "readings f (Suc n) w = (case f w of (t, w') \<Rightarrow> t # readings f n w')"

lemma started_delays:
  "start s \<noteq> 0 \<Longrightarrow> delays (sine_next cosine wild) n s =
     map (\<lambda>t. sine_curve cosine wild (slo s) (shi s) (period s) (time_Sub t (start s)))
       (readings (readClock s) n (sworld s))"
  by (induction n arbitrary: s) (auto simp: sine_next_def isZero_def split: prod.splits)

lemma sine_delays_eq:
  assumes "start s = 0" and "readClock s (sworld s) = (t0, w1)" and "t0 \<noteq> 0"
  shows "delays (sine_next cosine wild) n s =
     map (\<lambda>t. sine_curve cosine wild (slo s) (shi s) (period s) (time_Sub t t0)) (readings (readClock s) n w1)"
proof (cases n)
  case (Suc k)
  then show ?thesis using assms
    by (auto simp: sine_next_def isZero_def started_delays split: prod.splits)
qed simp

section \<open>TokenBucket\<close>

definition ErrRefused :: gerr where
  "ErrRefused = Err ''schedule: limiter refused the reservation''"

text \<open>
  A reservation and a limiter, with the methods that the code finds by type assertion as
  options. hasDeadline x is whether ctx.Deadline () reports a deadline.
\<close>

record 'w reservation =
  OK :: bool
  Delay :: "'w \<Rightarrow> duration"
  Cancel :: "('w \<Rightarrow> 'w) option"

record 'w limiter =
  Reserve :: "'w \<Rightarrow> 'w reservation \<times> 'w"
  LWait :: "('w ctx \<Rightarrow> 'w \<Rightarrow> gerr option \<times> 'w) option"
  Burst :: "('w \<Rightarrow> int) option"

definition NewTokenBucket :: "'w limiter option \<Rightarrow> 'w limiter go" where
  "NewTokenBucket l =
     (case l of None \<Rightarrow> Inl ''schedule.NewTokenBucket: limiter must not be nil'' | Some lim \<Rightarrow> Inr lim)"

definition token_next :: "'w limiter \<Rightarrow> 'w \<Rightarrow> duration \<times> 'w" where
  "token_next t w = (case Reserve t w of (r, w1) \<Rightarrow> if \<not> OK r then (max_dur, w1) else (Delay r w1, w1))"

definition waitErr ::
    "('w ctx \<Rightarrow> bool) \<Rightarrow> 'w ctx \<Rightarrow> 'w limiter \<Rightarrow> 'w \<Rightarrow> gerr option \<Rightarrow> gerr option" where
  "waitErr hasDeadline x t w err =
     (case err of
        None \<Rightarrow> None
      | Some e \<Rightarrow>
          if errors_is e Canceled \<or> errors_is e DeadlineExceeded then Some e
          else if (case Burst t of Some b \<Rightarrow> b w = 0 | None \<Rightarrow> False) then Some (Wrap '': '' [ErrRefused, e])
          else if hasDeadline x then Some (Wrap ''schedule: : '' [DeadlineExceeded, e])
          else Some (Wrap '': '' [ErrRefused, e]))"

definition token_wait ::
    "('w, 'e) go_env_scheme \<Rightarrow> ('w ctx \<Rightarrow> bool) \<Rightarrow> 'w limiter \<Rightarrow> 'w ctx \<Rightarrow> 'w \<Rightarrow> gerr option \<times> 'w" where
  "token_wait env hasDeadline t x w =
     (case ctxErr x w of
        Some e \<Rightarrow> (Some e, w)
      | None \<Rightarrow>
          (case LWait t of
             Some wait \<Rightarrow> (case wait x w of (err, w1) \<Rightarrow> (waitErr hasDeadline x t w1 err, w1))
           | None \<Rightarrow>
               (case Reserve t w of (r, w1) \<Rightarrow>
                  if \<not> OK r then (Some ErrRefused, w1)
                  else if Delay r w1 \<le> 0 then (None, w1)
                  else (case select_timer env x (Delay r w1) w1 of
                          (True, w2) \<Rightarrow> (None, w2)
                        | (False, w2) \<Rightarrow>
                            (let w3 = (case Cancel r of Some c \<Rightarrow> c w2 | None \<Rightarrow> w2)
                             in (ctxErr x w3, w3))))))"

text \<open>When the bucket has granted the unit that a caller waits for.\<close>

definition granted :: "('w, 'e) go_env_scheme \<Rightarrow> 'w limiter \<Rightarrow> 'w ctx \<Rightarrow> 'w \<Rightarrow> bool" where
  "granted env t x w \<longleftrightarrow>
     (case LWait t of
        Some wait \<Rightarrow> fst (wait x w) = None
      | None \<Rightarrow> (case Reserve t w of (r, w1) \<Rightarrow>
          OK r \<and> (Delay r w1 \<le> 0 \<or> fst (select_timer env x (Delay r w1) w1))))"

definition classified :: "gerr \<Rightarrow> bool" where
  "classified e \<longleftrightarrow> errors_is e Canceled \<or> errors_is e DeadlineExceeded \<or> errors_is e ErrRefused"

text \<open>
  A context whose end a select has seen stays ended, also when the reservation is cancelled.
\<close>

definition stays_ended :: "('w, 'e) go_env_scheme \<Rightarrow> 'w limiter \<Rightarrow> 'w ctx \<Rightarrow> bool" where
  "stays_ended env t x \<longleftrightarrow> (\<forall>d w w'. select_timer env x d w = (False, w') \<longrightarrow> ctxErr x w' \<noteq> None \<and>
     (\<forall>w0 r w1 c. Reserve t w0 = (r, w1) \<longrightarrow> Cancel r = Some c \<longrightarrow> ctxErr x (c w') \<noteq> None))"

lemma stays_endedD:
  assumes "stays_ended env t x" and "select_timer env x d w = (False, w')"
  shows "ctxErr x w' \<noteq> None" and "Reserve t w0 = (r, w1) \<Longrightarrow> Cancel r = Some c \<Longrightarrow> ctxErr x (c w') \<noteq> None"
  using assms unfolding stays_ended_def by blast+

lemma waitErr_None [simp]: "waitErr h x t w err = None \<longleftrightarrow> err = None"
  by (auto simp: waitErr_def split: option.splits)

lemma waitErr_classified: "waitErr h x t w err = Some e \<Longrightarrow> classified e"
  by (auto simp: waitErr_def classified_def split: option.splits if_splits)

text \<open>
  The token bucket fails closed. Wait returns nil only if the bucket granted the unit;
  otherwise it returns the context's own error, or one that matches context.Canceled,
  context.DeadlineExceeded or ErrRefused.
\<close>

lemma token_wait_granted:
  assumes "token_wait env hasDeadline t x w = (None, w')" and "stays_ended env t x"
  shows "ctxErr x w = None" and "granted env t x w"
  using assms(1) stays_endedD [OF assms(2)]
  by (fastforce simp: token_wait_def granted_def Let_def split: option.splits prod.splits if_splits bool.splits)+

lemma token_wait_error:
  assumes "token_wait env hasDeadline t x w = (Some e, w')"
  shows "ctxErr x w = Some e \<or> ctxErr x w' = Some e \<or> classified e"
proof -
  have "classified ErrRefused" by (simp add: classified_def)
  then show ?thesis using assms waitErr_classified [of hasDeadline x t]
    by (auto simp: token_wait_def Let_def split: option.splits prod.splits if_splits bool.splits)
qed

text \<open>A refused reservation makes Next report an infinite delay, and Wait report ErrRefused.\<close>

lemma token_refused:
  assumes "Reserve t w = (r, w1)" and "\<not> OK r"
  shows "token_next t w = (max_dur, w1)"
    and "LWait t = None \<Longrightarrow> ctxErr x w = None \<Longrightarrow> token_wait env hasDeadline t x w = (Some ErrRefused, w1)"
  using assms by (simp_all add: token_next_def token_wait_def)

section \<open>Backoff sequences\<close>

lemma NewExponential_ok:
  assumes "NewExponential b mx opts = Inr e" and "\<forall>opt \<in> set opts. \<exists>f. WithFactor f = Inr opt"
    and "mx \<le> max_dur"
  shows "exp_ok e \<and> base e = b \<and> maxDelay e = mx \<and> current e = b"
proof -
  let ?P = "\<lambda>e. exp_ok e \<and> base e = b \<and> maxDelay e = mx \<and> current e = b"
  have e: "e = apply_opts opts \<lparr>base = b, maxDelay = mx, factor = (1, 1), current = b\<rparr>"
    and b: "0 < b" "b \<le> mx"
    using assms(1) by (auto simp: NewExponential_def split: if_splits)
  show ?thesis unfolding e
  proof (rule apply_opts_inv)
    show "?P \<lparr>base = b, maxDelay = mx, factor = (1, 1), current = b\<rparr>"
      using b assms(3) by (simp add: exp_ok_def fl_less_def)
    fix opt e assume "opt \<in> set opts" "?P e"
    moreover from this(1) obtain f where "WithFactor f = Inr opt" using assms(2) by blast
    ultimately show "?P (opt e)"
      by (auto simp: WithFactor_def float_ge_1_def exp_ok_def split: if_splits float64.splits)
  qed
qed

text \<open>The state after n calls of Next.\<close>

primrec after_next :: "('s \<Rightarrow> duration \<times> 's) \<Rightarrow> nat \<Rightarrow> 's \<Rightarrow> 's" where
  "after_next nxt 0 s = s"
| "after_next nxt (Suc n) s = after_next nxt n (snd (nxt s))"

lemma exp_after_ok:
  "exp_ok e \<Longrightarrow> exp_ok (after_next (exp_next wild) n e) \<and> base (after_next (exp_next wild) n e) = base e \<and>
     maxDelay (after_next (exp_next wild) n e) = maxDelay e \<and> factor (after_next (exp_next wild) n e) = factor e"
proof (induction n arbitrary: e)
  case (Suc n)
  obtain d e' where n: "exp_next wild e = (d, e')" by (metis surj_pair)
  from exp_next_ok [OF Suc.prems n] Suc.IH [of e'] n show ?case by simp
qed simp

lemma exp_reset_again:
  assumes "exp_ok e" and "current e = base e"
  shows "exp_reset (after_next (exp_next wild) n e) = e"
proof -
  note a = exp_after_ok [OF assms(1), of wild n]
  show ?thesis
    unfolding exp_reset_def by (rule exponential.equality) (use a assms(2) in simp_all)
qed

lemma exp_delays_sorted:
  "exp_ok e \<Longrightarrow> maxDelay e < 2 ^ 53 \<Longrightarrow> sorted (current e # delays (exp_next wild) n e)"
proof (induction n arbitrary: e)
  case (Suc n)
  obtain d e' where n: "exp_next wild e = (d, e')" by (metis surj_pair)
  from exp_next_ok [OF Suc.prems(1) n] have "sorted (current e' # delays (exp_next wild) n e')" "d = current e"
    using Suc by simp_all
  then show ?case using n exp_next_grows [OF Suc.prems n] by auto
qed simp

lemma exp_delays_double:
  "exp_ok e \<Longrightarrow> maxDelay e < 2 ^ 53 \<Longrightarrow> factor e = (1, 1) \<Longrightarrow> i < n \<Longrightarrow>
     delays (exp_next wild) n e ! i = min (current e * 2 ^ i) (maxDelay e)"
proof (induction n arbitrary: e i)
  case (Suc n)
  obtain d e' where n: "exp_next wild e = (d, e')" by (metis surj_pair)
  note k = exp_next_ok [OF Suc.prems(1) n] and c = exp_next_double [OF Suc.prems(1-3) n]
  show ?case
  proof (cases i)
    case 0
    then show ?thesis using n k Suc.prems(1) by (simp add: exp_ok_def)
  next
    case (Suc j)
    then have d: "delays (exp_next wild) (Suc n) e ! i = min (current e' * 2 ^ j) (maxDelay e)"
      using Suc.IH [of e' j] k Suc.prems n by simp
    have p: "maxDelay e * 1 \<le> maxDelay e * 2 ^ j" "2 * current e * 1 \<le> 2 * current e * 2 ^ j"
      using Suc.prems(1) by (intro mult_left_mono; simp add: exp_ok_def)+
    have e: "current e * 2 ^ i = 2 * current e * 2 ^ j" using Suc by simp
    have "min (min (2 * current e) (maxDelay e) * 2 ^ j) (maxDelay e) = min (2 * current e * 2 ^ j) (maxDelay e)"
      using p by (cases "2 * current e \<le> maxDelay e") auto
    then show ?thesis using d c by (simp only: e)
  qed
qed simp

text \<open>
  The default backoff doubles. With the default factor and a maximum below 2 ^ 53
  nanoseconds, call number i of Next (from 0) returns exactly the smaller of base times 2 to
  the i and the maximum.
\<close>

lemma exponential_doubles:
  assumes "NewExponential b mx [] = Inr e" and "mx < 2 ^ 53" and "i < n"
  shows "delays (exp_next wild) n e ! i = min (b * 2 ^ i) mx"
proof -
  have "mx \<le> max_dur" using assms(2) by (simp add: max_dur_def)
  then have "exp_ok e \<and> base e = b \<and> maxDelay e = mx \<and> current e = b"
    using NewExponential_ok [OF assms(1)] by simp
  moreover have "factor e = (1, 1)" using assms(1) by (auto simp: NewExponential_def split: if_splits)
  ultimately show ?thesis using exp_delays_double [of e i n wild] assms(2,3) by simp
qed

section \<open>Properties\<close>

text \<open>
  C32. Exponential backoff stays in range. For every Exponential that NewExponential made, with
  any factors that WithFactor accepts, all delays lie between 1 and the maximum, whatever a
  conversion from float64 out of the int64 range would give; with a maximum below 2 ^ 53
  nanoseconds they never shrink and are at least the base, and without options delay number i
  (from 0) is exactly the smaller of base times 2 to the i and the maximum; after Reset the
  sequence starts again from the beginning.
\<close>

theorem exponential_in_range:
  assumes "NewExponential b mx opts = Inr e" and "\<forall>opt \<in> set opts. \<exists>f. WithFactor f = Inr opt"
    and "mx \<le> max_dur"
  shows "(\<forall>d \<in> set (delays (exp_next wild) n e). 1 \<le> d \<and> d \<le> mx) \<and>
    (mx < 2 ^ 53 \<longrightarrow> sorted (b # delays (exp_next wild) n e)) \<and>
    (mx < 2 ^ 53 \<longrightarrow> opts = [] \<longrightarrow> (\<forall>i < n. delays (exp_next wild) n e ! i = min (b * 2 ^ i) mx)) \<and>
    delays (exp_next wild) n (exp_reset (after_next (exp_next wild) k e)) = delays (exp_next wild) n e"
  using NewExponential_ok [OF assms] exp_delays.delays_bounds [of e _ wild n]
    exp_delays_sorted [of e wild n] exp_reset_again [of e wild k] exponential_doubles [of b mx e _ n wild] assms(1) by auto

lemma WithFactor_3_2: "WithFactor (Fin False (3, - 1)) = Inr (\<lambda>e. e\<lparr>factor := (3, - 1)\<rparr>)"
  by (simp add: WithFactor_def float_ge_1_def fl_less_def)

theorem exponential_in_range_witness:
  "sorted (100 # delays (exp_next (\<lambda>_. 0)) 9 \<lparr>base = 100, maxDelay = 1000, factor = (3, - 1), current = 100\<rparr>)"
proof -
  have "NewExponential 100 1000 [\<lambda>e. e\<lparr>factor := (3, - 1)\<rparr>] =
      Inr \<lparr>base = 100, maxDelay = 1000, factor = (3, - 1), current = 100\<rparr>"
    by (simp add: NewExponential_def)
  moreover have "\<forall>opt \<in> set [\<lambda>e. e\<lparr>factor := (3, - 1)\<rparr>]. \<exists>f. WithFactor f = Inr opt"
    using WithFactor_3_2 by auto
  ultimately show ?thesis
    using exponential_in_range [where n = 9 and k = 0 and wild = "\<lambda>_. 0"] by (simp add: max_dur_def)
qed

text \<open>
  Uniform delays lie in [lo, hi]. For every Uniform that NewUniform made from an int64
  range, up to the whole of it, and any source whose draws are below their bound, all delays
  lie between lo and hi, and neither the bound of the draw nor the sum wraps around.
\<close>

lemma uniform_in_range:
  assumes "NewUniform l h seeded w [] = Inr u" and "h \<le> max_dur"
    and "\<And>n w. 0 < n \<Longrightarrow> 0 \<le> fst (seeded n w) \<and> fst (seeded n w) < n"
  shows "\<forall>d \<in> set (delays uniform_next n u). l \<le> d \<and> d \<le> h"
proof -
  have "uniform_ok u \<and> ulo u = l \<and> uhi u = h"
    using assms by (auto simp: NewUniform_def uniform_ok_def split: if_splits)
  then show ?thesis using uniform_delays.delays_bounds [of u _ n] by auto
qed

text \<open>
  C33. Sine follows its curve. The delays of a Sine that NewSine made are the values of one
  curve at the times since the first reading of the clock, so calls at the same instant give
  the same delay, however many there were. In float64 with all its rounding, the curve stays
  in [lo, hi], is lo at each start of a period and hi at each midpoint, and repeats with the
  period. (math.Cos is exact at 0 and at math.Pi.)
\<close>

theorem sine_follows_curve:
  assumes "NewSine l h p timeNow w [] = Inr s" and "h \<le> max_dur"
    and "timeNow w = (t0, w1)" and "t0 \<noteq> 0" and "cosine_exact cosine"
  shows "delays (sine_next cosine wild) n s =
      map (\<lambda>t. sine_curve cosine wild l h p (time_Sub t t0)) (readings timeNow n w1) \<and>
    (\<forall>e. l \<le> sine_curve cosine wild l h p e \<and> sine_curve cosine wild l h p e \<le> h) \<and>
    (\<forall>e. p dvd e \<longrightarrow> sine_curve cosine wild l h p e = l) \<and>
    (\<forall>e k. p = 2 * k \<and> 0 \<le> e \<and> e mod p = k \<longrightarrow> sine_curve cosine wild l h p e = h) \<and>
    (\<forall>e e'. 0 \<le> e \<and> 0 \<le> e' \<and> e mod p = e' mod p \<longrightarrow>
       sine_curve cosine wild l h p e = sine_curve cosine wild l h p e')"
proof -
  have s: "s = \<lparr>slo = l, shi = h, period = p, readClock = timeNow, start = 0, sworld = w\<rparr>"
    and r: "0 \<le> l" "l \<le> h" "0 < p"
    using assms(1) by (auto simp: NewSine_def split: if_splits)
  have delays: "delays (sine_next cosine wild) n s =
      map (\<lambda>t. sine_curve cosine wild l h p (time_Sub t t0)) (readings timeNow n w1)"
    using sine_delays_eq [of s t0 w1] s assms(3,4) by simp
  have middle: "sine_curve cosine wild l h p e = h" if "p = 2 * k \<and> 0 \<le> e \<and> e mod p = k" for e k
  proof -
    have "go_rem e p = k" using that r(3) go_rem_nonneg [of e p] by metis
    moreover have "p = 2 * k" "0 < k" using that r(3) by simp_all
    ultimately show ?thesis using curve_middle [OF assms(5), of k] by (simp add: sine_curve_def)
  qed
  have bottom: "sine_curve cosine wild l h p e = l" if "p dvd e" for e
    using curve_start [OF assms(5) r(1,2) assms(2)] that by (simp add: sine_curve_def go_rem_dvd)
  have same: "sine_curve cosine wild l h p e = sine_curve cosine wild l h p e'"
    if "0 \<le> e \<and> 0 \<le> e' \<and> e mod p = e' mod p" for e e'
    using that r(3) by (simp add: sine_curve_def go_rem_nonneg)
  show ?thesis
    using delays sine_curve_bounds [OF r(1,2) assms(2)] bottom middle same by (intro conjI allI impI) simp_all
qed

theorem sine_follows_curve_witness:
  "delays (sine_next (\<lambda>x. if fst x = 0 then (1, 0) else (- 1, 0)) (\<lambda>_. - 1)) 3
     \<lparr>slo = 5, shi = 9, period = 8, readClock = (\<lambda>w. (w, w + 4)), start = 0, sworld = 100\<rparr> = [9, 5, 9]"
proof -
  let ?c = "\<lambda>x :: sfl. if fst x = 0 then (1, 0) else (- 1, 0) :: sfl"
  have "cosine_exact ?c" by (simp add: cosine_exact_def fl_pi_def)
  with sine_follows_curve [of 5 9 8 "\<lambda>w. (w, w + 4)" 100 _ 100 104 ?c "\<lambda>_. - 1" 3]
  show ?thesis by (simp add: NewSine_def max_dur_def numeral_3_eq_3 go_time)
qed

text \<open>
  A factor of 1 does not keep every base constant: above 2 ^ 53 nanoseconds the conversion
  to float64 rounds.
\<close>

lemma factor_1_can_shrink:
  "delays (exp_next wild) 2 \<lparr>base = 2 ^ 53 + 1, maxDelay = 2 ^ 54, factor = (1, 0), current = 2 ^ 53 + 1\<rparr> =
     [2 ^ 53 + 1, 2 ^ 53]"
proof -
  have "round_mant (2 ^ 53 + 1) = (2 ^ 52, 1)" "round_mant (2 ^ 54) = (2 ^ 52, 2)" "round_mant (2 ^ 52) = (2 ^ 52, 0)"
    by (simp_all add: round_mant_def bitlen_eqI [of 54] bitlen_eqI [of 55] bitlen_eqI [of 53])
  then show ?thesis
    by (simp add: exp_next_def Let_def fl_mult_def fl_of_nat_def fl_less_def fl_to_i64_def fl_trunc_def
        max_dur_def delays_2)
qed

end
