(* ===== verification/RetryBackoff.thy ===== *)
theory RetryBackoff
  imports Retry Schedule
begin

text \<open>
  Package retry over package schedule: a Retry whose Schedule is one of the sequences, kept
  in the world. get and put read and write the state of the sequence there; the function,
  the hook and the timers do not touch it.
\<close>

definition schedule_in ::
    "('s \<Rightarrow> duration \<times> 's) \<Rightarrow> ('s \<Rightarrow> 's) option \<Rightarrow> ('w \<Rightarrow> 's) \<Rightarrow> ('s \<Rightarrow> 'w \<Rightarrow> 'w) \<Rightarrow> 'w schedule" where
  "schedule_in nxt reset get put =
     \<lparr>Next = (\<lambda>w. case nxt (get w) of (d, s) \<Rightarrow> (d, put s w)),
      Reset = map_option (\<lambda>f w. put (f (get w)) w) reset\<rparr>"

definition undisturbed_schedule ::
    "'w go_env \<Rightarrow> 'w retry \<Rightarrow> 'w ctx \<Rightarrow> ('w ctx \<Rightarrow> 'w \<Rightarrow> gerr option \<times> 'w) \<Rightarrow> ('w \<Rightarrow> 's) \<Rightarrow> ('s \<Rightarrow> 'w \<Rightarrow> 'w) \<Rightarrow> bool" where
  "undisturbed_schedule env r x fn get put \<longleftrightarrow>
     (\<forall>w. get (snd (fn x w)) = get w) \<and> (\<forall>i w. get (fire r i w) = get w) \<and>
     (\<forall>d w. get (snd (select_timer env x d w)) = get w) \<and> (\<forall>s w. get (put s w) = s)"

lemma schedule_undisturbedD:
  assumes "undisturbed_schedule env r x fn get put"
  shows "fn x w = (e, w') \<Longrightarrow> get w' = get w" and "get (fire r i w) = get w"
    and "go_sleep env x d w = (e', w'') \<Longrightarrow> get w'' = get w" and "get (put s w) = s"
proof -
  note u = assms [unfolded undisturbed_schedule_def]
  show "fn x w = (e, w') \<Longrightarrow> get w' = get w" using u by (metis snd_conv)
  show "get (fire r i w) = get w" "get (put s w) = s" using u by blast+
  show "go_sleep env x d w = (e', w'') \<Longrightarrow> get w'' = get w"
    using u by (auto simp: go_sleep_def split: if_splits prod.splits bool.splits; metis snd_conv)
qed

text \<open>The delays that the reports of a run promise, but for the last report.\<close>

definition waits_are :: "attemptInfo list \<Rightarrow> duration list \<Rightarrow> bool" where
  "waits_are is ds \<longleftrightarrow> butlast (map NextOf is) = take (length is - 1) ds"

lemma waits_are_Cons:
  "is \<noteq> [] \<Longrightarrow> waits_are is ds \<Longrightarrow> NextOf i = d \<Longrightarrow> waits_are (i # is) (d # ds)"
  by (cases "is") (simp_all add: waits_are_def)

lemma waits_are_single [simp]: "waits_are [i] ds"
  by (simp add: waits_are_def)

lemma retry_loop_waits:
  assumes u: "undisturbed_schedule env r x fn get put" and o: "observed env r x fn calls infos"
    and sch: "rschedule r = schedule_in nxt reset get put"
    and "retry_loop env r x fn t0 a w = Some (res, w')"
  shows "\<exists>is. infos w' = infos w @ is \<and> is \<noteq> [] \<and> waits_are is (delays nxt (length is) (get w))"
proof -
  let ?H = "\<lambda>env r x fn. undisturbed_schedule env r x fn get put \<and> observed env r x fn calls infos \<and>
    rschedule r = schedule_in nxt reset get put"
  let ?C = "\<lambda>w w'. \<exists>is. infos w' = infos w @ is \<and> is \<noteq> [] \<and> waits_are is (delays nxt (length is) (get w))"
  let ?P = "\<lambda>env r x fn t0 a w y. ?H env r x fn \<longrightarrow> ?C w (snd y)"
  have "?P env r x fn t0 a w (res, w')"
  proof (rule retry_loop_induct [where P = ?P, OF _ assms(4)], rule impI)
    fix loop env r x fn t0 a w y
    assume IH: "\<And>env r x fn t0 a w y. loop env r x fn t0 a w = Some y \<Longrightarrow> ?P env r x fn t0 a w y"
      and body: "(case fn x w of (err, w1) \<Rightarrow>
        (let elapsed = time_Sub (nowOf env w1) t0 in
         case err of
           None \<Rightarrow> Some (None, fire r \<lparr>Attempt = a, Elapsed = elapsed, ErrOf = None, NextOf = 0\<rparr> w1)
         | Some e \<Rightarrow>
             if rstop r a elapsed e
             then Some (Some e,
               fire r \<lparr>Attempt = a, Elapsed = elapsed, ErrOf = Some e, NextOf = 0\<rparr> w1)
             else (case Next (rschedule r) w1 of (next, w2) \<Rightarrow>
                (case go_sleep env x next
                   (fire r \<lparr>Attempt = a, Elapsed = elapsed, ErrOf = Some e, NextOf = next\<rparr> w2) of
                   (Some e', w4) \<Rightarrow> Some (Some e', w4)
                 | (None, w4) \<Rightarrow> loop env r x fn t0 (a + 1) w4)))) = Some y"
      and H: "?H env r x fn"
    obtain err w1 where fn: "fn x w = (err, w1)" by (metis surj_pair)
    let ?el = "time_Sub (nowOf env w1) t0"
    from H have u: "undisturbed_schedule env r x fn get put" and o: "observed env r x fn calls infos" by simp_all
    have f: "get w1 = get w" "infos w1 = infos w" using schedule_undisturbedD(1) [OF u fn] observedD(1) [OF o fn] by simp_all
    show "?C w (snd y)"
    proof (cases "\<exists>e. err = Some e \<and> \<not> rstop r a ?el e")
      case False
      then have "y = (err, fire r \<lparr>Attempt = a, Elapsed = ?el, ErrOf = err, NextOf = 0\<rparr> w1)"
        using body fn by (cases err) (simp_all add: Let_def)
      then show ?thesis
        using f observedD(2) [OF o]
        by (intro exI [of _ "[\<lparr>Attempt = a, Elapsed = ?el, ErrOf = err, NextOf = 0\<rparr>]"]) simp
    next
      case True
      then obtain e where e: "err = Some e" "\<not> rstop r a ?el e" by blast
      obtain nx s where nx: "nxt (get w1) = (nx, s)" by (metis surj_pair)
      then have n: "Next (rschedule r) w1 = (nx, put s w1)" using H by (simp add: schedule_in_def)
      let ?i = "\<lparr>Attempt = a, Elapsed = ?el, ErrOf = Some e, NextOf = nx\<rparr>"
      obtain ce w4 where sl: "go_sleep env x nx (fire r ?i (put s w1)) = (ce, w4)" by (metis surj_pair)
      have w4: "infos w4 = infos w @ [?i]" "get w4 = s"
        using f observedD(2) [OF o, of ?i "put s w1"] observedD(3) [OF o n] observedD(4) [OF o sl]
          schedule_undisturbedD(2,4) [OF u] schedule_undisturbedD(3) [OF u sl] by simp_all
      show ?thesis
      proof (cases ce)
        case (Some c)
        then have "y = (Some c, w4)" using body fn e n sl by (simp add: Let_def)
        then show ?thesis using w4 by (intro exI [of _ "[?i]"]) simp
      next
        case None
        then have "loop env r x fn t0 (a + 1) w4 = Some y" using body fn e n sl by (simp add: Let_def)
        from IH [OF this] H obtain js where "infos (snd y) = infos w4 @ js" "js \<noteq> []"
          "waits_are js (delays nxt (length js) (get w4))" by blast
        then show ?thesis
          using w4 nx f waits_are_Cons [of js _ ?i nx] by (intro exI [of _ "?i # js"]) simp
      qed
    qed
  qed
  then show ?thesis using assms(1-3) by simp
qed

section \<open>Properties\<close>


text \<open>A world with the backoff in it, after a call that has used it twice.\<close>

record backoff_world =
  bclock :: time
  bcalls :: nat
  binfos :: "attemptInfo list"
  backoff :: exponential

definition backoff_env :: "backoff_world go_env" where
  "backoff_env = \<lparr>nowOf = bclock, select_timer = (\<lambda>x d w. (True, w\<lparr>bclock := bclock w + d\<rparr>))\<rparr>"

definition backoff_retry :: "backoff_world retry" where
  "backoff_retry = \<lparr>rschedule = schedule_in (exp_next (\<lambda>_. 0)) (Some exp_reset) backoff (\<lambda>s w. w\<lparr>backoff := s\<rparr>),
     rstop = (\<lambda>a el e. 3 \<le> a), onAttempt = Some (\<lambda>i w. w\<lparr>binfos := binfos w @ [i]\<rparr>)\<rparr>"

definition backoff_fn :: "backoff_world ctx \<Rightarrow> backoff_world \<Rightarrow> gerr option \<times> backoff_world" where
  "backoff_fn x w = (Some (Err ''down''), w\<lparr>bcalls := Suc (bcalls w)\<rparr>)"

definition backoff_start :: backoff_world where
  "backoff_start = \<lparr>bclock = 7, bcalls = 0, binfos = [],
     backoff = after_next (exp_next (\<lambda>_. 0)) 2 \<lparr>base = 10, maxDelay = 15, factor = (1, 1), current = 10\<rparr>\<rparr>"


end
