(* ===== verification/RetryConc.thy ===== *)
theory RetryConc
  imports RetryBackoff
begin

text \<open>
  Calls of Do on one Retry side by side: a step relation over goroutines in which Do
  (retry/retry.go) is cut at the points where others may run. A Retry holds no mutable state
  of its own, so what the calls share is the Schedule, whose Next and Reset are one step each,
  since they hold its mutex; fn, the hook and the waits take time.
\<close>

section \<open>State\<close>

datatype qpc =
    QIdle
  | QResetting                              \<comment> \<open>Do: before Reset\<close>
  | QTiming                                 \<comment> \<open>Do: before time.Now\<close>
  | QCalling time int                       \<comment> \<open>fn runs: start of Do, attempt\<close>
  | QAsking time int duration gerr          \<comment> \<open>before schedule.Next: also elapsed and error\<close>
  | QHooking time int duration gerr duration  \<comment> \<open>before the end of the hook: also the delay\<close>
  | QSleeping time int time duration        \<comment> \<open>sleep: start of Do, attempt, since when, how long\<close>
  | QDone "gerr option"
  | QUnwound                                \<comment> \<open>fn panicked or called Goexit\<close>

text \<open>
  drawn, qtold and qstarted are not in the code: the delays that Next gave since the last Reset,
  and for each goroutine the times at which its hook returned and at which fn was called. qlog
  is what its hook was given.
\<close>

record 's qsys =
  qclk :: time
  sched :: 's
  qended :: "nat \<Rightarrow> bool"
  qpcs :: "nat \<Rightarrow> qpc"
  qlog :: "nat \<Rightarrow> attemptInfo list"
  drawn :: "duration list"
  qtold :: "nat \<Rightarrow> time list"
  qstarted :: "nat \<Rightarrow> time list"

abbreviation qgo :: "'s qsys \<Rightarrow> nat \<Rightarrow> qpc \<Rightarrow> 's qsys" where
  "qgo s i p \<equiv> s\<lparr>qpcs := (qpcs s)(i := p)\<rparr>"

text \<open>Goroutine i calls fn for the given attempt; its hook is given a report.\<close>

definition attempt_fn :: "'s qsys \<Rightarrow> nat \<Rightarrow> time \<Rightarrow> int \<Rightarrow> 's qsys" where
  "attempt_fn s i t a = (qgo s i (QCalling t a))\<lparr>qstarted := (qstarted s)(i := qstarted s i @ [qclk s])\<rparr>"

definition report :: "'s qsys \<Rightarrow> nat \<Rightarrow> attemptInfo \<Rightarrow> qpc \<Rightarrow> 's qsys" where
  "report s i info p = (qgo s i p)\<lparr>qlog := (qlog s)(i := qlog s i @ [info]),
     qtold := (qtold s)(i := qtold s i @ [qclk s])\<rparr>"

section \<open>Steps\<close>

text \<open>
  nxt and reset are the methods of the Schedule, stop is the StopFunc, and cerr i is what the
  context of goroutine i reports once it has ended.
\<close>

inductive qstep ::
    "('s \<Rightarrow> duration \<times> 's) \<Rightarrow> ('s \<Rightarrow> 's) option \<Rightarrow> stopFunc \<Rightarrow> (nat \<Rightarrow> gerr) \<Rightarrow> 's qsys \<Rightarrow> 's qsys \<Rightarrow> bool"
  for nxt reset stop cerr where
  q_tick: "0 \<le> d \<Longrightarrow> qstep nxt reset stop cerr s (s\<lparr>qclk := qclk s + d\<rparr>)"
| q_ctx_end: "qstep nxt reset stop cerr s (s\<lparr>qended := (qended s)(i := True)\<rparr>)"
| q_call: "qpcs s i = QIdle \<Longrightarrow> qstep nxt reset stop cerr s (qgo s i QResetting)"
| q_reset: "qpcs s i = QResetting \<Longrightarrow> reset = Some f \<Longrightarrow>
    qstep nxt reset stop cerr s (qgo (s\<lparr>sched := f (sched s), drawn := []\<rparr>) i QTiming)"
| q_no_reset: "qpcs s i = QResetting \<Longrightarrow> reset = None \<Longrightarrow> qstep nxt reset stop cerr s (qgo s i QTiming)"
| q_start: "qpcs s i = QTiming \<Longrightarrow> qstep nxt reset stop cerr s (attempt_fn s i (qclk s) 1)"
| q_ok: "qpcs s i = QCalling t a \<Longrightarrow>
    qstep nxt reset stop cerr s (report s i
      \<lparr>Attempt = a, Elapsed = time_Sub (qclk s) t, ErrOf = None, NextOf = 0\<rparr> (QDone None))"
| q_halt: "qpcs s i = QCalling t a \<Longrightarrow> stop a (time_Sub (qclk s) t) e \<Longrightarrow>
    qstep nxt reset stop cerr s (report s i
      \<lparr>Attempt = a, Elapsed = time_Sub (qclk s) t, ErrOf = Some e, NextOf = 0\<rparr> (QDone (Some e)))"
| q_failed: "qpcs s i = QCalling t a \<Longrightarrow> \<not> stop a (time_Sub (qclk s) t) e \<Longrightarrow>
    qstep nxt reset stop cerr s (qgo s i (QAsking t a (time_Sub (qclk s) t) e))"
| q_unwind: "qpcs s i = QCalling t a \<Longrightarrow> qstep nxt reset stop cerr s (qgo s i QUnwound)"
| q_next: "qpcs s i = QAsking t a el e \<Longrightarrow> nxt (sched s) = (d, sch) \<Longrightarrow>
    qstep nxt reset stop cerr s
      (qgo (s\<lparr>sched := sch, drawn := drawn s @ [d]\<rparr>) i (QHooking t a el e d))"
| q_fire: "qpcs s i = QHooking t a el e d \<Longrightarrow>
    qstep nxt reset stop cerr s (report s i
      \<lparr>Attempt = a, Elapsed = el, ErrOf = Some e, NextOf = d\<rparr> (QSleeping t a (qclk s) d))"
| q_no_wait: "qpcs s i = QSleeping t a u d \<Longrightarrow> d \<le> 0 \<Longrightarrow> \<not> qended s i \<Longrightarrow>
    qstep nxt reset stop cerr s (attempt_fn s i t (a + 1))"
| q_waited: "qpcs s i = QSleeping t a u d \<Longrightarrow> 0 < d \<Longrightarrow> u + d \<le> qclk s \<Longrightarrow>
    qstep nxt reset stop cerr s (attempt_fn s i t (a + 1))"
| q_cancel: "qpcs s i = QSleeping t a u d \<Longrightarrow> qended s i \<Longrightarrow>
    qstep nxt reset stop cerr s (qgo s i (QDone (Some (cerr i))))"

text \<open>The calls begin with a schedule that n calls of Next have taken from s0 on.\<close>

inductive qreach ::
    "('s \<Rightarrow> duration \<times> 's) \<Rightarrow> ('s \<Rightarrow> 's) option \<Rightarrow> stopFunc \<Rightarrow> (nat \<Rightarrow> gerr) \<Rightarrow> 's \<Rightarrow> 's qsys \<Rightarrow> bool"
  for nxt reset stop cerr s0 where
  qreach_init: "sched s = after_next nxt n s0 \<Longrightarrow> drawn s = delays nxt n s0 \<Longrightarrow>
    (\<And>i. qpcs s i = QIdle \<and> qlog s i = [] \<and> qtold s i = [] \<and> qstarted s i = []) \<Longrightarrow>
    qreach nxt reset stop cerr s0 s"
| qreach_step: "qreach nxt reset stop cerr s0 s \<Longrightarrow> qstep nxt reset stop cerr s s' \<Longrightarrow>
    qreach nxt reset stop cerr s0 s'"

section \<open>The shared schedule\<close>

lemma after_next_snoc: "after_next nxt (Suc n) s = snd (nxt (after_next nxt n s))"
  by (induction n arbitrary: s) simp_all

lemma delays_snoc: "delays nxt (Suc n) s = delays nxt n s @ [fst (nxt (after_next nxt n s))]"
proof (induction n arbitrary: s)
  case (Suc n)
  obtain d s' where n: "nxt s = (d, s')" by (metis surj_pair)
  then show ?case using Suc.IH [of s'] by simp
qed (simp split: prod.splits)

lemma delays_nth: "i < n \<Longrightarrow> delays nxt n s ! i = fst (nxt (after_next nxt i s))"
proof (induction n arbitrary: i s)
  case (Suc n)
  obtain d s' where n: "nxt s = (d, s')" by (metis surj_pair)
  show ?case using Suc.IH [of "i - 1" s'] Suc.prems n by (cases i) auto
qed simp

definition sched_inv :: "('s \<Rightarrow> duration \<times> 's) \<Rightarrow> 's \<Rightarrow> 's qsys \<Rightarrow> bool" where
  "sched_inv nxt s0 s \<longleftrightarrow>
     (\<exists>n. sched s = after_next nxt n s0 \<and> drawn s = delays nxt n s0)"

lemma qstep_sched_inv:
  assumes "qstep nxt reset stop cerr s s'" and "sched_inv nxt s0 s"
    and "\<And>f n. reset = Some f \<Longrightarrow> f (after_next nxt n s0) = s0"
  shows "sched_inv nxt s0 s'"
  using assms(1,2)
proof cases
  case (q_reset i f)
  with assms(2,3) show ?thesis by (auto simp: sched_inv_def intro: exI [of _ 0])
next
  case (q_next i t a el e d sch)
  from assms(2) obtain n where "sched s = after_next nxt n s0" "drawn s = delays nxt n s0"
    by (auto simp: sched_inv_def)
  with q_next show ?thesis
    unfolding sched_inv_def by (intro exI [of _ "Suc n"]) (simp add: delays_snoc after_next_snoc del: delays.simps after_next.simps)
qed (auto simp: sched_inv_def attempt_fn_def report_def)

section \<open>One call\<close>

text \<open>Reports of failed attempts, numbered from a on, on none of which the condition halted.\<close>

fun retrying :: "stopFunc \<Rightarrow> int \<Rightarrow> attemptInfo list \<Rightarrow> bool" where
  "retrying stop a [] \<longleftrightarrow> True"
| "retrying stop a (i # is) \<longleftrightarrow> Attempt i = a \<and>
     (\<exists>e. ErrOf i = Some e \<and> \<not> stop a (Elapsed i) e) \<and> retrying stop (a + 1) is"

lemma retrying_snoc:
  "retrying stop a (is @ [i]) \<longleftrightarrow> retrying stop a is \<and> Attempt i = a + int (length is) \<and>
     (\<exists>e. ErrOf i = Some e \<and> \<not> stop (a + int (length is)) (Elapsed i) e)"
  by (induction "is" arbitrary: a) (auto simp: add.assoc add.commute [of 1])

lemma retrying_log_ok:
  "retrying stop a is \<Longrightarrow> log_ok stop c res (a + int (length is)) [i] \<Longrightarrow> log_ok stop c res a (is @ [i])"
proof (induction "is" arbitrary: a)
  case (Cons j js)
  then obtain e where e: "ErrOf j = Some e" "\<not> stop a (Elapsed j) e" "Attempt j = a" by auto
  have "a + int (length (j # js)) = a + 1 + int (length js)" by simp
  with Cons.prems(2) have "log_ok stop c res (a + 1 + int (length js)) [i]" by (simp only:)
  with Cons.IH [of "a + 1"] Cons.prems(1) have "log_ok stop c res (a + 1) (js @ [i])" by simp
  from log_ok_Cons [OF this e(3,1,2)] show ?case by simp
qed simp

lemma retrying_cancelled:
  "retrying stop a is \<Longrightarrow> is \<noteq> [] \<Longrightarrow> log_ok stop (Some c) (Some c) a is"
  by (induction stop "Some c" "Some c" a "is" rule: log_ok.induct) auto

text \<open>The wait that a report announced lies between its hook and the next call of fn.\<close>

definition waited :: "attemptInfo list \<Rightarrow> time list \<Rightarrow> time list \<Rightarrow> bool" where
  "waited is told started \<longleftrightarrow>
     (\<forall>j. Suc j < length started \<longrightarrow> told ! j + NextOf (is ! j) \<le> started ! Suc j)"

lemma waited_snoc:
  assumes "waited is told started" and "length is = length told" and "length told = length started"
    and "started \<noteq> [] \<Longrightarrow> last told + NextOf (last is) \<le> now"
  shows "waited is told (started @ [now])"
  unfolding waited_def
proof (intro allI impI)
  fix j assume j: "Suc j < length (started @ [now])"
  show "told ! j + NextOf (is ! j) \<le> (started @ [now]) ! Suc j"
  proof (cases "Suc j < length started")
    case True
    then show ?thesis using assms(1) by (simp add: waited_def nth_append)
  next
    case False
    with j have n: "length started = Suc j" by simp
    then have "last told = told ! j" "last is = is ! j" using assms(2,3) by (simp_all add: last_conv_nth flip: length_0_conv)
    moreover have "(started @ [now]) ! Suc j = now" using n by (simp add: nth_append)
    moreover have "started \<noteq> []" using n by auto
    ultimately show ?thesis using assms(4) by simp
  qed
qed

lemma waited_report:
  assumes "waited is told started" and "length is = length told" and "length started \<le> Suc (length told)"
  shows "waited (is @ [i]) (told @ [now]) started"
  using assms by (auto simp: waited_def nth_append)

text \<open>
  n failed attempts have been reported; the calls of fn so far, the hooks and the waits fit.
\<close>

definition reported :: "stopFunc \<Rightarrow> nat \<Rightarrow> attemptInfo list \<Rightarrow> time list \<Rightarrow> time list \<Rightarrow> bool" where
  "reported stop n is told started \<longleftrightarrow>
     retrying stop 1 is \<and> length is = n \<and> length told = n \<and> waited is told started"

fun call_ok :: "stopFunc \<Rightarrow> gerr option \<Rightarrow> attemptInfo list \<Rightarrow> time list \<Rightarrow> time list \<Rightarrow> time \<Rightarrow> qpc \<Rightarrow> bool" where
  "call_ok stop c is told started now (QCalling t a) \<longleftrightarrow>
     (\<exists>n. a = 1 + int n \<and> length started = Suc n \<and> reported stop n is told started)"
| "call_ok stop c is told started now (QAsking t a el e) \<longleftrightarrow> \<not> stop a el e \<and>
     (\<exists>n. a = 1 + int n \<and> length started = Suc n \<and> reported stop n is told started)"
| "call_ok stop c is told started now (QHooking t a el e d) \<longleftrightarrow> \<not> stop a el e \<and>
     (\<exists>n. a = 1 + int n \<and> length started = Suc n \<and> reported stop n is told started)"
| "call_ok stop c is told started now (QSleeping t a u d) \<longleftrightarrow>
     (\<exists>n. a = 1 + int n \<and> length started = Suc n \<and> reported stop (Suc n) is told started) \<and>
     last told = u \<and> u \<le> now \<and> NextOf (last is) = d"
| "call_ok stop c is told started now (QDone res) \<longleftrightarrow>
     log_ok stop c res 1 is \<and> length started = length is \<and> length told = length is \<and> waited is told started"
| "call_ok stop c is told started now QUnwound \<longleftrightarrow>
     (\<exists>n. length started = Suc n \<and> reported stop n is told started)"
| "call_ok stop c is told started now p \<longleftrightarrow> is = [] \<and> told = [] \<and> started = []"

definition ctx_err :: "(nat \<Rightarrow> gerr) \<Rightarrow> 's qsys \<Rightarrow> nat \<Rightarrow> gerr option" where
  "ctx_err cerr s i = (if qended s i then Some (cerr i) else None)"

definition calls_inv :: "stopFunc \<Rightarrow> (nat \<Rightarrow> gerr) \<Rightarrow> 's qsys \<Rightarrow> bool" where
  "calls_inv stop cerr s \<longleftrightarrow>
     (\<forall>i. call_ok stop (ctx_err cerr s i) (qlog s i) (qtold s i) (qstarted s i) (qclk s) (qpcs s i))"

lemma log_ok_ended:
  "log_ok stop None res a is \<Longrightarrow> log_ok stop (Some e) res a is"
  by (induction stop "None :: gerr option" res a "is" rule: log_ok.induct)
    (auto split: option.splits if_splits)

lemma call_ok_mono:
  "call_ok stop c is told started now p \<Longrightarrow> now \<le> now' \<Longrightarrow> c = c' \<or> c = None \<Longrightarrow>
     call_ok stop c' is told started now' p"
  by (cases p; cases c') (auto intro: log_ok_ended)

text \<open>A step of goroutine i leaves the others as they are.\<close>

lemma calls_inv_upd:
  assumes "calls_inv stop cerr s" and "qclk s' = qclk s" and "qended s' = qended s"
    and "\<And>j. j \<noteq> i \<Longrightarrow> qpcs s' j = qpcs s j \<and> qlog s' j = qlog s j \<and> qtold s' j = qtold s j \<and> qstarted s' j = qstarted s j"
    and "call_ok stop (ctx_err cerr s i) (qlog s' i) (qtold s' i) (qstarted s' i) (qclk s) (qpcs s' i)"
  shows "calls_inv stop cerr s'"
  unfolding calls_inv_def
proof
  fix j
  show "call_ok stop (ctx_err cerr s' j) (qlog s' j) (qtold s' j) (qstarted s' j) (qclk s') (qpcs s' j)"
    using assms by (cases "j = i") (simp_all add: calls_inv_def ctx_err_def)
qed

lemma calls_invD:
  "calls_inv stop cerr s \<Longrightarrow> qpcs s i = p \<Longrightarrow>
     call_ok stop (ctx_err cerr s i) (qlog s i) (qtold s i) (qstarted s i) (qclk s) p"
  unfolding calls_inv_def by blast

lemma start_attempt:
  assumes "reported stop n is told started" and "length started = n"
    and "started \<noteq> [] \<Longrightarrow> last told + NextOf (last is) \<le> now"
  shows "reported stop n is told (started @ [now])"
  using assms waited_snoc [of "is" told started now] by (simp add: reported_def)

lemma report_retry:
  assumes "reported stop n is told started" and "length started = Suc n"
    and "\<not> stop (1 + int n) el e"
  shows "reported stop (Suc n) (is @ [\<lparr>Attempt = 1 + int n, Elapsed = el, ErrOf = Some e, NextOf = d\<rparr>]) (told @ [now]) started"
  using assms waited_report [of "is" told started _ now] by (simp add: reported_def retrying_snoc)

lemma report_last:
  assumes "reported stop n is told started" and "length started = Suc n"
    and "log_ok stop c res (1 + int n) [i]"
  shows "call_ok stop c (is @ [i]) (told @ [now]) started now' (QDone res)"
  using assms waited_report [of "is" told started i now] retrying_log_ok [of stop 1 "is" c res i]
  by (simp add: reported_def)

lemma qstep_calls_inv:
  assumes "qstep nxt reset stop cerr s s'" and inv: "calls_inv stop cerr s"
  shows "calls_inv stop cerr s'"
  using assms(1)
proof cases
  case (q_tick d)
  then show ?thesis using inv unfolding calls_inv_def by (auto simp: ctx_err_def intro: call_ok_mono)
next
  case (q_ctx_end i)
  show ?thesis
    unfolding calls_inv_def
  proof
    fix j
    have "call_ok stop (ctx_err cerr s j) (qlog s j) (qtold s j) (qstarted s j) (qclk s) (qpcs s j)"
      using inv unfolding calls_inv_def by blast
    from call_ok_mono [OF this order_refl, of "ctx_err cerr s' j"]
    show "call_ok stop (ctx_err cerr s' j) (qlog s' j) (qtold s' j) (qstarted s' j) (qclk s') (qpcs s' j)"
      unfolding q_ctx_end by (auto simp: ctx_err_def)
  qed
next
  case (q_call i)
  then show ?thesis using calls_invD [OF inv q_call(2)] by (intro calls_inv_upd [OF inv, of _ i]) auto
next
  case (q_reset i f)
  then show ?thesis using calls_invD [OF inv q_reset(2)] by (intro calls_inv_upd [OF inv, of _ i]) auto
next
  case (q_no_reset i)
  then show ?thesis using calls_invD [OF inv q_no_reset(2)] by (intro calls_inv_upd [OF inv, of _ i]) auto
next
  case (q_start i)
  then show ?thesis
    using calls_invD [OF inv q_start(2)]
    by (intro calls_inv_upd [OF inv, of _ i]) (auto simp: attempt_fn_def reported_def waited_def)
next
  case (q_ok i t a)
  with calls_invD [OF inv q_ok(2)] obtain n where n: "a = 1 + int n" "length (qstarted s i) = Suc n"
    "reported stop n (qlog s i) (qtold s i) (qstarted s i)" by auto
  have "call_ok stop (ctx_err cerr s i)
      (qlog s i @ [\<lparr>Attempt = a, Elapsed = time_Sub (qclk s) t, ErrOf = None, NextOf = 0\<rparr>])
      (qtold s i @ [qclk s]) (qstarted s i) (qclk s) (QDone None)"
    by (rule report_last [OF n(3,2)]) (simp add: n(1))
  then show ?thesis unfolding q_ok(1)
    by (intro calls_inv_upd [OF inv, of _ i]) (simp_all add: report_def)
next
  case (q_halt i t a e)
  with calls_invD [OF inv q_halt(2)] obtain n where n: "a = 1 + int n" "length (qstarted s i) = Suc n"
    "reported stop n (qlog s i) (qtold s i) (qstarted s i)" by auto
  have "call_ok stop (ctx_err cerr s i)
      (qlog s i @ [\<lparr>Attempt = a, Elapsed = time_Sub (qclk s) t, ErrOf = Some e, NextOf = 0\<rparr>])
      (qtold s i @ [qclk s]) (qstarted s i) (qclk s) (QDone (Some e))"
    by (rule report_last [OF n(3,2)]) (use q_halt(3) n(1) in simp)
  then show ?thesis unfolding q_halt(1)
    by (intro calls_inv_upd [OF inv, of _ i]) (simp_all add: report_def)
next
  case (q_failed i t a e)
  then show ?thesis using calls_invD [OF inv q_failed(2)] by (intro calls_inv_upd [OF inv, of _ i]) auto
next
  case (q_unwind i t a)
  then show ?thesis using calls_invD [OF inv q_unwind(2)] by (intro calls_inv_upd [OF inv, of _ i]) auto
next
  case (q_next i t a el e d sch)
  then show ?thesis using calls_invD [OF inv q_next(2)] by (intro calls_inv_upd [OF inv, of _ i]) auto
next
  case (q_fire i t a el e d)
  with calls_invD [OF inv q_fire(2)] obtain n where n: "a = 1 + int n" "length (qstarted s i) = Suc n"
    "reported stop n (qlog s i) (qtold s i) (qstarted s i)" "\<not> stop a el e" by auto
  show ?thesis unfolding q_fire(1)
    by (rule calls_inv_upd [OF inv, of _ i])
      (use report_retry [OF n(3,2)] n(1,2,4) in \<open>simp_all add: report_def\<close>)
next
  case (q_no_wait i t a u d)
  with calls_invD [OF inv q_no_wait(2)] obtain n where n: "a = 1 + int n" "length (qstarted s i) = Suc n"
    "reported stop (Suc n) (qlog s i) (qtold s i) (qstarted s i)"
    "last (qtold s i) = u" "u \<le> qclk s" "NextOf (last (qlog s i)) = d" by auto
  have "reported stop (Suc n) (qlog s i) (qtold s i) (qstarted s i @ [qclk s])"
    by (rule start_attempt [OF n(3,2)]) (use n(4-6) q_no_wait(3) in simp)
  then show ?thesis unfolding q_no_wait(1)
    by (intro calls_inv_upd [OF inv, of _ i]) (use n(1,2) in \<open>simp_all add: attempt_fn_def\<close>)
next
  case (q_waited i t a u d)
  with calls_invD [OF inv q_waited(2)] obtain n where n: "a = 1 + int n" "length (qstarted s i) = Suc n"
    "reported stop (Suc n) (qlog s i) (qtold s i) (qstarted s i)"
    "last (qtold s i) = u" "u \<le> qclk s" "NextOf (last (qlog s i)) = d" by auto
  have "reported stop (Suc n) (qlog s i) (qtold s i) (qstarted s i @ [qclk s])"
    by (rule start_attempt [OF n(3,2)]) (use n(4-6) q_waited(4) in simp)
  then show ?thesis unfolding q_waited(1)
    by (intro calls_inv_upd [OF inv, of _ i]) (use n(1,2) in \<open>simp_all add: attempt_fn_def\<close>)
next
  case (q_cancel i t a u d)
  with calls_invD [OF inv q_cancel(2)] obtain n where n: "length (qstarted s i) = Suc n"
    "reported stop (Suc n) (qlog s i) (qtold s i) (qstarted s i)" by auto
  then have "qlog s i \<noteq> []" by (auto simp: reported_def)
  then show ?thesis unfolding q_cancel(1)
    by (intro calls_inv_upd [OF inv, of _ i])
      (use n q_cancel(3) retrying_cancelled [of stop 1 "qlog s i" "cerr i"] in \<open>simp_all add: reported_def ctx_err_def\<close>)
qed

section \<open>The announced waits\<close>

text \<open>A delay that the sequence from s0 on contains; a report of an attempt that goes on.\<close>

definition from_seq :: "('s \<Rightarrow> duration \<times> 's) \<Rightarrow> 's \<Rightarrow> duration \<Rightarrow> bool" where
  "from_seq nxt s0 d \<longleftrightarrow> (\<exists>m. d = fst (nxt (after_next nxt m s0)))"

definition goes_on :: "stopFunc \<Rightarrow> attemptInfo \<Rightarrow> bool" where
  "goes_on stop x \<longleftrightarrow> (\<exists>e. ErrOf x = Some e \<and> \<not> stop (Attempt x) (Elapsed x) e)"

fun hooking :: "qpc \<Rightarrow> duration option" where
  "hooking (QHooking t a el e d) = Some d"
| "hooking _ = None"

definition waits_inv :: "('s \<Rightarrow> duration \<times> 's) \<Rightarrow> stopFunc \<Rightarrow> 's \<Rightarrow> 's qsys \<Rightarrow> bool" where
  "waits_inv nxt stop s0 s \<longleftrightarrow>
     (\<forall>i. (\<forall>x \<in> set (qlog s i). goes_on stop x \<longrightarrow> from_seq nxt s0 (NextOf x)) \<and>
        (\<forall>d. hooking (qpcs s i) = Some d \<longrightarrow> from_seq nxt s0 d))"

lemma qstep_waits_inv:
  assumes "qstep nxt reset stop cerr s s'" and "waits_inv nxt stop s0 s" and "sched_inv nxt s0 s"
  shows "waits_inv nxt stop s0 s'"
  using assms(1)
proof cases
  case (q_next i t a el e d sch)
  then have "from_seq nxt s0 d"
    using assms(3) by (auto simp: sched_inv_def from_seq_def) (metis fst_conv)
  then show ?thesis using assms(2) q_next by (auto simp: waits_inv_def)
next
  case (q_fire i t a el e d)
  then have "hooking (qpcs s i) = Some d" by simp
  then have "from_seq nxt s0 d" using assms(2) unfolding waits_inv_def by blast
  then show ?thesis using assms(2) q_fire by (auto simp: waits_inv_def report_def)
next
  case (q_ok i t a)
  then show ?thesis using assms(2) by (auto simp: waits_inv_def report_def goes_on_def)
next
  case (q_halt i t a e)
  then show ?thesis using assms(2) by (auto simp: waits_inv_def report_def goes_on_def)
qed (use assms(2) in \<open>auto simp: waits_inv_def attempt_fn_def\<close>)

lemma qreach_inv:
  assumes "qreach nxt reset stop cerr s0 s" and "\<And>f n. reset = Some f \<Longrightarrow> f (after_next nxt n s0) = s0"
  shows "sched_inv nxt s0 s \<and> calls_inv stop cerr s \<and> waits_inv nxt stop s0 s"
  using assms(1)
proof induction
  case (qreach_init s n)
  then show ?case by (auto simp: sched_inv_def calls_inv_def waits_inv_def)
next
  case (qreach_step s s')
  have "sched_inv nxt s0 s'"
    by (rule qstep_sched_inv [OF qreach_step.hyps(2)]) (use qreach_step.IH assms(2) in auto)
  with qstep_calls_inv [OF qreach_step.hyps(2)] qstep_waits_inv [OF qreach_step.hyps(2), of s0] qreach_step.IH
  show ?case by simp
qed

text \<open>What the invariant of a call says of its attempts, wherever the call is.\<close>

lemma retrying_nth:
  "retrying stop a is \<Longrightarrow> j < length is \<Longrightarrow>
     Attempt (is ! j) = a + int j \<and> (\<exists>e. ErrOf (is ! j) = Some e \<and> \<not> stop (a + int j) (Elapsed (is ! j)) e)"
proof (induction "is" arbitrary: a j)
  case (Cons i js)
  then show ?case by (cases j) (fastforce simp: add.assoc)+
qed simp

lemma log_ok_nth:
  "log_ok stop c res a is \<Longrightarrow> Suc j < length is \<Longrightarrow>
     Attempt (is ! j) = a + int j \<and> (\<exists>e. ErrOf (is ! j) = Some e \<and> \<not> stop (a + int j) (Elapsed (is ! j)) e)"
proof (induction stop c res a "is" arbitrary: j rule: log_ok.induct)
  case (3 stop c res a i i' js)
  then show ?case by (cases j) (fastforce simp: add.assoc)+
qed simp_all

lemma call_ok_attempts:
  assumes "call_ok stop c is told started now p" and "Suc j < length started"
  shows "Attempt (is ! j) = 1 + int j" and "goes_on stop (is ! j)" and "j < length is"
    and "told ! j + NextOf (is ! j) \<le> started ! Suc j"
proof -
  have w: "waited is told started" and j: "j < length is"
    and at: "Attempt (is ! j) = 1 + int j \<and> (\<exists>e. ErrOf (is ! j) = Some e \<and> \<not> stop (1 + int j) (Elapsed (is ! j)) e)"
    using assms retrying_nth [of stop 1 "is" j] log_ok_nth [of stop c _ 1 "is" j]
    by (cases p; auto simp: reported_def)+
  show "Attempt (is ! j) = 1 + int j" "goes_on stop (is ! j)" "j < length is"
    using at j by (auto simp: goes_on_def)
  show "told ! j + NextOf (is ! j) \<le> started ! Suc j" using w assms(2) by (simp add: waited_def)
qed

section \<open>A shared backoff\<close>

text \<open>
  Goroutine 0 has backed off once when goroutine 1 calls Do, whose Reset sends the wait of
  goroutine 0 back to the base.
\<close>

definition shared_exp :: exponential where
  "shared_exp = \<lparr>base = 10, maxDelay = 40, factor = (1, 1), current = 10\<rparr>"

definition shared_at ::
    "time \<Rightarrow> duration \<Rightarrow> duration list \<Rightarrow> qpc \<Rightarrow> qpc \<Rightarrow> attemptInfo list \<Rightarrow> time list \<Rightarrow> time list \<Rightarrow> exponential qsys" where
  "shared_at now cur dr p0 p1 log told started = \<lparr>qclk = now, sched = shared_exp\<lparr>current := cur\<rparr>,
     qended = (\<lambda>_. False), qpcs = (\<lambda>_. QIdle)(0 := p0, 1 := p1), qlog = (\<lambda>_. [])(0 := log), drawn = dr,
     qtold = (\<lambda>_. [])(0 := told), qstarted = (\<lambda>_. [])(0 := started)\<rparr>"

lemma shared_at_simps [simp]:
  "qclk (shared_at now cur dr p0 p1 log told started) = now"
  "sched (shared_at now cur dr p0 p1 log told started) = shared_exp\<lparr>current := cur\<rparr>"
  "qended (shared_at now cur dr p0 p1 log told started) i = False"
  "qpcs (shared_at now cur dr p0 p1 log told started) 0 = p0"
  "qpcs (shared_at now cur dr p0 p1 log told started) (Suc 0) = p1"
  "qlog (shared_at now cur dr p0 p1 log told started) 0 = log"
  "drawn (shared_at now cur dr p0 p1 log told started) = dr"
  "qtold (shared_at now cur dr p0 p1 log told started) 0 = told"
  "qstarted (shared_at now cur dr p0 p1 log told started) 0 = started"
  by (simp_all add: shared_at_def)

lemma shared_at_upd:
  "shared_at now cur dr p0 p1 log told started\<lparr>qpcs := (qpcs (shared_at now' cur' dr' p0 p1 log' told' started'))(0 := p)\<rparr> =
     shared_at now cur dr p p1 log told started"
  "shared_at now cur dr p0 p1 log told started\<lparr>qpcs := (qpcs (shared_at now' cur' dr' p0 p1 log' told' started'))(Suc 0 := p)\<rparr> =
     shared_at now cur dr p0 p log told started"
  "shared_at now cur dr p0 p1 log told started\<lparr>qclk := now'\<rparr> = shared_at now' cur dr p0 p1 log told started"
  "shared_at now cur dr p0 p1 log told started\<lparr>sched := shared_exp\<lparr>current := cur'\<rparr>, drawn := dr'\<rparr> =
     shared_at now cur' dr' p0 p1 log told started"
  "report (shared_at now cur dr p0 p1 log told started) 0 info p =
     shared_at now cur dr p p1 (log @ [info]) (told @ [now]) started"
  "attempt_fn (shared_at now cur dr p0 p1 log told started) 0 t a =
     shared_at now cur dr (QCalling t a) p1 log told (started @ [now])"
  by (simp_all add: shared_at_def report_def attempt_fn_def fun_eq_iff)

lemma shared_next:
  assumes "c \<in> {10, 20}"
  shows "exp_next wild (shared_exp\<lparr>current := c\<rparr>) = (c, shared_exp\<lparr>current := 2 * c\<rparr>)"
proof -
  let ?e = "shared_exp\<lparr>current := c\<rparr>"
  obtain d e' where n: "exp_next wild ?e = (d, e')" by (metis surj_pair)
  have ok: "exp_ok ?e" using assms by (auto simp: shared_exp_def exp_ok_def max_dur_def fl_less_def)
  have "current e' = 2 * c" using exp_next_double [OF ok _ _ n] assms by (auto simp: shared_exp_def)
  moreover note exp_next_ok [OF ok n]
  ultimately show ?thesis using n by (auto simp: shared_exp_def intro: exponential.equality)
qed

lemma shared_reset: "exp_reset (shared_exp\<lparr>current := c\<rparr>) = shared_exp\<lparr>current := 10\<rparr>"
  by (simp add: exp_reset_def shared_exp_def)

abbreviation shared_reach :: "exponential qsys \<Rightarrow> bool" where
  "shared_reach \<equiv> qreach (exp_next (\<lambda>_. 0)) (Some exp_reset) (\<lambda>a el e. 3 \<le> a) (\<lambda>_. Canceled) shared_exp"

lemma shared_init: "shared_reach (shared_at 0 10 [] QIdle QIdle [] [] [])"
  by (rule qreach_init [of _ _ 0]) (auto simp: shared_at_def shared_exp_def)

lemma shared_tick:
  "shared_reach (shared_at now cur dr p0 p1 log told started) \<Longrightarrow> now \<le> now' \<Longrightarrow>
     shared_reach (shared_at now' cur dr p0 p1 log told started)"
  using qreach_step [OF _ q_tick [of "now' - now"]] by (fastforce simp: shared_at_upd)

lemma shared_call0:
  assumes "shared_reach (shared_at now cur dr QIdle p1 log told started)"
  shows "shared_reach (shared_at now 10 [] (QCalling now 1) p1 log told (started @ [now]))"
proof -
  have "shared_reach (shared_at now cur dr QResetting p1 log told started)"
    using qreach_step [OF assms q_call [of _ 0]] by (simp add: shared_at_upd)
  from qreach_step [OF this q_reset [of _ 0]]
  have "shared_reach (shared_at now 10 [] QTiming p1 log told started)"
    by (simp add: shared_at_upd shared_reset)
  from qreach_step [OF this q_start [of _ 0]] show ?thesis by (simp add: shared_at_upd)
qed

lemma shared_call1:
  assumes "shared_reach (shared_at now cur dr p0 QIdle log told started)"
  shows "shared_reach (shared_at now 10 [] p0 QTiming log told started)"
proof -
  have "shared_reach (shared_at now cur dr p0 QResetting log told started)"
    using qreach_step [OF assms q_call [of _ 1]] by (simp add: shared_at_upd)
  from qreach_step [OF this q_reset [of _ 1]] show ?thesis by (simp add: shared_at_upd shared_reset)
qed

text \<open>Goroutine 0 fails, asks for the next delay, reports it, waits and tries again.\<close>

lemma shared_fail:
  assumes "shared_reach (shared_at now c dr (QCalling t a) p1 log told started)" and "a < 3" and "c \<in> {10, 20}"
  shows "shared_reach (shared_at now (2 * c) (dr @ [c]) (QSleeping t a now c) p1
    (log @ [\<lparr>Attempt = a, Elapsed = time_Sub now t, ErrOf = Some e, NextOf = c\<rparr>]) (told @ [now]) started)"
proof -
  have "shared_reach (shared_at now c dr (QAsking t a (time_Sub now t) e) p1 log told started)"
    using qreach_step [OF assms(1) q_failed [of _ 0 t a _ e]] assms(2) by (simp add: shared_at_upd)
  from qreach_step [OF this q_next [of _ 0]]
  have "shared_reach (shared_at now (2 * c) (dr @ [c]) (QHooking t a (time_Sub now t) e c) p1 log told started)"
    using shared_next [OF assms(3)] by (simp add: shared_at_upd)
  from qreach_step [OF this q_fire [of _ 0]] show ?thesis by (simp add: shared_at_upd)
qed

lemma shared_wait:
  assumes "shared_reach (shared_at now cur dr (QSleeping t a u d) p1 log told started)" and "0 < d" and "u + d \<le> now"
  shows "shared_reach (shared_at now cur dr (QCalling t (a + 1)) p1 log told (started @ [now]))"
  using qreach_step [OF assms(1) q_waited [of _ 0 t a u d]] assms(2,3) by (simp add: shared_at_upd)

definition shared_state :: "exponential qsys" where
  "shared_state = shared_at 20 20 [10] (QCalling 0 3) QTiming
     [\<lparr>Attempt = 1, Elapsed = 0, ErrOf = Some ErrRefused, NextOf = 10\<rparr>,
      \<lparr>Attempt = 2, Elapsed = 10, ErrOf = Some ErrRefused, NextOf = 10\<rparr>] [0, 10] [0, 10, 20]"

lemma shared_backoff_restarts: "shared_reach shared_state"
proof -
  let ?i = "\<lparr>Attempt = 1, Elapsed = 0, ErrOf = Some ErrRefused, NextOf = 10\<rparr>"
  have e: "time_Sub 0 0 = 0" "time_Sub 10 0 = 10" by (simp_all add: go_time)
  have "shared_reach (shared_at 0 20 [10] (QSleeping 0 1 0 10) QIdle [?i] [0] [0])"
    using shared_fail [where e = ErrRefused, OF shared_call0 [OF shared_init]] e by simp
  from shared_wait [OF shared_tick [OF this, of 10]]
  have "shared_reach (shared_at 10 20 [10] (QCalling 0 2) QIdle [?i] [0] [0, 10])" by simp
  from shared_fail [where e = ErrRefused, OF shared_call1 [OF this]]
  have "shared_reach (shared_at 10 20 [10] (QSleeping 0 2 10 10) QTiming
      [?i, \<lparr>Attempt = 2, Elapsed = 10, ErrOf = Some ErrRefused, NextOf = 10\<rparr>] [0, 10] [0, 10])" using e by simp
  from shared_wait [OF shared_tick [OF this, of 20]] show ?thesis by (simp add: shared_state_def)
qed

section \<open>Properties\<close>

text \<open>
  C19. Concurrent calls of Do on one Retry. Any number of goroutines call Do on a Retry over
  an Exponential of the default factor and a maximum below 2 ^ 53 nanoseconds. In every
  reachable state the delays drawn since the last Reset are, whoever drew them, base, twice
  the base and so on up to the maximum. Each call, by itself: calls fn again only after the
  report of the failed attempt before, on which the stop condition did not halt, and no
  earlier than the wait announced there, one of these delays, after the hook; calls fn at most n
  times if the stop condition halts from attempt n on; and returns what its reports account
  for.
\<close>

theorem concurrent_retries_sound:
  assumes "NewExponential b mx [] = Inr e0" and "mx < 2 ^ 53"
    and "qreach (exp_next wild) (Some exp_reset) stop cerr e0 s"
  shows "(\<forall>j < length (drawn s). drawn s ! j = min (b * 2 ^ j) mx) \<and>
    (\<forall>i j. Suc j < length (qstarted s i) \<longrightarrow>
       Attempt (qlog s i ! j) = 1 + int j \<and> goes_on stop (qlog s i ! j) \<and>
       (\<exists>k. NextOf (qlog s i ! j) = min (b * 2 ^ k) mx) \<and>
       qtold s i ! j + NextOf (qlog s i ! j) \<le> qstarted s i ! Suc j) \<and>
    (\<forall>i n. 0 < n \<and> (\<forall>a el e. n \<le> a \<longrightarrow> stop a el e) \<longrightarrow> int (length (qstarted s i)) \<le> n) \<and>
    (\<forall>i res. qpcs s i = QDone res \<longrightarrow> log_ok stop (ctx_err cerr s i) res 1 (qlog s i))"
proof -
  have e0: "exp_ok e0" "current e0 = base e0"
    using NewExponential_ok [OF assms(1)] assms(2) by (simp_all add: max_dur_def)
  have inv: "sched_inv (exp_next wild) e0 s" "calls_inv stop cerr s" "waits_inv (exp_next wild) stop e0 s"
    using qreach_inv [OF assms(3)] exp_reset_again [OF e0] by auto
  have seq: "fst (exp_next wild (after_next (exp_next wild) k e0)) = min (b * 2 ^ k) mx" for k
    using exponential_doubles [OF assms(1,2), of k "Suc k" wild] by (simp add: delays_nth del: delays.simps)
  have 1: "drawn s ! j = min (b * 2 ^ j) mx" if "j < length (drawn s)" for j
    using inv(1) that seq by (auto simp: sched_inv_def delays_nth)
  have call: "call_ok stop (ctx_err cerr s i) (qlog s i) (qtold s i) (qstarted s i) (qclk s) (qpcs s i)" for i
    using inv(2) by (simp add: calls_inv_def)
  have 2: "Attempt (qlog s i ! j) = 1 + int j" "goes_on stop (qlog s i ! j)"
      "\<exists>k. NextOf (qlog s i ! j) = min (b * 2 ^ k) mx"
      "qtold s i ! j + NextOf (qlog s i ! j) \<le> qstarted s i ! Suc j"
    if "Suc j < length (qstarted s i)" for i j
  proof -
    note a = call_ok_attempts [OF call that]
    show "Attempt (qlog s i ! j) = 1 + int j" "goes_on stop (qlog s i ! j)"
      "qtold s i ! j + NextOf (qlog s i ! j) \<le> qstarted s i ! Suc j" by (fact a)+
    have "from_seq (exp_next wild) e0 (NextOf (qlog s i ! j))"
      using inv(3) a(2) nth_mem [OF a(3)] unfolding waits_inv_def by blast
    then show "\<exists>k. NextOf (qlog s i ! j) = min (b * 2 ^ k) mx" by (auto simp: from_seq_def seq)
  qed
  have 3: "int (length (qstarted s i)) \<le> n" if "0 < n" "\<forall>a el e. n \<le> a \<longrightarrow> stop a el e" for i n
  proof (rule ccontr)
    assume "\<not> int (length (qstarted s i)) \<le> n"
    then have j: "Suc (nat n - 1) < length (qstarted s i)" using that(1) by linarith
    show False using 2(1,2) [OF j] that by (auto simp: goes_on_def)
  qed
  have 4: "log_ok stop (ctx_err cerr s i) res 1 (qlog s i)" if "qpcs s i = QDone res" for i res
    using call [of i] that by simp
  from 1 2 3 4 show ?thesis by blast
qed

theorem concurrent_retries_sound_witness:
  "(\<exists>k. (10::int) = min (10 * 2 ^ k) 40) \<and> drawn shared_state = [10] \<and>
     (qtold shared_state 0 ! 1 + NextOf (qlog shared_state 0 ! 1) \<le> qstarted shared_state 0 ! 2) \<and>
     int (length (qstarted shared_state 0)) \<le> 3"
proof -
  have n: "NewExponential 10 40 [] = Inr shared_exp" by (simp add: NewExponential_def shared_exp_def)
  note c = concurrent_retries_sound [OF n _ shared_backoff_restarts]
  have "Suc 1 < length (qstarted shared_state 0)" by (simp add: shared_state_def)
  then have "\<exists>k. NextOf (qlog shared_state 0 ! 1) = min (10 * 2 ^ k) 40"
      "qtold shared_state 0 ! 1 + NextOf (qlog shared_state 0 ! 1) \<le> qstarted shared_state 0 ! Suc 1"
    using c by auto
  moreover have "int (length (qstarted shared_state 0)) \<le> 3"
    by (rule c [THEN conjunct2, THEN conjunct2, THEN conjunct1, rule_format]) simp_all
  ultimately show ?thesis by (simp add: shared_state_def)
qed

end
