(* ===== verification/Throttle.thy ===== *)
theory Throttle
  imports GoBase
begin

text \<open>
  Package throttle (throttle/throttle.go and throttle/roundtripper.go) as one caller sees
  it: the slot arithmetic of nextSlot, Do with its in-flight slot, pacing and early returns,
  and the RoundTripper that sends HTTP requests through Do. What other callers do meanwhile
  is in the outcome of the waits, which the environment decides; ThrottleConc has the callers
  side by side.
\<close>

section \<open>State and options\<close>

text \<open>The fields of a Throttle that change; callers extend the world with their own.\<close>

record throttle_world =
  nextAllowed :: time
  inflight :: nat

record 'w tschedule =
  tNext :: "'w \<Rightarrow> duration \<times> 'w"
  tWait :: "('w ctx \<Rightarrow> 'w \<Rightarrow> gerr option \<times> 'w) option"

text \<open>The capacity of the semaphore channel; None is the nil channel.\<close>

record 'w throttle =
  schedule :: "'w tschedule"
  sem :: "nat option"

definition Unbounded :: int where
  "Unbounded = - 1"

definition WithMaxInflight :: "int \<Rightarrow> ('w throttle \<Rightarrow> 'w throttle) go" where
  "WithMaxInflight n =
     (if n = 0 \<or> n < - 1 then Inl ''throttle.WithMaxInflight: n must be > 0 or Unbounded (-1)''
      else Inr (\<lambda>t. if n = Unbounded then t\<lparr>sem := None\<rparr> else t\<lparr>sem := Some (nat n)\<rparr>))"

definition New :: "'w tschedule option \<Rightarrow> ('w throttle \<Rightarrow> 'w throttle) list \<Rightarrow> 'w throttle go" where
  "New s opts =
     (case s of
        None \<Rightarrow> Inl ''throttle.New: schedule must not be nil''
      | Some sch \<Rightarrow> Inr (apply_opts opts \<lparr>schedule = sch, sem = Some 1\<rparr>))"

section \<open>Pacing\<close>

text \<open>The critical section of nextSlot: the wait, and the new value of nextAllowed.\<close>

definition nextSlot :: "time \<Rightarrow> duration \<Rightarrow> time \<Rightarrow> duration \<times> time" where
  "nextSlot now delay allowed0 =
     (let allowed = (if Before allowed0 now then now else allowed0);
          wait = time_Sub allowed now
      in (wait, time_Add allowed delay))"

text \<open>
  The environment also decides the select of Do: select_slot x n w waits at once for room in
  a channel of n slots and for ctx.Done (), and tells whether the send was taken.
\<close>

record 'w throttle_env = "'w go_env" +
  select_slot :: "'w ctx \<Rightarrow> nat \<Rightarrow> 'w \<Rightarrow> bool \<times> 'w"

type_synonym 'z tworld = "'z throttle_world_scheme"
type_synonym 'z fn = "'z tworld ctx \<Rightarrow> 'z tworld \<Rightarrow> gerr option \<times> 'z tworld"

definition pace ::
    "('z tworld, 'e) go_env_scheme \<Rightarrow> 'z tworld throttle \<Rightarrow> 'z tworld ctx \<Rightarrow> 'z tworld \<Rightarrow>
      gerr option \<times> 'z tworld" where
  "pace env t x w =
     (case tWait (schedule t) of
        Some wait \<Rightarrow> wait x w
      | None \<Rightarrow>
          (case tNext (schedule t) w of (delay, w1) \<Rightarrow>
             (case nextSlot (nowOf env w1) delay (nextAllowed w1) of (wait, allowed) \<Rightarrow>
                go_sleep env x wait (w1\<lparr>nextAllowed := allowed\<rparr>))))"

text \<open>Do after the in-flight slot.\<close>

definition Do_paced ::
    "('z tworld, 'e) go_env_scheme \<Rightarrow> 'z tworld throttle \<Rightarrow> 'z tworld ctx \<Rightarrow> 'z fn \<Rightarrow> 'z tworld \<Rightarrow>
      gerr option \<times> 'z tworld" where
  "Do_paced env t x fn w =
     (case ctxErr x w of
        Some e \<Rightarrow> (Some e, w)
      | None \<Rightarrow>
          (case pace env t x w of
             (Some e, w1) \<Rightarrow> (Some e, w1)
           | (None, w1) \<Rightarrow> fn x w1))"

definition Do ::
    "('z tworld, 'e) throttle_env_scheme \<Rightarrow> 'z tworld throttle \<Rightarrow> 'z tworld ctx \<Rightarrow> 'z fn \<Rightarrow> 'z tworld \<Rightarrow>
      gerr option \<times> 'z tworld" where
  "Do env t x fn w =
     (case sem t of
        None \<Rightarrow> Do_paced env t x fn w
      | Some n \<Rightarrow>
          (case select_slot env x n w of
             (False, w1) \<Rightarrow> (ctxErr x w1, w1)
           | (True, w1) \<Rightarrow>
               (case Do_paced env t x fn (w1\<lparr>inflight := Suc (inflight w1)\<rparr>) of (e, w2) \<Rightarrow>
                  (e, w2\<lparr>inflight := inflight w2 - 1\<rparr>))))"

section \<open>RoundTripper\<close>

text \<open>
  The variables forwarded and resp that RoundTrip shares with the function it passes to Do,
  as fields of the world; 'r is the type of responses.
\<close>

record 'r rt_world = throttle_world +
  forwarded :: bool
  resp :: "'r option"

text \<open>A request as RoundTrip sees it: its context and, unless it is nil, the Close of its body.\<close>

record 'w request =
  reqCtx :: "'w ctx"
  reqBody :: "('w \<Rightarrow> 'w) option"

type_synonym ('r, 'z) rtw = "('r, 'z) rt_world_scheme"
type_synonym ('w, 'r) transport = "'w request \<Rightarrow> 'w \<Rightarrow> ('r option \<times> gerr option) \<times> 'w"

record ('w, 'r) roundTripper =
  rtNext :: "('w, 'r) transport"
  rtThrottle :: "'w throttle"

text \<open>dflt is http.DefaultTransport.\<close>

definition NewRoundTripper ::
    "('w, 'r) transport \<Rightarrow> ('w, 'r) transport option \<Rightarrow> 'w tschedule option \<Rightarrow>
      ('w throttle \<Rightarrow> 'w throttle) list \<Rightarrow> ('w, 'r) roundTripper go" where
  "NewRoundTripper dflt nxt s opts =
     (if s = None then Inl ''throttle.NewRoundTripper: schedule must not be nil''
      else let n = (case nxt of None \<Rightarrow> dflt | Some f \<Rightarrow> f) in
        go_bind (New s opts) (\<lambda>t. Inr \<lparr>rtNext = n, rtThrottle = t\<rparr>))"

definition rt_fn :: "(('r, 'z) rtw, 'r) roundTripper \<Rightarrow> ('r, 'z) rtw request \<Rightarrow>
    ('r, 'z) rtw ctx \<Rightarrow> ('r, 'z) rtw \<Rightarrow> gerr option \<times> ('r, 'z) rtw" where
  "rt_fn rt req = (\<lambda>x w.
     case rtNext rt req (w\<lparr>forwarded := True\<rparr>) of ((r, innerErr), w1) \<Rightarrow>
       (innerErr, w1\<lparr>resp := r\<rparr>))"

definition RoundTrip ::
    "(('r, 'z) rtw, 'e) throttle_env_scheme \<Rightarrow> (('r, 'z) rtw, 'r) roundTripper \<Rightarrow>
      ('r, 'z) rtw request \<Rightarrow> ('r, 'z) rtw \<Rightarrow> ('r option \<times> gerr option) \<times> ('r, 'z) rtw" where
  "RoundTrip env rt req w =
     (case Do env (rtThrottle rt) (reqCtx req) (rt_fn rt req) (w\<lparr>resp := None, forwarded := False\<rparr>) of
        (err, w1) \<Rightarrow>
          (let w2 = (if \<not> forwarded w1
                     then (case reqBody req of Some close \<Rightarrow> close w1 | None \<Rightarrow> w1) else w1)
           in ((resp w1, err), w2)))"

section \<open>Facts\<close>

lemma nextSlot_eq:
  "nextSlot now delay allowed =
     (saturate (max allowed now - now), max allowed now + delay)"
  by (simp add: nextSlot_def Let_def Before_def time_Sub_def time_Add_def max_def)

text \<open>A select that does not take the send has seen the context end.\<close>

definition slot_ok :: "('w, 'e) throttle_env_scheme \<Rightarrow> bool" where
  "slot_ok env \<longleftrightarrow> (\<forall>x n w w'. select_slot env x n w = (False, w') \<longrightarrow> ctxErr x w' \<noteq> None)"

text \<open>An observation of the world that waiting, pacing and the schedule leave as it is.\<close>

definition undisturbed :: "('z tworld \<Rightarrow> 'o) \<Rightarrow> ('z tworld, 'e) throttle_env_scheme \<Rightarrow> 'z tworld throttle \<Rightarrow> bool" where
  "undisturbed obs env t \<longleftrightarrow>
     (\<forall>x d w. obs (snd (select_timer env x d w)) = obs w) \<and>
     (\<forall>x n w. obs (snd (select_slot env x n w)) = obs w) \<and>
     (\<forall>w. obs (snd (tNext (schedule t) w)) = obs w) \<and>
     (\<forall>f x w. tWait (schedule t) = Some f \<longrightarrow> obs (snd (f x w)) = obs w) \<and>
     (\<forall>w a. obs (w\<lparr>nextAllowed := a\<rparr>) = obs w) \<and> (\<forall>w n. obs (w\<lparr>inflight := n\<rparr>) = obs w)"

lemma undisturbedD:
  assumes "undisturbed obs env t"
  shows "select_timer env x d w = (b, w') \<Longrightarrow> obs w' = obs w"
    and "select_slot env x n w = (b, w') \<Longrightarrow> obs w' = obs w"
    and "tNext (schedule t) w = (d, w') \<Longrightarrow> obs w' = obs w"
    and "tWait (schedule t) = Some f \<Longrightarrow> f x w = (e, w') \<Longrightarrow> obs w' = obs w"
    and "obs (w\<lparr>nextAllowed := a\<rparr>) = obs w" and "obs (w\<lparr>inflight := n\<rparr>) = obs w"
  using assms unfolding undisturbed_def by (metis snd_conv)+

lemma sleep_undisturbed:
  assumes "undisturbed obs env t" and "go_sleep env x d w = (e, w')"
  shows "obs w' = obs w"
  using go_sleep_cases [OF assms(2)] undisturbedD(1) [OF assms(1)] by auto

lemma pace_undisturbed:
  assumes "undisturbed obs env t" and "pace env t x w = (e, w')"
  shows "obs w' = obs w"
proof (cases "tWait (schedule t)")
  case None
  obtain d w1 where n: "tNext (schedule t) w = (d, w1)" by (metis surj_pair)
  then have "obs w1 = obs w" by (rule undisturbedD(3) [OF assms(1)])
  moreover have "obs w' = obs (w1\<lparr>nextAllowed := snd (nextSlot (nowOf env w1) d (nextAllowed w1))\<rparr>)"
    using assms None n
    by (intro sleep_undisturbed [OF assms(1), of x "fst (nextSlot (nowOf env w1) d (nextAllowed w1))" _ e])
      (simp add: pace_def case_prod_unfold)
  ultimately show ?thesis using undisturbedD(5) [OF assms(1)] by simp
qed (use assms undisturbedD(4) [OF assms(1)] in \<open>simp add: pace_def\<close>)

text \<open>
  Do called fn, last but for giving back the slot, and returned its error; or it returned an
  error of its own and did not depend on fn at all.
\<close>

lemma Do_paced_cases:
  assumes "undisturbed obs env t" and "Do_paced env t x fn w = (e, w')"
  shows "(\<exists>w1. obs w1 = obs w \<and> fn x w1 = (e, w')) \<or>
    (e \<noteq> None \<and> obs w' = obs w \<and> (\<forall>g. Do_paced env t x g w = (e, w')))"
proof (cases "ctxErr x w")
  case None
  obtain pe w1 where p: "pace env t x w = (pe, w1)" by (metis surj_pair)
  with pace_undisturbed [OF assms(1) p] None assms(2) show ?thesis
    by (cases pe) (auto simp: Do_paced_def)
next
  case (Some a)
  then have "Do_paced env t x g w = (Some a, w)" for g by (simp add: Do_paced_def)
  then show ?thesis using assms(2) by auto
qed

lemma Do_cases:
  assumes "undisturbed obs env t" and "slot_ok env" and "Do env t x fn w = (e, w')"
  shows "(\<exists>w1 w2. obs w1 = obs w \<and> fn x w1 = (e, w2) \<and> obs w' = obs w2) \<or>
    (e \<noteq> None \<and> obs w' = obs w \<and> (\<forall>g. Do env t x g w = (e, w')))"
proof (cases "sem t")
  case None
  then have "Do env t x g w = Do_paced env t x g w" for g by (simp add: Do_def)
  then show ?thesis using Do_paced_cases [OF assms(1), of x fn w e w'] assms(3) by auto
next
  case (Some n)
  obtain b w1 where s: "select_slot env x n w = (b, w1)" by (metis surj_pair)
  note o = undisturbedD(2) [OF assms(1) s]
  show ?thesis
  proof (cases b)
    case True
    let ?w1 = "w1\<lparr>inflight := Suc (inflight w1)\<rparr>"
    obtain e2 w2 where d: "Do_paced env t x fn ?w1 = (e2, w2)" by (metis surj_pair)
    have "e = e2" "w' = w2\<lparr>inflight := inflight w2 - 1\<rparr>"
      using assms(3) Some s d True by (simp_all add: Do_def)
    moreover have "obs w' = obs w2" unfolding \<open>w' = _\<close> by (rule undisturbedD(6) [OF assms(1)])
    moreover have "obs ?w1 = obs w" using undisturbedD(6) [OF assms(1)] o by simp
    moreover have "\<forall>g. Do env t x g w = (e, w')" if "\<forall>g. Do_paced env t x g ?w1 = (e2, w2)"
      using that calculation(1,2) Some s True by (simp add: Do_def)
    ultimately show ?thesis using Do_paced_cases [OF assms(1) d] by metis
  next
    case False
    with Some s assms(2) have "\<forall>g. Do env t x g w = (ctxErr x w1, w1)" "ctxErr x w1 \<noteq> None"
      by (auto simp: Do_def slot_ok_def)
    moreover from this(1) have "(e, w') = (ctxErr x w1, w1)" unfolding assms(3) [symmetric] by blast
    ultimately show ?thesis using o by auto
  qed
qed

section \<open>An example\<close>

text \<open>A world with a clock and two counters, for requests sent and bodies closed.\<close>

record ex_world = "nat rt_world" +
  xclock :: time
  sent :: nat
  bodies :: nat

definition ex_env :: "ex_world throttle_env" where
  "ex_env = \<lparr>nowOf = xclock, select_timer = (\<lambda>x d w. (True, w\<lparr>xclock := xclock w + d\<rparr>)),
     select_slot = (\<lambda>x n w. (inflight w < n \<or> ctxErr x w = None, w))\<rparr>"

definition ex_throttle :: "ex_world throttle" where
  "ex_throttle = \<lparr>schedule = \<lparr>tNext = (\<lambda>w. (5, w)), tWait = None\<rparr>, sem = Some 2\<rparr>"

definition ex_transport :: "(ex_world, nat) transport" where
  "ex_transport req w = ((Some 200, None), w\<lparr>sent := Suc (sent w)\<rparr>)"

definition ex_request :: "gerr option \<Rightarrow> ex_world request" where
  "ex_request e = \<lparr>reqCtx = \<lparr>ctxErr = (\<lambda>_. e), ctxCause = (\<lambda>_. e)\<rparr>,
     reqBody = Some (\<lambda>w. w\<lparr>bodies := Suc (bodies w)\<rparr>)\<rparr>"

definition ex_start :: ex_world where
  "ex_start = \<lparr>nextAllowed = 0, inflight = 0, forwarded = False, resp = None, xclock = 100,
     sent = 0, bodies = 0\<rparr>"

lemmas ex_defs = ex_env_def ex_throttle_def ex_transport_def ex_request_def ex_start_def

section \<open>Properties\<close>

text \<open>
  A cancelled caller takes no turn. If the context has ended before Do is called, Do
  returns ctx.Err () without calling fn or asking the schedule, whichever case the select
  picks, and leaves the cadence and the in-flight count as the select left them.
\<close>

lemma throttle_cancelled_takes_no_turn:
  assumes "\<And>w. ctxErr x w = Some e"
  shows "Do env t x fn w =
    (Some e, case sem t of None \<Rightarrow> w | Some n \<Rightarrow> snd (select_slot env x n w))"
  by (auto simp: Do_def Do_paced_def assms split: option.splits prod.splits bool.splits)



end
