(* ===== verification/ThrottleConc.thy ===== *)
theory ThrottleConc
  imports Throttle
begin

text \<open>
  Callers of one Throttle side by side: a step relation over goroutines in which Do
  (throttle/throttle.go) is cut at the points where others may run. nextSlot is one step,
  since it holds the mutex; the calls of the schedule, the waits and fn take time. However fn
  ends, by a return, a panic or runtime.Goexit, the deferred receive is next.
\<close>

section \<open>State\<close>

datatype tpc =
    TIdle
  | Selecting                     \<comment> \<open>Do: the select on the semaphore\<close>
  | Checking                      \<comment> \<open>Do: before ctx.Err\<close>
  | Asking                        \<comment> \<open>pace: before schedule.Next, or in Wait\<close>
  | Slotting duration             \<comment> \<open>pace: before nextSlot with this delay\<close>
  | Sleeping time time duration   \<comment> \<open>sleep: due and reserved at these times, for this long\<close>
  | Running time time time        \<comment> \<open>fn: due, reserved and started at these times\<close>
  | Granted                       \<comment> \<open>fn, for which the Waiter gave way\<close>
  | Leaving                       \<comment> \<open>Do: before the deferred receive\<close>
  | TDone

text \<open>
  reservations is not in the code: the calls of nextSlot in order, each with the time of the
  call, the time it made due, and the delay it added.
\<close>

record reservation =
  at :: time
  due :: time
  delay :: duration

record tsys =
  clk :: time
  allowed :: time
  held :: nat
  tended :: "nat \<Rightarrow> bool"
  tpcs :: "nat \<Rightarrow> tpc"
  reservations :: "reservation list"

abbreviation tgo :: "tsys \<Rightarrow> nat \<Rightarrow> tpc \<Rightarrow> tsys" where
  "tgo s i p \<equiv> s\<lparr>tpcs := (tpcs s)(i := p)\<rparr>"

section \<open>Steps\<close>

text \<open>
  waiter tells whether the schedule implements Waiter, and then paces its callers itself; cap
  is the capacity of the semaphore, None for the nil channel.
\<close>

inductive tstep :: "bool \<Rightarrow> nat option \<Rightarrow> tsys \<Rightarrow> tsys \<Rightarrow> bool" for waiter cap where
  t_tick: "0 \<le> d \<Longrightarrow> tstep waiter cap s (s\<lparr>clk := clk s + d\<rparr>)"
| t_ctx_end: "tstep waiter cap s (s\<lparr>tended := (tended s)(i := True)\<rparr>)"
| t_call: "tpcs s i = TIdle \<Longrightarrow> tstep waiter cap s (tgo s i Selecting)"
| sem_nil: "tpcs s i = Selecting \<Longrightarrow> cap = None \<Longrightarrow> tstep waiter cap s (tgo s i Checking)"
| sem_send: "tpcs s i = Selecting \<Longrightarrow> cap = Some n \<Longrightarrow> held s < n \<Longrightarrow>
    tstep waiter cap s (tgo (s\<lparr>held := held s + 1\<rparr>) i Checking)"
| sem_ctx: "tpcs s i = Selecting \<Longrightarrow> cap = Some n \<Longrightarrow> tended s i \<Longrightarrow> tstep waiter cap s (tgo s i TDone)"
| check_err: "tpcs s i = Checking \<Longrightarrow> tended s i \<Longrightarrow> tstep waiter cap s (tgo s i Leaving)"
| check_ok: "tpcs s i = Checking \<Longrightarrow> \<not> tended s i \<Longrightarrow> tstep waiter cap s (tgo s i Asking)"
| ask: "\<not> waiter \<Longrightarrow> tpcs s i = Asking \<Longrightarrow> tstep waiter cap s (tgo s i (Slotting d))"
| wait_nil: "waiter \<Longrightarrow> tpcs s i = Asking \<Longrightarrow> tstep waiter cap s (tgo s i Granted)"
| wait_error: "waiter \<Longrightarrow> tpcs s i = Asking \<Longrightarrow> tstep waiter cap s (tgo s i Leaving)"
| slot: "tpcs s i = Slotting d \<Longrightarrow> nextSlot (clk s) d (allowed s) = (wait, a) \<Longrightarrow>
    tstep waiter cap s (tgo (s\<lparr>allowed := a, reservations := reservations s @
        [\<lparr>at = clk s, due = a - d, delay = d\<rparr>]\<rparr>) i (Sleeping (a - d) (clk s) wait))"
| sleep_timer: "tpcs s i = Sleeping du r wait \<Longrightarrow> 0 < wait \<Longrightarrow> r + wait \<le> clk s \<Longrightarrow>
    tstep waiter cap s (tgo s i (Running du r (clk s)))"
| sleep_none: "tpcs s i = Sleeping du r wait \<Longrightarrow> wait \<le> 0 \<Longrightarrow> \<not> tended s i \<Longrightarrow>
    tstep waiter cap s (tgo s i (Running du r (clk s)))"
| sleep_ctx: "tpcs s i = Sleeping du r wait \<Longrightarrow> tended s i \<Longrightarrow> tstep waiter cap s (tgo s i Leaving)"
| fn_end: "tpcs s i = Running du r b \<or> tpcs s i = Granted \<Longrightarrow> tstep waiter cap s (tgo s i Leaving)"
| t_leave: "tpcs s i = Leaving \<Longrightarrow>
    tstep waiter cap s (tgo (s\<lparr>held := (if cap = None then held s else held s - 1)\<rparr>) i TDone)"

inductive treach :: "bool \<Rightarrow> nat option \<Rightarrow> tsys \<Rightarrow> bool" for waiter cap where
  treach_init: "allowed s = 0 \<Longrightarrow> held s = 0 \<Longrightarrow> (\<And>i. tpcs s i = TIdle) \<Longrightarrow> reservations s = [] \<Longrightarrow>
    treach waiter cap s"
| treach_step: "treach waiter cap s \<Longrightarrow> tstep waiter cap s s' \<Longrightarrow> treach waiter cap s'"

section \<open>In flight\<close>

fun in_flight :: "tpc \<Rightarrow> bool" where
  "in_flight TIdle = False"
| "in_flight Selecting = False"
| "in_flight TDone = False"
| "in_flight _ = True"

definition flight_inv :: "nat option \<Rightarrow> tsys \<Rightarrow> bool" where
  "flight_inv cap s \<longleftrightarrow>
     (case cap of None \<Rightarrow> True
      | Some n \<Rightarrow> finite {i. in_flight (tpcs s i)} \<and> held s = card {i. in_flight (tpcs s i)} \<and> held s \<le> n)"

lemma in_flight_upd:
  "{j. in_flight ((f(i := p)) j)} = (if in_flight p then insert i {j. in_flight (f j)} else {j. in_flight (f j)} - {i})"
  by auto

lemma tstep_flight: "tstep waiter cap s s' \<Longrightarrow> flight_inv cap s \<Longrightarrow> flight_inv cap s'"
proof (induction rule: tstep.induct)
  case (sem_send s i n)
  then have "i \<notin> {j. in_flight (tpcs s j)}" by simp
  then show ?case using sem_send by (simp add: flight_inv_def in_flight_upd del: fun_upd_apply)
next
  case (t_leave s i)
  then have i: "i \<in> {j. in_flight (tpcs s j)}" by simp
  then have "cap = Some n \<Longrightarrow> card ({j. in_flight (tpcs s j)} - {i}) = held s - 1" for n
    using t_leave by (simp add: flight_inv_def)
  then show ?case
    using t_leave by (auto simp: flight_inv_def in_flight_upd simp del: fun_upd_apply split: option.splits)
qed (auto simp: flight_inv_def in_flight_upd insert_absorb simp del: fun_upd_apply
    split: option.splits)

section \<open>Cadence\<close>

text \<open>The reservations follow one another from the time allowed0 on.\<close>

fun chain :: "time \<Rightarrow> reservation list \<Rightarrow> bool" where
  "chain allowed0 [] \<longleftrightarrow> True"
| "chain allowed0 (r # rs) \<longleftrightarrow> due r = max allowed0 (at r) \<and> chain (due r + delay r) rs"

fun chain_end :: "time \<Rightarrow> reservation list \<Rightarrow> time" where
  "chain_end allowed0 [] = allowed0"
| "chain_end allowed0 (r # rs) = chain_end (due r + delay r) rs"

lemma chain_snoc: "chain a (rs @ [r]) \<longleftrightarrow> chain a rs \<and> due r = max (chain_end a rs) (at r)"
  by (induction rs arbitrary: a) auto

lemma chain_end_snoc: "chain_end a (rs @ [r]) = due r + delay r"
  by (induction rs arbitrary: a) auto

lemma chain_due:
  assumes "chain a rs" and "k < length rs"
  shows "a + sum_list (map delay (take k rs)) \<le> due (rs ! k)"
  using assms
proof (induction rs arbitrary: a k)
  case (Cons r rs)
  show ?case
  proof (cases k)
    case (Suc l)
    have "chain (due r + delay r) rs" using Cons.prems(1) unfolding chain.simps by (rule conjunct2)
    from Cons.IH [OF this, of l] have "due r + delay r + sum_list (map delay (take l rs)) \<le> due (rs ! l)"
      using Suc Cons.prems(2) by simp
    moreover have "a \<le> due r" using Cons.prems(1) by simp
    ultimately show ?thesis using Suc by simp
  qed (use Cons.prems in simp)
qed simp

lemma chain_drop: "chain a rs \<Longrightarrow> j < length rs \<Longrightarrow> chain (due (rs ! j)) (drop j rs)"
proof (induction rs arbitrary: a j)
  case (Cons r rs)
  then show ?case by (cases j) auto
qed simp

text \<open>
  Between two reservations the due times are at least the sum of the delays apart that the
  schedule gave from the first one to the one before the second.
\<close>

lemma chain_spacing:
  assumes "chain a rs" and "j \<le> k" and "k < length rs"
  shows "due (rs ! j) + sum_list (map delay (take (k - j) (drop j rs))) \<le> due (rs ! k)"
  using chain_due [OF chain_drop [OF assms(1), of j], of "k - j"] assms(2,3) by simp

fun paced :: "tsys \<Rightarrow> tpc \<Rightarrow> bool" where
  "paced s (Sleeping du r wait) \<longleftrightarrow> wait = saturate (du - r) \<and> r \<le> du \<and> r \<le> clk s \<and>
     (\<exists>x \<in> set (reservations s). at x = r \<and> due x = du)"
| "paced s (Running du r b) \<longleftrightarrow> min du (r + max_dur) \<le> b \<and> b \<le> clk s \<and>
     (\<exists>x \<in> set (reservations s). at x = r \<and> due x = du)"
| "paced s _ \<longleftrightarrow> True"

definition pace_inv :: "tsys \<Rightarrow> bool" where
  "pace_inv s \<longleftrightarrow> chain 0 (reservations s) \<and> chain_end 0 (reservations s) = allowed s \<and>
     (\<forall>i. paced s (tpcs s i))"

lemma paced_mono:
  assumes "paced s p" and "clk s \<le> clk s'" and "set (reservations s) \<subseteq> set (reservations s')"
  shows "paced s' p"
  using assms by (cases p) auto

lemma pace_inv_upd:
  assumes "pace_inv s" and "reservations s' = reservations s" and "allowed s' = allowed s"
    and "clk s \<le> clk s'" and "\<And>j. tpcs s' j = tpcs s j \<or> paced s' (tpcs s' j)"
  shows "pace_inv s'"
  using assms(1-3) paced_mono [of s _ s'] assms(4,5) unfolding pace_inv_def by (metis order_refl)

lemma sleep_reaches:
  "0 < saturate (du - r) \<Longrightarrow> r + saturate (du - r) \<le> b \<Longrightarrow> min du (r + max_dur) \<le> b"
  by (auto simp: go_time split: if_splits)

lemma no_sleep: "saturate (du - r) \<le> 0 \<Longrightarrow> r \<le> du \<Longrightarrow> du = r"
  by (auto simp: go_time split: if_splits)

lemma tstep_pace: "tstep waiter cap s s' \<Longrightarrow> pace_inv s \<Longrightarrow> pace_inv s'"
proof (induction rule: tstep.induct)
  case (slot s i d wait a)
  let ?x = "\<lparr>at = clk s, due = a - d, delay = d\<rparr>"
  let ?s = "tgo (s\<lparr>allowed := a, reservations := reservations s @ [?x]\<rparr>) i (Sleeping (a - d) (clk s) wait)"
  have a: "a - d = max (allowed s) (clk s)" "wait = saturate (a - d - clk s)"
    using slot by (auto simp: nextSlot_eq)
  have "paced ?s (tpcs ?s j)" for j
  proof (cases "j = i")
    case True
    then show ?thesis using a by simp
  next
    case False
    then show ?thesis using slot by (auto simp: pace_inv_def intro: paced_mono)
  qed
  then show ?case using slot a by (simp add: pace_inv_def chain_snoc chain_end_snoc)
next
  case (sleep_timer s i du r wait)
  then have "paced s (Sleeping du r wait)" unfolding pace_inv_def by metis
  then show ?case using sleep_timer sleep_reaches [of du r] by (intro pace_inv_upd [OF sleep_timer(4)]) auto
next
  case (sleep_none s i du r wait)
  then have "paced s (Sleeping du r wait)" unfolding pace_inv_def by metis
  then show ?case using sleep_none no_sleep [of du r]
    by (intro pace_inv_upd [OF sleep_none(4)]) (auto simp: go_time)
qed (erule pace_inv_upd; simp)+

lemma treach_inv: "treach waiter cap s \<Longrightarrow> flight_inv cap s \<and> pace_inv s"
proof (induction rule: treach.induct)
  case (treach_init s)
  then show ?case by (simp add: flight_inv_def pace_inv_def split: option.splits)
next
  case (treach_step s s')
  then show ?case using tstep_flight tstep_pace by blast
qed

section \<open>Progress\<close>

text \<open>Steps of goroutine i and of the clock alone.\<close>

definition alone :: "bool \<Rightarrow> nat option \<Rightarrow> nat \<Rightarrow> tsys \<Rightarrow> tsys \<Rightarrow> bool" where
  "alone waiter cap i s s' \<longleftrightarrow> (tstep waiter cap)\<^sup>*\<^sup>* s s' \<and> tended s' = tended s \<and>
     (\<forall>k. k \<noteq> i \<longrightarrow> tpcs s' k = tpcs s k)"

lemma alone_refl: "alone waiter cap i s s"
  by (simp add: alone_def)

lemma alone_step:
  assumes "tstep waiter cap s s1" and "tended s1 = tended s" and "\<And>k. k \<noteq> i \<Longrightarrow> tpcs s1 k = tpcs s k"
    and "alone waiter cap i s1 s'"
  shows "alone waiter cap i s s'"
  using assms unfolding alone_def by (auto intro: converse_rtranclp_into_rtranclp)

lemma alone_trans: "alone waiter cap i s s1 \<Longrightarrow> alone waiter cap i s1 s2 \<Longrightarrow> alone waiter cap i s s2"
  unfolding alone_def by (auto intro: rtranclp_trans)

lemma alone_go:
  "tstep waiter cap s (tgo s1 i p) \<Longrightarrow> tended s1 = tended s \<Longrightarrow> tpcs s1 = tpcs s \<Longrightarrow> alone waiter cap i s (tgo s1 i p)"
  by (rule alone_step [OF _ _ _ alone_refl]) simp_all

definition runs_fn :: "tpc \<Rightarrow> bool" where
  "runs_fn p \<longleftrightarrow> p = Granted \<or> (\<exists>du r b. p = Running du r b)"

text \<open>How far a caller that holds a slot is from giving it back.\<close>

fun to_go :: "tpc \<Rightarrow> nat" where
  "to_go Checking = 5"
| "to_go Asking = 4"
| "to_go (Slotting d) = 3"
| "to_go (Sleeping du r wait) = 2"
| "to_go (Running du r b) = 1"
| "to_go Granted = 1"
| "to_go _ = 0"

text \<open>
  A caller that holds a slot gets on by itself, and does not leave before it has run fn unless
  its context has ended.
\<close>

lemma gets_on:
  assumes "in_flight (tpcs s i)" and "tpcs s i \<noteq> Leaving"
  shows "\<exists>s' p. alone waiter cap i s s' \<and> tpcs s' i = p \<and> in_flight p \<and> to_go p < to_go (tpcs s i) \<and>
    held s' = held s \<and> (\<not> tended s i \<longrightarrow> p = Leaving \<longrightarrow> runs_fn (tpcs s i))"
proof -
  let ?C = "\<lambda>s' p. alone waiter cap i s s' \<and> tpcs s' i = p \<and> in_flight p \<and> to_go p < to_go (tpcs s i) \<and>
    held s' = held s \<and> (\<not> tended s i \<longrightarrow> p = Leaving \<longrightarrow> runs_fn (tpcs s i))"
  have go: "\<exists>s' p. ?C s' p" if "tstep waiter cap s (tgo s1 i q)" "tended s1 = tended s" "tpcs s1 = tpcs s"
    "held s1 = held s" "in_flight q" "to_go q < to_go (tpcs s i)"
    "\<not> tended s i \<longrightarrow> q = Leaving \<longrightarrow> runs_fn (tpcs s i)" for s1 q
    using that alone_go [OF that(1-3)] by (intro exI [of _ "tgo s1 i q"] exI [of _ q]) simp
  show ?thesis
  proof (cases "tpcs s i")
    case Checking
    then show ?thesis
      using check_ok [of s i waiter cap] check_err [of s i waiter cap] go [of s] by (cases "tended s i") auto
  next
    case Asking
    then show ?thesis
      using ask [of waiter s i cap 0] wait_nil [of waiter s i cap] go [of s] by (cases waiter) auto
  next
    case (Slotting d)
    obtain wait a where "nextSlot (clk s) d (allowed s) = (wait, a)" by (metis surj_pair)
    from slot [OF Slotting this] show ?thesis by (rule go) (simp_all add: Slotting)
  next
    case (Sleeping du r wait)
    consider "tended s i" | "\<not> tended s i" "wait \<le> 0" | "0 < wait" by linarith
    then show ?thesis
    proof cases
      case 1
      from sleep_ctx [OF Sleeping this] show ?thesis by (rule go) (simp_all add: Sleeping 1)
    next
      case 2
      from sleep_none [OF Sleeping 2(2,1)] show ?thesis by (rule go) (simp_all add: Sleeping)
    next
      case 3
      let ?s = "s\<lparr>clk := clk s + max 0 (r + wait - clk s)\<rparr>"
      let ?t = "tgo ?s i (Running du r (clk ?s))"
      have "tstep waiter cap ?s ?t" by (rule sleep_timer [where wait = wait]) (use Sleeping 3 in auto)
      then have "alone waiter cap i ?s ?t" by (rule alone_go) simp_all
      then have "alone waiter cap i s ?t" by (rule alone_step [OF t_tick, rotated 3]) simp_all
      then show ?thesis using Sleeping by (intro exI [of _ ?t] exI [of _ "tpcs ?t i"]) simp
    qed
  next
    case (Running du r b)
    then show ?thesis using fn_end [of s i du r b waiter cap] go [of s] by (auto simp: runs_fn_def)
  next
    case Granted
    then show ?thesis using fn_end [of s i _ _ _ waiter cap] go [of s] by (auto simp: runs_fn_def)
  qed (use assms in simp_all)
qed

lemma slot_given_back:
  "in_flight (tpcs s i) \<Longrightarrow> \<exists>s'. alone waiter cap i s s' \<and> tpcs s' i = Leaving \<and> held s' = held s"
proof (induction "to_go (tpcs s i)" arbitrary: s rule: less_induct)
  case less
  show ?case
  proof (cases "tpcs s i = Leaving")
    case True
    then show ?thesis using alone_refl by blast
  next
    case False
    from gets_on [OF less.prems False] obtain s1 where s1: "alone waiter cap i s s1" "in_flight (tpcs s1 i)"
      "to_go (tpcs s1 i) < to_go (tpcs s i)" "held s1 = held s" by blast
    from less.hyps [OF s1(3,2)] s1 alone_trans show ?thesis by metis
  qed
qed

lemma slot_runs_fn:
  "in_flight (tpcs s i) \<Longrightarrow> tpcs s i \<noteq> Leaving \<Longrightarrow> \<not> tended s i \<Longrightarrow>
     \<exists>s'. alone waiter cap i s s' \<and> runs_fn (tpcs s' i)"
proof (induction "to_go (tpcs s i)" arbitrary: s rule: less_induct)
  case less
  show ?case
  proof (cases "runs_fn (tpcs s i)")
    case True
    then show ?thesis using alone_refl by blast
  next
    case False
    from gets_on [OF less.prems(1,2)] obtain s1 where s1: "alone waiter cap i s s1" "in_flight (tpcs s1 i)"
      "to_go (tpcs s1 i) < to_go (tpcs s i)" "tpcs s1 i \<noteq> Leaving" using False less.prems(3) by blast
    moreover have "\<not> tended s1 i" using s1(1) less.prems(3) by (simp add: alone_def)
    ultimately show ?thesis using less.hyps [OF s1(3,2)] alone_trans by metis
  qed
qed

section \<open>An example run\<close>

text \<open>Goroutine 0 runs fn at time 100 and goroutine 1, reserved at once after it, at 105.\<close>

definition tsys0 :: tsys where
  "tsys0 = \<lparr>clk = 100, allowed = 0, held = 0, tended = (\<lambda>_. False), tpcs = (\<lambda>_. TIdle),
     reservations = []\<rparr>"

definition tsys_asking :: "nat \<Rightarrow> tsys \<Rightarrow> tsys" where
  "tsys_asking i s = tgo (s\<lparr>held := held s + 1\<rparr>) i (Slotting 5)"

lemma treach_asking:
  assumes "treach False (Some n) s" and "tpcs s i = TIdle" and "\<not> tended s i" and "held s < n"
  shows "treach False (Some n) (tsys_asking i s)"
proof -
  let ?c = "Some n"
  have 1: "treach False ?c (tgo s i Selecting)" by (rule treach_step [OF assms(1) t_call]) (rule assms)
  have 2: "treach False ?c (tgo (s\<lparr>held := held s + 1\<rparr>) i Checking)"
    using treach_step [OF 1 sem_send [of _ i _ n]] assms by simp
  have 3: "treach False ?c (tgo (s\<lparr>held := held s + 1\<rparr>) i Asking)"
    using treach_step [OF 2 check_ok [of _ i]] assms by simp
  show ?thesis
    using treach_step [OF 3 ask [of False _ i _ 5]] by (simp add: tsys_asking_def)
qed

definition tsys_two :: tsys where
  "tsys_two = \<lparr>clk = 105, allowed = 110, held = 2, tended = (\<lambda>_. False),
     tpcs = (\<lambda>_. TIdle)(0 := Running 100 100 100, 1 := Running 105 100 105),
     reservations = [\<lparr>at = 100, due = 100, delay = 5\<rparr>, \<lparr>at = 100, due = 105, delay = 5\<rparr>]\<rparr>"

lemma treach_two: "treach False (Some 2) tsys_two"
proof -
  let ?c = "Some 2"
  have 0: "treach False ?c tsys0" by (rule treach_init) (simp_all add: tsys0_def)
  have 1: "treach False ?c (tsys_asking 0 tsys0)"
    by (rule treach_asking [OF 0]) (simp_all add: tsys0_def)
  let ?s2 = "tsys0\<lparr>allowed := 105, held := 1, reservations := [\<lparr>at = 100, due = 100, delay = 5\<rparr>],
     tpcs := (\<lambda>_. TIdle)(0 := Sleeping 100 100 0)\<rparr>"
  have 2: "treach False ?c ?s2"
    using treach_step [OF 1 slot [of _ 0 5 0 105]]
    by (simp add: tsys_asking_def tsys0_def nextSlot_eq go_time)
  let ?s3 = "?s2\<lparr>tpcs := (\<lambda>_. TIdle)(0 := Running 100 100 100)\<rparr>"
  have 3: "treach False ?c ?s3"
    using treach_step [OF 2 sleep_none [of _ 0 100 100 0]] by (simp add: tsys0_def)
  have 4: "treach False ?c (tsys_asking 1 ?s3)" by (rule treach_asking [OF 3]) (simp_all add: tsys0_def)
  let ?s5 = "tsys_two\<lparr>clk := 100, tpcs := (tpcs tsys_two)(1 := Sleeping 105 100 5)\<rparr>"
  have 5: "treach False ?c ?s5"
    using treach_step [OF 4 slot [of _ 1 5 5 110]]
    by (simp add: tsys_asking_def tsys0_def tsys_two_def nextSlot_eq go_time numeral_2_eq_2)
  have 6: "treach False ?c (?s5\<lparr>clk := 105\<rparr>)"
    using treach_step [OF 5 t_tick [of 5]] by (simp add: tsys_two_def)
  show ?thesis
    using treach_step [OF 6 sleep_timer [of _ 1 105 100 5]] by (simp add: tsys_two_def)
qed

section \<open>Properties\<close>

text \<open>
  The cadence is kept under concurrency. However many callers run, are cancelled or
  queue, a running fn belongs to a reservation, and it was started no earlier than the due
  time of that reservation, which is at least the due time of any earlier reservation plus
  the delays that the schedule gave from that one up to its own predecessor. (The wait is
  exact as long as it fits an int64 number of nanoseconds.)
\<close>

lemma throttle_spacing:
  assumes "treach waiter cap s" and "tpcs s i = Running du r b" and "du \<le> r + max_dur"
  shows "\<exists>k < length (reservations s). due (reservations s ! k) = du \<and> du \<le> b \<and>
    (\<forall>j \<le> k. due (reservations s ! j) + sum_list (map delay (take (k - j) (drop j (reservations s)))) \<le> b)"
proof -
  have inv: "pace_inv s" using treach_inv [OF assms(1)] by simp
  then have "paced s (Running du r b)" unfolding pace_inv_def assms(2) [symmetric] by simp
  then obtain k where k: "k < length (reservations s)" "due (reservations s ! k) = du" "du \<le> b"
    using assms(3) by (auto simp: in_set_conv_nth)
  have "chain 0 (reservations s)" using inv by (simp add: pace_inv_def)
  from chain_spacing [OF this _ k(1)] show ?thesis
    using k by (intro exI [of _ k]) fastforce
qed

text \<open>
  The in-flight cap holds. With WithMaxInflight (n), in every reachable state at most n
  goroutines are between taking their slot and giving it back, waiting or running fn, and
  the channel holds exactly one element for each of them.
\<close>

lemma throttle_inflight_cap:
  assumes "treach waiter (Some n) s"
  shows "finite {i. in_flight (tpcs s i)} \<and> card {i. in_flight (tpcs s i)} = held s \<and> held s \<le> n"
  using treach_inv [OF assms] by (simp add: flight_inv_def)

text \<open>
  C20. Cadence and cap hold under concurrency. However many callers run, are cancelled or
  queue: with WithMaxInflight (n) at most n goroutines are between taking their slot and
  giving it back, and the channel holds exactly one element for each of them; and a running
  fn belongs to a reservation, and was started no earlier than its due time, which is at least
  the due time of any earlier reservation plus the delays that the schedule gave from that one
  up to its own predecessor. (The wait is exact as long as it fits an int64 number of
  nanoseconds.)
\<close>

theorem throttle_limits:
  assumes "treach waiter cap s"
  shows "(\<forall>n. cap = Some n \<longrightarrow>
      finite {i. in_flight (tpcs s i)} \<and> card {i. in_flight (tpcs s i)} = held s \<and> held s \<le> n) \<and>
    (\<forall>i du r b. tpcs s i = Running du r b \<and> du \<le> r + max_dur \<longrightarrow>
      (\<exists>k < length (reservations s). due (reservations s ! k) = du \<and> du \<le> b \<and>
        (\<forall>j \<le> k. due (reservations s ! j) +
          sum_list (map delay (take (k - j) (drop j (reservations s)))) \<le> b)))"
  using throttle_inflight_cap [of waiter _ s] throttle_spacing [OF assms] assms by blast

theorem throttle_limits_witness:
  "card {i. in_flight (tpcs tsys_two i)} = 2 \<and> held tsys_two \<le> 2 \<and>
   (\<exists>k < 2. due (reservations tsys_two ! k) = 105 \<and>
     due (reservations tsys_two ! 0) + sum_list (map delay (take (k - 0) (drop 0 (reservations tsys_two)))) \<le> 105)"
proof -
  note lim = throttle_limits [OF treach_two]
  have run: "tpcs tsys_two 1 = Running 105 100 105" and n: "length (reservations tsys_two) = 2"
    by (simp_all add: tsys_two_def)
  have "\<exists>k < length (reservations tsys_two). due (reservations tsys_two ! k) = 105 \<and> (105::int) \<le> 105 \<and>
      (\<forall>j \<le> k. due (reservations tsys_two ! j) +
        sum_list (map delay (take (k - j) (drop j (reservations tsys_two)))) \<le> 105)"
    by (rule lim [THEN conjunct2, rule_format, of 1 105 100 105]) (use run in \<open>simp add: go_time\<close>)
  then have "\<exists>k < 2. due (reservations tsys_two ! k) = 105 \<and>
      due (reservations tsys_two ! 0) + sum_list (map delay (take (k - 0) (drop 0 (reservations tsys_two)))) \<le> 105"
    using n by fastforce
  then show ?thesis using conjunct1 [OF lim, rule_format, of 2] by (simp add: tsys_two_def)
qed

text \<open>
  C21. A queued caller gets to run. From every reachable state in which a goroutine waits for
  an in-flight slot and its context has not ended, there are steps of the clock, of that
  goroutine, and of at most one of the callers that hold a slot, after which it runs fn.
\<close>

theorem queued_caller_runs:
  assumes "treach waiter cap s" and "tpcs s i = Selecting" and "\<not> tended s i" and "cap \<noteq> Some 0"
  shows "\<exists>s' j. (tstep waiter cap)\<^sup>*\<^sup>* s s' \<and> runs_fn (tpcs s' i) \<and> tended s' = tended s \<and>
    (j \<noteq> i \<longrightarrow> in_flight (tpcs s j)) \<and> (\<forall>k. k \<noteq> i \<longrightarrow> k \<noteq> j \<longrightarrow> tpcs s' k = tpcs s k)"
proof -
  have enter: "\<exists>s'. alone waiter cap i t s' \<and> runs_fn (tpcs s' i)"
    if "tpcs t i = Selecting" "\<not> tended t i" "cap = None \<or> (\<exists>n. cap = Some n \<and> held t < n)" for t
  proof -
    have "\<exists>t1. tstep waiter cap t (tgo t1 i Checking) \<and> tended t1 = tended t \<and> tpcs t1 = tpcs t"
    proof (cases cap)
      case None
      then show ?thesis using sem_nil [OF that(1)] by blast
    next
      case (Some n)
      then show ?thesis using sem_send [OF that(1)] that(3)
        by (intro exI [of _ "t\<lparr>held := held t + 1\<rparr>"]) simp
    qed
    then obtain t1 where t1: "alone waiter cap i t t1" "tpcs t1 i = Checking"
      using alone_go by fastforce
    then have "\<not> tended t1 i" using that(2) by (simp add: alone_def)
    with slot_runs_fn [of t1 i waiter cap] t1 alone_trans show ?thesis by fastforce
  qed
  show ?thesis
  proof (cases "cap = None \<or> (\<exists>n. cap = Some n \<and> held s < n)")
    case True
    from enter [OF assms(2,3) this] show ?thesis unfolding alone_def by blast
  next
    case False
    then obtain n where n: "cap = Some n" "n \<le> held s" by (cases cap) auto
    then have f: "held s = card {j. in_flight (tpcs s j)}" "held s \<le> n"
      using treach_inv [OF assms(1)] by (simp_all add: flight_inv_def)
    have "0 < held s" using n assms(4) by (cases n) auto
    then obtain j where j: "in_flight (tpcs s j)" using f(1) by fastforce
    then have "j \<noteq> i" using assms(2) by auto
    obtain s1 where s1: "alone waiter cap j s s1" "tpcs s1 j = Leaving" "held s1 = held s"
      using slot_given_back [OF j] by blast
    let ?s2 = "tgo (s1\<lparr>held := held s1 - 1\<rparr>) j TDone"
    have "alone waiter cap j s1 ?s2" using alone_go [OF t_leave [of s1 j waiter cap]] s1(2) n(1) by simp
    with s1(1) have s2: "alone waiter cap j s ?s2" by (rule alone_trans)
    have "held s1 - 1 < n" using \<open>0 < held s\<close> s1(3) f(2) by linarith
    then obtain s' where s': "alone waiter cap i ?s2 s'" "runs_fn (tpcs s' i)"
      using enter [of ?s2] s2 \<open>j \<noteq> i\<close> assms(2,3) n(1) s1 by (auto simp: alone_def)
    have "(tstep waiter cap)\<^sup>*\<^sup>* s s'" "tended s' = tended s"
      using s2 s'(1) unfolding alone_def by (auto intro: rtranclp_trans)
    moreover have "\<forall>k. k \<noteq> i \<longrightarrow> k \<noteq> j \<longrightarrow> tpcs s' k = tpcs s k"
      using s2 s'(1) unfolding alone_def by auto
    ultimately show ?thesis using s'(2) j by blast
  qed
qed

text \<open>Goroutine 2 queues behind the two that run.\<close>

definition tsys_queued :: tsys where
  "tsys_queued = tgo tsys_two 2 Selecting"

lemma treach_queued: "treach False (Some 2) tsys_queued"
  unfolding tsys_queued_def by (rule treach_step [OF treach_two t_call]) (simp add: tsys_two_def)

theorem queued_caller_runs_witness:
  "\<exists>s'. (tstep False (Some 2))\<^sup>*\<^sup>* tsys_queued s' \<and> runs_fn (tpcs s' 2)"
  using queued_caller_runs [OF treach_queued, of 2] by (auto simp: tsys_queued_def tsys_two_def)

end
