(* ===== verification/ThrottleBucket.thy ===== *)
theory ThrottleBucket
  imports Throttle Schedule
begin

text \<open>
  Package throttle over package schedule: a Throttle whose Schedule is a TokenBucket. The
  bucket has the method Wait, so it is a Waiter of package throttle, and Do leaves the pacing
  to it.
\<close>

section \<open>The bucket as a schedule of the throttle\<close>

definition bucket_schedule ::
    "('w, 'e) go_env_scheme \<Rightarrow> ('w ctx \<Rightarrow> bool) \<Rightarrow> 'w limiter \<Rightarrow> 'w tschedule" where
  "bucket_schedule env hasDeadline t =
     \<lparr>tNext = token_next t, tWait = Some (token_wait env hasDeadline t)\<rparr>"

lemma pace_bucket:
  "schedule \<theta> = bucket_schedule env h t \<Longrightarrow> pace env \<theta> x w = token_wait env h t x w"
  by (simp add: pace_def bucket_schedule_def)

text \<open>
  took counts the units that the limiter granted and did not get back, and runs the calls of
  the functions given to Do. What the limiter does to took is its side of the bargain; the
  waits and the fields of the Throttle have no part in either count.
\<close>

definition accounts :: "('w \<Rightarrow> int) \<Rightarrow> ('w \<Rightarrow> int) \<Rightarrow> 'w limiter \<Rightarrow> bool" where
  "accounts took runs t \<longleftrightarrow>
     (\<forall>w r w1. Reserve t w = (r, w1) \<longrightarrow> runs w1 = runs w \<and> took w1 = took w + (if OK r then 1 else 0) \<and>
        (\<forall>c v. Cancel r = Some c \<longrightarrow> runs (c v) = runs v \<and> took v - 1 \<le> took (c v))) \<and>
     (\<forall>f x w e w1. LWait t = Some f \<longrightarrow> f x w = (e, w1) \<longrightarrow>
        runs w1 = runs w \<and> took w1 = took w + (if e = None then 1 else 0))"

lemma accountsD:
  assumes "accounts took runs t"
  shows "Reserve t w = (r, w1) \<Longrightarrow> runs w1 = runs w \<and> took w1 = took w + (if OK r then 1 else 0)"
    and "Reserve t w = (r, w1) \<Longrightarrow> Cancel r = Some c \<Longrightarrow> runs (c v) = runs v \<and> took v - 1 \<le> took (c v)"
    and "LWait t = Some f \<Longrightarrow> f x w = (e, w1) \<Longrightarrow> runs w1 = runs w \<and> took w1 = took w + (if e = None then 1 else 0)"
  using assms unfolding accounts_def by blast+

definition uncounted :: "('z tworld \<Rightarrow> int) \<Rightarrow> ('z tworld, 'e) throttle_env_scheme \<Rightarrow> bool" where
  "uncounted obs env \<longleftrightarrow>
     (\<forall>x d w. obs (snd (select_timer env x d w)) = obs w) \<and>
     (\<forall>x n w. obs (snd (select_slot env x n w)) = obs w) \<and> (\<forall>w n. obs (w\<lparr>inflight := n\<rparr>) = obs w)"

lemma uncountedD:
  assumes "uncounted obs env"
  shows "select_timer env x d w = (b, w') \<Longrightarrow> obs w' = obs w"
    and "select_slot env x n w = (b, w') \<Longrightarrow> obs w' = obs w"
    and "obs (w\<lparr>inflight := n\<rparr>) = obs w"
  using assms unfolding uncounted_def by (metis snd_conv)+

section \<open>One call\<close>

text \<open>A Wait that returns nil has taken a unit, and one that fails takes none back.\<close>

lemma token_wait_takes:
  assumes "token_wait env h t x w = (e, w')" and "accounts took runs t" and "stays_ended env t x"
    and "uncounted took env" and "uncounted runs env"
  shows "runs w' = runs w \<and> took w + (if e = None then 1 else 0) \<le> took w'"
proof (cases "ctxErr x w")
  case (Some a)
  then have "e = Some a" "w' = w" using assms(1) by (simp_all add: token_wait_def)
  then show ?thesis by simp
next
  case ctx: None
  note a = accountsD [OF assms(2)]
  show ?thesis
  proof (cases "LWait t")
    case (Some f)
    obtain e1 w1 where f: "f x w = (e1, w1)" by (metis surj_pair)
    then show ?thesis using assms(1) ctx Some a(3) [OF Some f] by (auto simp: token_wait_def)
  next
    case None
    obtain r w1 where r: "Reserve t w = (r, w1)" by (metis surj_pair)
    obtain b w2 where s: "select_timer env x (Delay r w1) w1 = (b, w2)" by (metis surj_pair)
    note o = uncountedD(1) [OF assms(4) s] uncountedD(1) [OF assms(5) s]
    show ?thesis
    proof (cases "OK r \<and> 0 < Delay r w1 \<and> \<not> b")
      case False
      then show ?thesis using assms(1) ctx None r s a(1) [OF r] o
        by (cases b) (auto simp: token_wait_def split: if_splits)
    next
      case True
      then have "ctxErr x w2 \<noteq> None" and "\<And>c. Cancel r = Some c \<Longrightarrow> ctxErr x (c w2) \<noteq> None"
        using stays_endedD [OF assms(3), of _ w1 w2] s r by auto
      then show ?thesis using True assms(1) ctx None r s a(1) [OF r] a(2) [OF r, of _ w2] o
        by (cases "Cancel r") (auto simp: token_wait_def Let_def)
    qed
  qed
qed

text \<open>
  Either the bucket granted a unit and then fn was called, or fn was not called and there is
  an error.
\<close>

lemma Do_paced_bucket:
  assumes "schedule \<theta> = bucket_schedule env h t" and "Do_paced env \<theta> x fn w = (e, w')"
    and "stays_ended env t x"
  shows "(\<exists>w1. token_wait env h t x w = (None, w1) \<and> granted env t x w \<and> fn x w1 = (e, w')) \<or>
    (\<exists>a. e = Some a \<and> (ctxErr x w = Some a \<or> ctxErr x w' = Some a \<or> classified a) \<and>
      (w' = w \<or> token_wait env h t x w = (Some a, w')) \<and> (\<forall>g. Do_paced env \<theta> x g w = (e, w')))"
proof (cases "ctxErr x w")
  case (Some a)
  then show ?thesis using assms(2) by (auto simp: Do_paced_def)
next
  case None
  obtain pe w1 where p: "token_wait env h t x w = (pe, w1)" by (metis surj_pair)
  show ?thesis
  proof (cases pe)
    case (Some a)
    have "Do_paced env \<theta> x g w = (Some a, w1)" for g
      using None p Some by (simp add: Do_paced_def pace_bucket [OF assms(1)])
    moreover have "ctxErr x w = Some a \<or> ctxErr x w1 = Some a \<or> classified a"
      using token_wait_error p Some by metis
    ultimately show ?thesis using assms(2) p Some by auto
  next
    case none: None
    then show ?thesis using None p assms(2) token_wait_granted(2) [OF p [unfolded none] assms(3)]
      by (auto simp: Do_paced_def pace_bucket [OF assms(1)])
  qed
qed

definition counted_fn :: "('z tworld \<Rightarrow> int) \<Rightarrow> ('z tworld \<Rightarrow> int) \<Rightarrow> 'z fn \<Rightarrow> bool" where
  "counted_fn took runs fn \<longleftrightarrow> (\<forall>x w. runs (snd (fn x w)) = runs w + 1 \<and> took (snd (fn x w)) = took w)"

text \<open>The balance of units and calls never falls.\<close>

lemma Do_paced_balance:
  assumes "schedule \<theta> = bucket_schedule env h t" and "Do_paced env \<theta> x fn w = (e, w')"
    and "accounts took runs t" and "stays_ended env t x" and "uncounted took env" and "uncounted runs env"
    and "counted_fn took runs fn"
  shows "took w - runs w \<le> took w' - runs w'"
  using Do_paced_bucket [OF assms(1,2,4)]
proof (elim disjE exE conjE)
  fix w1 assume g: "token_wait env h t x w = (None, w1)" "fn x w1 = (e, w')"
  have "runs w' = runs w1 + 1" "took w' = took w1"
    using assms(7) g(2) unfolding counted_fn_def by (metis snd_conv)+
  then show ?thesis using token_wait_takes [OF g(1) assms(3-6)] by simp
qed (use token_wait_takes [OF _ assms(3-6)] in fastforce)+

lemma Do_balance:
  assumes "schedule \<theta> = bucket_schedule env h t" and "Do env \<theta> x fn w = (e, w')"
    and "accounts took runs t" and "stays_ended env t x" and "uncounted took env" and "uncounted runs env"
    and "counted_fn took runs fn"
  shows "took w - runs w \<le> took w' - runs w'"
proof (cases "sem \<theta>")
  case None
  then show ?thesis using Do_paced_balance [OF assms(1) _ assms(3-7)] assms(2) by (simp add: Do_def)
next
  case (Some n)
  obtain b w1 where s: "select_slot env x n w = (b, w1)" by (metis surj_pair)
  let ?w1 = "w1\<lparr>inflight := Suc (inflight w1)\<rparr>"
  obtain e2 w2 where d: "Do_paced env \<theta> x fn ?w1 = (e2, w2)" by (metis surj_pair)
  note o = uncountedD(2) [OF assms(5) s] uncountedD(2) [OF assms(6) s]
    uncountedD(3) [OF assms(5)] uncountedD(3) [OF assms(6)]
  show ?thesis
    using Do_paced_balance [OF assms(1) d assms(3-7)] assms(2) Some s d o by (cases b) (auto simp: Do_def)
qed

section \<open>Sequences of calls\<close>

primrec calls_of ::
    "('z tworld, 'e) throttle_env_scheme \<Rightarrow> 'z tworld throttle \<Rightarrow> ('z tworld ctx \<times> 'z fn) list \<Rightarrow>
      'z tworld \<Rightarrow> 'z tworld" where
  "calls_of env \<theta> [] w = w"
| "calls_of env \<theta> (c # cs) w = calls_of env \<theta> cs (snd (Do env \<theta> (fst c) (snd c) w))"

lemma calls_balance:
  assumes "schedule \<theta> = bucket_schedule env h t" and "accounts took runs t"
    and "uncounted took env" and "uncounted runs env"
    and "\<forall>c \<in> set cs. stays_ended env t (fst c) \<and> counted_fn took runs (snd c)"
  shows "took w - runs w \<le> took (calls_of env \<theta> cs w) - runs (calls_of env \<theta> cs w)"
  using assms(5)
proof (induction cs arbitrary: w)
  case (Cons c cs)
  have "took w - runs w \<le> took (snd (Do env \<theta> (fst c) (snd c) w)) - runs (snd (Do env \<theta> (fst c) (snd c) w))"
    using Cons.prems by (intro Do_balance [OF assms(1) surjective_pairing assms(2) _ assms(3,4)]) simp_all
  with Cons.IH [of "snd (Do env \<theta> (fst c) (snd c) w)"] Cons.prems show ?case by simp
qed simp

lemma Do_bucket:
  assumes "schedule \<theta> = bucket_schedule env h t" and "Do env \<theta> x fn w = (e, w')"
    and "slot_ok env" and "stays_ended env t x"
  shows "(\<exists>u v v'. granted env t x u \<and> token_wait env h t x u = (None, v) \<and> fn x v = (e, v')) \<or>
    (\<exists>a. e = Some a \<and> ((\<exists>u. ctxErr x u = Some a) \<or> classified a) \<and> (\<forall>g. Do env \<theta> x g w = (e, w')))"
proof (cases "sem \<theta>")
  case None
  then have "Do env \<theta> x g w = Do_paced env \<theta> x g w" for g by (simp add: Do_def)
  with Do_paced_bucket [OF assms(1) _ assms(4), of fn w e w'] assms(2) show ?thesis by auto
next
  case (Some n)
  obtain b w1 where s: "select_slot env x n w = (b, w1)" by (metis surj_pair)
  show ?thesis
  proof (cases b)
    case True
    let ?w1 = "w1\<lparr>inflight := Suc (inflight w1)\<rparr>"
    obtain e2 w2 where d: "Do_paced env \<theta> x fn ?w1 = (e2, w2)" by (metis surj_pair)
    have "Do env \<theta> x g w = (case Do_paced env \<theta> x g ?w1 of (e, w2) \<Rightarrow> (e, w2\<lparr>inflight := inflight w2 - 1\<rparr>))" for g
      using Some s True by (simp add: Do_def)
    with Do_paced_bucket [OF assms(1) d assms(4)] assms(2) d show ?thesis by auto
  next
    case False
    then have "Do env \<theta> x g w = (ctxErr x w1, w1)" "ctxErr x w1 \<noteq> None" for g
      using Some s assms(3) by (auto simp: Do_def slot_ok_def)
    with assms(2) show ?thesis by auto
  qed
qed

lemma New_schedule:
  assumes "New (Some sch) opts = Inr \<theta>" and "\<forall>opt \<in> set opts. \<exists>n. WithMaxInflight n = Inr opt"
  shows "schedule \<theta> = sch"
proof -
  have "\<theta> = apply_opts opts \<lparr>schedule = sch, sem = Some 1\<rparr>" using assms(1) by (simp add: New_def)
  moreover have "schedule (apply_opts opts \<lparr>schedule = sch, sem = Some 1\<rparr>) = sch"
    using assms(2) by (intro apply_opts_inv [where P = "\<lambda>\<theta>. schedule \<theta> = sch"]) (auto simp: WithMaxInflight_def split: if_splits)
  ultimately show ?thesis by simp
qed

section \<open>An example\<close>

text \<open>A limiter with a stock of units that refuses when it is empty.\<close>

record stocked = throttle_world +
  stock :: nat
  units :: int
  fns :: int

definition stock_limiter :: "stocked limiter" where
  "stock_limiter = \<lparr>Reserve = (\<lambda>w. (\<lparr>OK = False, Delay = (\<lambda>_. 0), Cancel = None\<rparr>, w)),
     LWait = Some (\<lambda>x w. if 0 < stock w then (None, w\<lparr>stock := stock w - 1, units := units w + 1\<rparr>)
       else (Some (Err ''rate: exceeds limit''), w)), Burst = None\<rparr>"

definition stock_env :: "stocked throttle_env" where
  "stock_env = \<lparr>nowOf = (\<lambda>_. 0), select_timer = (\<lambda>x d w. (True, w)), select_slot = (\<lambda>x n w. (True, w))\<rparr>"

definition stock_fn :: "'x \<Rightarrow> stocked \<Rightarrow> gerr option \<times> stocked" where
  "stock_fn x w = (None, w\<lparr>fns := fns w + 1\<rparr>)"

definition stock_start :: stocked where
  "stock_start = \<lparr>nextAllowed = 0, inflight = 0, stock = 2, units = 0, fns = 0\<rparr>"

lemmas stock_defs = stock_limiter_def stock_env_def stock_fn_def stock_start_def

section \<open>Properties\<close>

text \<open>
  C22. A Throttle over a TokenBucket fails closed. Over any sequence of calls of Do, with any
  contexts, the functions run at most as often as the limiter granted units that it did not
  get back; each call either runs its function after its Wait was granted a unit, or returns an
  error that is the error of its context or matches context.Canceled, context.DeadlineExceeded
  or ErrRefused, whatever the function is.
\<close>

theorem bucket_throttle_fails_closed:
  assumes "New (Some (bucket_schedule env h t)) opts = Inr \<theta>"
    and "\<forall>opt \<in> set opts. \<exists>n. WithMaxInflight n = Inr opt"
    and "accounts took runs t" and "uncounted took env" and "uncounted runs env" and "slot_ok env"
    and "\<forall>c \<in> set cs. stays_ended env t (fst c) \<and> counted_fn took runs (snd c)"
  shows "runs (calls_of env \<theta> cs w) - runs w \<le> took (calls_of env \<theta> cs w) - took w \<and>
    (\<forall>(x, fn) \<in> set cs. \<forall>w e w'. Do env \<theta> x fn w = (e, w') \<longrightarrow>
       (\<exists>u v v'. granted env t x u \<and> token_wait env h t x u = (None, v) \<and> fn x v = (e, v')) \<or>
       (\<exists>a. e = Some a \<and> ((\<exists>u. ctxErr x u = Some a) \<or> classified a) \<and> (\<forall>g. Do env \<theta> x g w = (e, w'))))"
proof -
  have sch: "schedule \<theta> = bucket_schedule env h t" by (rule New_schedule [OF assms(1,2)])
  show ?thesis
  proof (intro conjI ballI, goal_cases)
    case 1
    show ?case using calls_balance [OF sch assms(3-5,7), of w] by simp
  next
    case (2 c)
    then have "stays_ended env t (fst c)" using assms(7) by blast
    then show ?case using Do_bucket [OF sch _ assms(6), of "fst c"] by (cases c) (simp only: prod.case fst_conv, blast)
  qed
qed

theorem bucket_throttle_fails_closed_witness:
  "\<exists>\<theta>. New (Some (bucket_schedule stock_env (\<lambda>_. False) stock_limiter)) [] = Inr \<theta> \<and>
     fns (calls_of stock_env \<theta> [(background, stock_fn), (background, stock_fn), (background, stock_fn)] stock_start) \<le>
     units (calls_of stock_env \<theta> [(background, stock_fn), (background, stock_fn), (background, stock_fn)] stock_start) \<and>
     fst (Do stock_env \<theta> background stock_fn (stock_start\<lparr>stock := 0\<rparr>)) \<noteq> None"
proof -
  let ?t = "bucket_schedule stock_env (\<lambda>_. False) stock_limiter"
  let ?\<theta> = "\<lparr>schedule = ?t, sem = Some 1\<rparr>"
  have n: "New (Some ?t) [] = Inr ?\<theta>" by (simp add: New_def)
  have "accounts units fns stock_limiter" "uncounted units stock_env" "uncounted fns stock_env" "slot_ok stock_env"
    "counted_fn units fns stock_fn" "\<And>x. stays_ended stock_env stock_limiter x"
    by (auto simp: accounts_def uncounted_def slot_ok_def counted_fn_def stays_ended_def stock_limiter_def
        stock_env_def stock_fn_def split: if_splits)
  note * = bucket_throttle_fails_closed [OF n _ this(1-4), of "[(background, stock_fn), (background, stock_fn), (background, stock_fn)]" stock_start]
  have "fst (Do stock_env ?\<theta> background stock_fn (stock_start\<lparr>stock := 0\<rparr>)) \<noteq> None"
    by (simp add: Do_def Do_paced_def pace_def bucket_schedule_def token_wait_def waitErr_def stock_defs)
  with * n \<open>counted_fn units fns stock_fn\<close> \<open>\<And>x. stays_ended stock_env stock_limiter x\<close>
  show ?thesis by (simp add: stock_start_def)
qed

end
