(* ===== verification/Bytes.thy ===== *)
theory Bytes
  imports GoBase
begin

text \<open>
  The parts of the standard library that the key loader uses on bytes: utf8.DecodeRune and
  utf8.AppendRune, bytes.Map, hex.DecodeString and base64.StdEncoding.DecodeString. A byte is
  an 8-bit word; a rune is a number. A string is the list of its bytes. The decoders return
  the bytes decoded before an error together with the error, as package hex and package
  base64 document.
\<close>

type_synonym byte = "8 word"

named_theorems byte_simps "numbers below 256 and the bytes they denote"

lemma unat_byte_less [simp]: "unat (b :: byte) < 256"
proof -
  have "unat b < 2 ^ LENGTH(8)" by (rule unsigned_less)
  then show ?thesis by simp
qed

lemma unat_of_nat_byte [byte_simps]: "n < 256 \<Longrightarrow> unat (of_nat n :: byte) = n"
  by (simp add: unat_of_nat)

lemma map_unat_of_nat [byte_simps]:
  "\<forall>n \<in> set ns. n < 256 \<Longrightarrow> map unat (map (of_nat :: nat \<Rightarrow> byte) ns) = ns"
  by (induction ns) (auto simp: byte_simps)

lemma of_nat_unat_byte [simp]: "of_nat (unat b) = (b :: byte)"
  by simp

lemma map_of_nat_unat [simp]: "map (of_nat :: nat \<Rightarrow> byte) (map unat bs) = bs"
  by (simp add: comp_def)

section \<open>UTF-8\<close>

definition RuneError :: nat where
  "RuneError = 0xFFFD"

text \<open>The length announced by a first byte (0: invalid) and the range of the second byte.\<close>

definition first_byte :: "nat \<Rightarrow> nat \<times> nat \<times> nat" where
  "first_byte b =
     (if b < 0x80 then (1, 0, 0)
      else if 0xC2 \<le> b \<and> b \<le> 0xDF then (2, 0x80, 0xBF)
      else if b = 0xE0 then (3, 0xA0, 0xBF)
      else if b = 0xED then (3, 0x80, 0x9F)
      else if 0xE1 \<le> b \<and> b \<le> 0xEF then (3, 0x80, 0xBF)
      else if b = 0xF0 then (4, 0x90, 0xBF)
      else if 0xF1 \<le> b \<and> b \<le> 0xF3 then (4, 0x80, 0xBF)
      else if b = 0xF4 then (4, 0x80, 0x8F)
      else (0, 0, 0))"

definition cont_byte :: "nat \<Rightarrow> bool" where
  "cont_byte b \<longleftrightarrow> 0x80 \<le> b \<and> b \<le> 0xBF"

text \<open>utf8.DecodeRune: the rune and its width; an invalid encoding is RuneError of width 1.\<close>

fun decode_rune :: "nat list \<Rightarrow> nat \<times> nat" where
  "decode_rune [] = (RuneError, 0)"
| "decode_rune (b # s) =
     (case first_byte b of (sz, lo, hi) \<Rightarrow>
        if sz = 1 then (b, 1)
        else if sz = 0 \<or> length s + 1 < sz \<or> \<not> (lo \<le> s ! 0 \<and> s ! 0 \<le> hi) then (RuneError, 1)
        else if sz = 2 then ((b mod 32) * 64 + s ! 0 mod 64, 2)
        else if \<not> cont_byte (s ! 1) then (RuneError, 1)
        else if sz = 3 then ((b mod 16) * 4096 + (s ! 0 mod 64) * 64 + s ! 1 mod 64, 3)
        else if \<not> cont_byte (s ! 2) then (RuneError, 1)
        else ((b mod 8) * 262144 + (s ! 0 mod 64) * 4096 + (s ! 1 mod 64) * 64 + s ! 2 mod 64, 4))"

definition scalar :: "nat \<Rightarrow> bool" where
  "scalar r \<longleftrightarrow> r < 0xD800 \<or> (0xE000 \<le> r \<and> r < 0x110000)"

text \<open>utf8.AppendRune, the bytes that it appends.\<close>

definition encode_rune :: "nat \<Rightarrow> nat list" where
  "encode_rune r =
     (if r < 0x80 then [r]
      else if r < 0x800 then [0xC0 + r div 64, 0x80 + r mod 64]
      else if \<not> scalar r then [0xEF, 0xBF, 0xBD]
      else if r < 0x10000 then [0xE0 + r div 4096, 0x80 + r div 64 mod 64, 0x80 + r mod 64]
      else [0xF0 + r div 262144, 0x80 + r div 4096 mod 64, 0x80 + r div 64 mod 64, 0x80 + r mod 64])"

text \<open>bytes.Map: a rune mapped to None (a negative rune) is dropped.\<close>

function map_runes :: "(nat \<Rightarrow> nat option) \<Rightarrow> nat list \<Rightarrow> nat list" where
  "map_runes f s =
     (if s = [] then []
      else case decode_rune s of (r, wid) \<Rightarrow>
        (case f r of None \<Rightarrow> [] | Some r' \<Rightarrow> encode_rune r') @ map_runes f (drop wid s))"
  by pat_completeness auto

lemma decode_rune_width: "s \<noteq> [] \<Longrightarrow> decode_rune s = (r, wid) \<Longrightarrow> 0 < wid \<and> wid \<le> length s"
  by (cases s) (auto simp: first_byte_def Suc_le_eq split: if_splits)

termination map_runes
  by (relation "measure (\<lambda>(f, s). length s)") (auto dest: decode_rune_width [OF _ sym])

declare map_runes.simps [simp del]

lemma map_runes_Nil [simp]: "map_runes f [] = []"
  by (simp add: map_runes.simps)

definition bytes_Map :: "(nat \<Rightarrow> nat option) \<Rightarrow> byte list \<Rightarrow> byte list" where
  "bytes_Map f s = map of_nat (map_runes f (map unat s))"

text \<open>The payload bits of the bytes of an encoding.\<close>

lemma payload [simp]:
  "q < 64 \<Longrightarrow> (128 + q) mod 64 = q" "q < 32 \<Longrightarrow> (192 + q) mod 32 = q"
  "q < 16 \<Longrightarrow> (224 + q) mod 16 = q" "q < 8 \<Longrightarrow> (240 + q) mod 8 = (q :: nat)"
  using mod_mult_self1 [of q 2 64] mod_mult_self1 [of q 6 32] mod_mult_self1 [of q 14 16] mod_mult_self1 [of q 30 8]
  by (simp_all add: add.commute)

lemma decode_2: "2 \<le> a \<Longrightarrow> a < 32 \<Longrightarrow> b < 64 \<Longrightarrow> decode_rune ([192 + a, 128 + b] @ t) = (a * 64 + b, 2)"
  by (simp add: first_byte_def)

lemma decode_3:
  assumes "a < 16" "b < 64" "c < 64" "a = 0 \<Longrightarrow> 32 \<le> b" "a = 13 \<Longrightarrow> b < 32"
  shows "decode_rune ([224 + a, 128 + b, 128 + c] @ t) = (a * 4096 + b * 64 + c, 3)"
proof -
  have "\<exists>lo hi. first_byte (224 + a) = (3, lo, hi) \<and> lo \<le> 128 + b \<and> 128 + b \<le> hi"
    using assms by (auto simp: first_byte_def)
  then show ?thesis using assms(1-3) by (auto simp: cont_byte_def)
qed

lemma decode_4:
  assumes "a < 5" "b < 64" "c < 64" "d < 64" "a = 0 \<Longrightarrow> 16 \<le> b" "a = 4 \<Longrightarrow> b < 16"
  shows "decode_rune ([240 + a, 128 + b, 128 + c, 128 + d] @ t) = (a * 262144 + b * 4096 + c * 64 + d, 4)"
proof -
  have "\<exists>lo hi. first_byte (240 + a) = (4, lo, hi) \<and> lo \<le> 128 + b \<and> 128 + b \<le> hi"
    using assms by (auto simp: first_byte_def)
  then show ?thesis using assms(1-4) by (auto simp: cont_byte_def)
qed

text \<open>The digits of a number to the base 64.\<close>

lemma base_64:
  "r div 64 * 64 + r mod 64 = (r :: nat)"
  "r div 4096 * 4096 + r div 64 mod 64 * 64 + r mod 64 = r"
  "r div 262144 * 262144 + r div 4096 mod 64 * 4096 + r div 64 mod 64 * 64 + r mod 64 = r"
proof -
  have a: "r div 4096 * 64 + r div 64 mod 64 = r div 64" for r :: nat
    using div_mult_mod_eq [of "r div 64" 64] by (simp add: div_mult2_eq [symmetric])
  have b: "r div 262144 * 64 + r div 4096 mod 64 = r div 4096" for r :: nat
    using div_mult_mod_eq [of "r div 4096" 64] by (simp add: div_mult2_eq [symmetric])
  show 0: "r div 64 * 64 + r mod 64 = r" by simp
  then show 1: "r div 4096 * 4096 + r div 64 mod 64 * 64 + r mod 64 = r" using a [of r] by linarith
  then show "r div 262144 * 262144 + r div 4096 mod 64 * 4096 + r div 64 mod 64 * 64 + r mod 64 = r"
    using b [of r] by linarith
qed

lemma decode_encode:
  assumes "scalar r"
  shows "decode_rune (encode_rune r @ t) = (r, length (encode_rune r))"
proof -
  consider "r < 0x80" | "0x80 \<le> r" "r < 0x800" | "0x800 \<le> r" "r < 0x10000" "r < 0xD800 \<or> 0xE000 \<le> r"
    | "0x10000 \<le> r" "r < 0x110000"
    using assms unfolding scalar_def by linarith
  then show ?thesis
  proof cases
    case 1
    then show ?thesis by (simp add: encode_rune_def first_byte_def)
  next
    case 2
    then have "encode_rune r = [192 + r div 64, 128 + r mod 64]" by (simp add: encode_rune_def)
    moreover have "2 \<le> r div 64" "r div 64 < 32" using 2 by auto
    ultimately show ?thesis using decode_2 [of "r div 64" "r mod 64" t] by (simp only: base_64) simp
  next
    case 3
    then have e: "encode_rune r = [224 + r div 4096, 128 + r div 64 mod 64, 128 + r mod 64]"
      using assms by (simp add: encode_rune_def)
    have "r div 4096 < 16" using 3 by auto
    moreover have "r div 4096 = 0 \<Longrightarrow> 32 \<le> r div 64 mod 64" "r div 4096 = 13 \<Longrightarrow> r div 64 mod 64 < 32"
      using base_64(2) [of r] mod_less_divisor [of 64 r] 3 by linarith+
    ultimately show ?thesis
      using decode_3 [of "r div 4096" "r div 64 mod 64" "r mod 64" t] unfolding e base_64 by simp
  next
    case 4
    then have e: "encode_rune r =
        [240 + r div 262144, 128 + r div 4096 mod 64, 128 + r div 64 mod 64, 128 + r mod 64]"
      using assms by (simp add: encode_rune_def)
    have "r div 262144 < 5" using 4 by auto
    moreover have "r div 262144 = 0 \<Longrightarrow> 16 \<le> r div 4096 mod 64" "r div 262144 = 4 \<Longrightarrow> r div 4096 mod 64 < 16"
      using base_64(3) [of r] mod_less_divisor [of 64 r] mod_less_divisor [of 64 "r div 64"] 4 by linarith+
    ultimately show ?thesis
      using decode_4 [of "r div 262144" "r div 4096 mod 64" "r div 64 mod 64" "r mod 64" t]
      unfolding e base_64 by simp
  qed
qed

lemma encode_not_Nil [simp]: "encode_rune r \<noteq> []"
  by (simp add: encode_rune_def)

lemma map_runes_encode:
  assumes "scalar r"
  shows "map_runes f (encode_rune r @ t) = (case f r of None \<Rightarrow> [] | Some r' \<Rightarrow> encode_rune r') @ map_runes f t"
  by (subst map_runes.simps) (simp add: decode_encode [OF assms])

text \<open>On valid UTF-8 bytes.Map works rune by rune.\<close>

lemma map_runes_valid:
  assumes "\<forall>r \<in> set rs. scalar r"
  shows "map_runes f (concat (map encode_rune rs)) = concat (map encode_rune (List.map_filter f rs))"
  using assms
  by (induction rs) (auto simp: map_runes_encode map_filter_simps split: option.splits)

section \<open>Hexadecimal\<close>

definition hex_nibble :: "nat \<Rightarrow> nat option" where
  "hex_nibble c =
     (if 48 \<le> c \<and> c \<le> 57 then Some (c - 48)
      else if 97 \<le> c \<and> c \<le> 102 then Some (c - 87)
      else if 65 \<le> c \<and> c \<le> 70 then Some (c - 55)
      else None)"

definition InvalidByteError :: gerr where
  "InvalidByteError = Err ''encoding/hex: invalid byte''"

definition ErrLength :: gerr where
  "ErrLength = Err ''encoding/hex: odd length hex string''"

text \<open>hex.DecodeString.\<close>

fun hex_DecodeString :: "byte list \<Rightarrow> byte list \<times> gerr option" where
  "hex_DecodeString [] = ([], None)"
| "hex_DecodeString [p] =
     ([], Some (if hex_nibble (unat p) = None then InvalidByteError else ErrLength))"
| "hex_DecodeString (p # q # s) =
     (case (hex_nibble (unat p), hex_nibble (unat q)) of
        (Some a, Some b) \<Rightarrow> (case hex_DecodeString s of (d, e) \<Rightarrow> (of_nat (16 * a + b) # d, e))
      | _ \<Rightarrow> ([], Some InvalidByteError))"

definition hex_char :: "nat \<Rightarrow> byte" where
  "hex_char n = of_nat (if n < 10 then 48 + n else 87 + n)"

text \<open>The encoding, as a reference.\<close>

definition hex_encode :: "byte list \<Rightarrow> byte list" where
  "hex_encode bs = concat (map (\<lambda>b. [hex_char (unat b div 16), hex_char (unat b mod 16)]) bs)"

lemma hex_nibble_char: "n < 16 \<Longrightarrow> hex_nibble (unat (hex_char n)) = Some n"
  by (auto simp: hex_char_def hex_nibble_def byte_simps)

lemma hex_decode_encode: "hex_DecodeString (hex_encode bs) = (bs, None)"
proof (induction bs)
  case (Cons b bs)
  have "unat b div 16 < 16" using unat_byte_less [of b] by linarith
  moreover have "of_nat (16 * (unat b div 16) + unat b mod 16) = b" by (simp only: mult_div_mod_eq of_nat_unat_byte)
  ultimately show ?case using Cons.IH by (simp add: hex_encode_def hex_nibble_char)
qed (simp add: hex_encode_def)

section \<open>Base64\<close>

definition b64_value :: "nat \<Rightarrow> nat option" where
  "b64_value c =
     (if 65 \<le> c \<and> c \<le> 90 then Some (c - 65)
      else if 97 \<le> c \<and> c \<le> 122 then Some (c - 71)
      else if 48 \<le> c \<and> c \<le> 57 then Some (c + 4)
      else if c = 43 then Some 62
      else if c = 47 then Some 63
      else None)"

definition CorruptInputError :: gerr where
  "CorruptInputError = Err ''illegal base64 data''"

definition newline :: "byte \<Rightarrow> bool" where
  "newline c \<longleftrightarrow> unat c = 10 \<or> unat c = 13"

text \<open>The bytes of a quantum of two to four digits.\<close>

definition quantum :: "nat list \<Rightarrow> byte list" where
  "quantum ds =
     (let v = foldl (\<lambda>v d. 64 * v + d) 0 (take 4 (ds @ [0, 0]))
      in take (length ds - 1) [of_nat (v div 65536), of_nat (v div 256 mod 256), of_nat (v mod 256)])"

text \<open>After the padding only newlines may follow; otherwise the bytes come with an error.\<close>

definition b64_finish :: "nat list \<Rightarrow> byte list \<Rightarrow> byte list \<times> gerr option" where
  "b64_finish ds s = (quantum ds, if dropWhile newline s = [] then None else Some CorruptInputError)"

text \<open>base64.StdEncoding.DecodeString, with the digits of the current quantum.\<close>

fun b64_decode :: "nat list \<Rightarrow> byte list \<Rightarrow> byte list \<times> gerr option" where
  "b64_decode ds [] = ([], if ds = [] then None else Some CorruptInputError)"
| "b64_decode ds (c # s) =
     (case b64_value (unat c) of
        Some d \<Rightarrow>
          if length ds = 3 then (case b64_decode [] s of (out, e) \<Rightarrow> (quantum (ds @ [d]) @ out, e))
          else b64_decode (ds @ [d]) s
      | None \<Rightarrow>
          if newline c then b64_decode ds s
          else if unat c \<noteq> 61 \<or> length ds < 2 then ([], Some CorruptInputError)
          else if length ds = 2 then
            (case dropWhile newline s of
               [] \<Rightarrow> ([], Some CorruptInputError)
             | c' # s' \<Rightarrow> if unat c' \<noteq> 61 then ([], Some CorruptInputError) else b64_finish ds s')
          else b64_finish ds s)"

definition base64_DecodeString :: "byte list \<Rightarrow> byte list \<times> gerr option" where
  "base64_DecodeString s = b64_decode [] s"

definition b64_char :: "nat \<Rightarrow> byte" where
  "b64_char n = of_nat (if n < 26 then 65 + n else if n < 52 then 71 + n else if n < 62 then n - 4
     else if n = 62 then 43 else 47)"

text \<open>The encoding, as a reference: three bytes as four digits, the last ones padded.\<close>

fun base64_encode :: "byte list \<Rightarrow> byte list" where
  "base64_encode (x # y # z # s) =
     (let v = 65536 * unat x + 256 * unat y + unat z
      in map b64_char [v div 262144, v div 4096 mod 64, v div 64 mod 64, v mod 64] @ base64_encode s)"
| "base64_encode [x, y] =
     (let v = 65536 * unat x + 256 * unat y
      in map b64_char [v div 262144, v div 4096 mod 64, v div 64 mod 64] @ [61])"
| "base64_encode [x] =
     (let v = 65536 * unat x in map b64_char [v div 262144, v div 4096 mod 64] @ [61, 61])"
| "base64_encode [] = []"

lemma unat_b64_char:
  "n < 64 \<Longrightarrow> unat (b64_char n) = (if n < 26 then 65 + n else if n < 52 then 71 + n else if n < 62 then n - 4
     else if n = 62 then 43 else 47)"
  unfolding b64_char_def by (rule unat_of_nat_byte) auto

lemma b64_value_char: "n < 64 \<Longrightarrow> b64_value (unat (b64_char n)) = Some n"
  by (auto simp: unat_b64_char b64_value_def)

lemma b64_digits:
  "64 * (64 * (64 * (v div 262144) + v div 4096 mod 64) + v div 64 mod 64) + v mod 64 = (v :: nat)"
  using base_64(3) [of v] by simp

text \<open>The bytes of a 24-bit number come back.\<close>

lemma bytes_of_24:
  fixes x y z :: byte
  defines "v \<equiv> 65536 * unat x + 256 * unat y + unat z"
  shows "of_nat (v div 65536) = x" "of_nat (v div 256 mod 256) = y" "of_nat (v mod 256) = z"
    "v div 262144 < 64"
proof -
  have l: "unat x < 256" "unat y < 256" "unat z < 256" by simp_all
  have "v div 65536 = unat x"
    unfolding v_def by (rule div_nat_eqI; simp; use l in linarith)
  moreover have "v div 256 = 256 * unat x + unat y"
    unfolding v_def by (rule div_nat_eqI; simp; use l in linarith)
  moreover have "v mod 256 = unat z"
    using l mod_mult_self2 [of "unat z" 256 "256 * unat x + unat y"] by (simp add: v_def algebra_simps)
  ultimately show "of_nat (v div 65536) = x" "of_nat (v div 256 mod 256) = y" "of_nat (v mod 256) = z"
    using l by simp_all
  have "v < 64 * 262144" using l unfolding v_def by linarith
  then show "v div 262144 < 64" by (rule less_mult_imp_div_less)
qed

lemma quantum_4:
  assumes "64 * (64 * (64 * a + b) + c) + d = v"
  shows "quantum [a, b, c, d] = [of_nat (v div 65536), of_nat (v div 256 mod 256), of_nat (v mod 256)]"
  unfolding assms [symmetric] by (simp add: quantum_def Let_def)

lemma quantum_bytes:
  fixes x y z :: byte
  defines "v \<equiv> 65536 * unat x + 256 * unat y + unat z"
  shows "quantum [v div 262144, v div 4096 mod 64, v div 64 mod 64, v mod 64] = [x, y, z]"
  using bytes_of_24 [of x y z] quantum_4 [OF b64_digits, of v] unfolding v_def [symmetric] by simp

lemma quantum_padded:
  fixes x y :: byte
  defines "v \<equiv> 65536 * unat x + 256 * unat y"
  shows "quantum [v div 262144, v div 4096 mod 64, v div 64 mod 64] = [x, y]"
    and "y = 0 \<Longrightarrow> quantum [v div 262144, v div 4096 mod 64] = [x]"
proof -
  have v: "v = 65536 * unat x + 256 * unat y + unat (0 :: byte)" by (simp add: v_def)
  have "v mod 64 = 0" unfolding v_def by presburger
  then show 2: "quantum [v div 262144, v div 4096 mod 64, v div 64 mod 64] = [x, y]"
    using quantum_bytes [of x y 0] unfolding v [symmetric] by (simp add: quantum_def Let_def)
  assume "y = 0"
  then have "v div 64 mod 64 = 0" unfolding v_def by simp
  then show "quantum [v div 262144, v div 4096 mod 64] = [x]"
    using 2 by (simp add: quantum_def Let_def)
qed

lemma b64_decode_digits:
  "a < 64 \<Longrightarrow> b64_decode ds (b64_char a # s) =
     (if length ds = 3 then (case b64_decode [] s of (out, e) \<Rightarrow> (quantum (ds @ [a]) @ out, e))
      else b64_decode (ds @ [a]) s)"
  by (simp add: b64_value_char)

lemma b64_decode_pad:
  "b64_decode [a, b, c] [61] = (quantum [a, b, c], None)" "b64_decode [a, b] [61, 61] = (quantum [a, b], None)"
  by (simp_all add: b64_value_def newline_def b64_finish_def)

lemma base64_decode_encode: "base64_DecodeString (base64_encode bs) = (bs, None)"
  unfolding base64_DecodeString_def
proof (induction bs rule: base64_encode.induct)
  case (1 x y z s)
  then show ?case
    using bytes_of_24(4) [of x y z] quantum_bytes [of x y z]
    by (simp del: b64_decode.simps add: b64_decode_digits Let_def)
next
  case (2 x y)
  then show ?case
    using bytes_of_24(4) [of x y 0] quantum_padded(1) [of x y]
    by (simp del: b64_decode.simps add: b64_decode_digits b64_decode_pad Let_def)
next
  case (3 x)
  then show ?case
    using bytes_of_24(4) [of x 0 0] quantum_padded(2) [of 0 x]
    by (simp del: b64_decode.simps add: b64_decode_digits b64_decode_pad Let_def)
qed simp

text \<open>Newlines anywhere in base64 input are ignored.\<close>

lemma dropWhile_newline_filter:
  "dropWhile newline (filter (\<lambda>c. \<not> newline c) s) = filter (\<lambda>c. \<not> newline c) s"
  "filter (\<lambda>c. \<not> newline c) (dropWhile newline s) = filter (\<lambda>c. \<not> newline c) s"
  by (induction s) auto

lemma b64_finish_newlines: "b64_finish ds (filter (\<lambda>c. \<not> newline c) s) = b64_finish ds s"
  by (simp only: b64_finish_def dropWhile_newline_filter filter_empty_conv dropWhile_eq_Nil_conv) simp

lemma b64_decode_newlines: "b64_decode ds (filter (\<lambda>c. \<not> newline c) s) = b64_decode ds s"
proof (induction ds s rule: b64_decode.induct)
  case (2 ds c s)
  let ?f = "filter (\<lambda>c. \<not> newline c)"
  have p: "(case ?f s of [] \<Rightarrow> n | c' # s' \<Rightarrow> if unat c' \<noteq> 61 then m else b64_finish ds s') =
      (case dropWhile newline s of [] \<Rightarrow> n | c' # s' \<Rightarrow> if unat c' \<noteq> 61 then m else b64_finish ds s')" for n m
    by (induction s) (simp_all add: b64_finish_newlines)
  show ?case
  proof (cases "newline c")
    case True
    then have n: "b64_value (unat c) = None" by (auto simp: newline_def b64_value_def)
    from 2(1) [OF n True] show ?thesis using True n by simp
  next
    case False
    show ?thesis
    proof (cases "b64_value (unat c)")
      case None
      with False p show ?thesis by (simp add: dropWhile_newline_filter b64_finish_newlines)
    next
      case (Some d)
      then show ?thesis using False 2(2,3) [OF Some] by simp
    qed
  qed
qed simp

end
