(* ===== verification/Keyloader.thy ===== *)
theory Keyloader
  imports Bytes
begin

unbundle bit_operations_syntax

text \<open>
  Package keyloader (certkit/keyloader/keyloader.go) and its test doubles (mock/mock.go). Key
  material lives in buffers of a store: a slice is the address of its buffer, alloc makes a
  new one, and clear zeroes one, so that sharing and erasure are visible. A Go string is a
  value and not in the store: the copies that string conversions make cannot be erased, as
  the package says. The store can be extended, by the state of the file system for example.
\<close>

section \<open>Buffers\<close>

record store =
  buf :: "nat \<Rightarrow> byte list"
  lim :: nat

definition store_ok :: "'z store_scheme \<Rightarrow> bool" where
  "store_ok st \<longleftrightarrow> (\<forall>a \<ge> lim st. buf st a = [])"

definition alloc :: "byte list \<Rightarrow> 'z store_scheme \<Rightarrow> nat \<times> 'z store_scheme" where
  "alloc bs st = (lim st, st\<lparr>buf := (buf st)(lim st := bs), lim := Suc (lim st)\<rparr>)"

definition clear :: "nat \<Rightarrow> 'z store_scheme \<Rightarrow> 'z store_scheme" where
  "clear a st = st\<lparr>buf := (buf st)(a := replicate (length (buf st a)) 0)\<rparr>"

definition zeroed :: "'z store_scheme \<Rightarrow> nat \<Rightarrow> bool" where
  "zeroed st a \<longleftrightarrow> list_all (\<lambda>b. b = 0) (buf st a)"

named_theorems store_simps "reading buffers after an allocation or an erasure"

lemma alloc_simps [store_simps]:
  "fst (alloc bs st) = lim st"
  "buf (snd (alloc bs st)) b = (if b = lim st then bs else buf st b)"
  "lim (snd (alloc bs st)) = Suc (lim st)"
  "store.more (snd (alloc bs st)) = store.more st"
  by (simp_all add: alloc_def)

lemma clear_simps [store_simps]:
  "buf (clear a st) b = (if b = a then replicate (length (buf st a)) 0 else buf st b)"
  "lim (clear a st) = lim st"
  "store.more (clear a st) = store.more st"
  by (simp_all add: clear_def)

lemma zeroed_clear [simp]: "zeroed (clear a st) b \<longleftrightarrow> a = b \<or> zeroed st b"
  by (auto simp: zeroed_def store_simps list_all_length)

lemma zeroed_alloc [simp]: "b \<noteq> lim st \<Longrightarrow> zeroed (snd (alloc bs st)) b \<longleftrightarrow> zeroed st b"
  by (simp add: zeroed_def store_simps)

lemma zeroed_empty: "buf st a = [] \<Longrightarrow> zeroed st a"
  by (simp add: zeroed_def)

lemma clear_idem [simp]: "clear a (clear a st) = clear a st"
  by (simp add: clear_def)

lemma store_ok_alloc [simp]: "store_ok st \<Longrightarrow> store_ok (snd (alloc bs st))"
  by (simp add: store_ok_def store_simps)

lemma store_ok_clear [simp]: "store_ok st \<Longrightarrow> store_ok (clear a st)"
  by (auto simp: store_ok_def store_simps)

lemma store_ok_zeroed: "store_ok st \<Longrightarrow> lim st \<le> a \<Longrightarrow> zeroed st a"
  by (simp add: store_ok_def zeroed_def)

section \<open>Providers\<close>

text \<open>A provider returns a slice (None for nil), the function free, and an error.\<close>

type_synonym 'z free = "'z store_scheme \<Rightarrow> 'z store_scheme"
type_synonym 'z provider = "'z store_scheme \<Rightarrow> (nat option \<times> 'z free \<times> gerr option) \<times> 'z store_scheme"
type_synonym decoder = "byte list \<Rightarrow> byte list \<times> gerr option"

definition drop_space :: "nat \<Rightarrow> nat option" where
  "drop_space r = (if r = 32 \<or> r = 9 \<or> r = 10 \<or> r = 13 then None else Some r)"

definition fail_key :: "gerr \<Rightarrow> nat option \<times> 'z free \<times> gerr option" where
  "fail_key e = (None, \<lambda>st. st, Some e)"

text \<open>
  The deferred erasures run in the reverse order of the defer statements, on the store of
  the return: deferred is what the trimming has deferred.
\<close>

definition process_decoded ::
    "nat \<Rightarrow> decoder option \<Rightarrow> ('z store_scheme \<Rightarrow> 'z store_scheme) \<Rightarrow> 'z provider" where
  "process_decoded data dec deferred st =
     (case dec of
        None \<Rightarrow> ((Some data, clear data, None), deferred st)
      | Some d \<Rightarrow>
          (case d (buf st data) of (decoded, err) \<Rightarrow>
             (case alloc decoded st of (a, st1) \<Rightarrow>
                (case err of
                   Some e \<Rightarrow> (fail_key (Wrap ''decode key'' [e]), deferred (clear data st1))
                 | None \<Rightarrow>
                     if buf st1 a = [] then (fail_key (Err ''decoded key is empty''), deferred (clear data st1))
                     else ((Some a, clear a, None), deferred (clear data st1))))))"

definition processKey :: "nat \<Rightarrow> bool \<Rightarrow> decoder option \<Rightarrow> 'z provider" where
  "processKey data trimWhitespace dec st =
     (if trimWhitespace then
        (case alloc (bytes_Map drop_space (buf st data)) st of (trimmed, st1) \<Rightarrow>
           if buf st1 trimmed = [] then (fail_key (Err ''key is empty after trimming whitespace''), clear data st1)
           else process_decoded trimmed dec (clear data) st1)
      else process_decoded data dec (\<lambda>st. st) st)"

section \<open>Environment variables\<close>

record 'z envConfig =
  getter :: "string \<Rightarrow> 'z store_scheme \<Rightarrow> byte list"
  edecoder :: "decoder option"
  etrim :: bool

definition WithEnvGetter :: "(string \<Rightarrow> 'z store_scheme \<Rightarrow> byte list) \<Rightarrow> 'z envConfig \<Rightarrow> 'z envConfig" where
  "WithEnvGetter g = (\<lambda>c. c\<lparr>getter := g\<rparr>)"

definition WithEnvDecoder :: "decoder \<Rightarrow> 'z envConfig \<Rightarrow> 'z envConfig" where
  "WithEnvDecoder d = (\<lambda>c. c\<lparr>edecoder := Some d\<rparr>)"

definition WithEnvTrimWhitespace :: "'z envConfig \<Rightarrow> 'z envConfig" where
  "WithEnvTrimWhitespace = (\<lambda>c. c\<lparr>etrim := True\<rparr>)"

definition WithEnvHex :: "'z envConfig \<Rightarrow> 'z envConfig" where
  "WithEnvHex = WithEnvDecoder hex_DecodeString"

definition WithEnvBase64 :: "'z envConfig \<Rightarrow> 'z envConfig" where
  "WithEnvBase64 = WithEnvDecoder base64_DecodeString"

text \<open>The provider that FromEnv returns for a configuration; os.Getenv is a parameter.\<close>

definition env_provider :: "'z envConfig \<Rightarrow> string \<Rightarrow> 'z provider" where
  "env_provider c envVar st =
     (let val = getter c envVar st
      in if val = [] then (fail_key (Err (''environment variable '' @ envVar @ '' is not set or empty'')), st)
         else (case alloc val st of (a, st1) \<Rightarrow> processKey a (etrim c) (edecoder c) st1))"

definition env_config ::
    "(string \<Rightarrow> 'z store_scheme \<Rightarrow> byte list) \<Rightarrow> ('z envConfig \<Rightarrow> 'z envConfig) list \<Rightarrow> 'z envConfig" where
  "env_config getenv opts = apply_opts opts \<lparr>getter = getenv, edecoder = None, etrim = False\<rparr>"

definition FromEnv ::
    "(string \<Rightarrow> 'z store_scheme \<Rightarrow> byte list) \<Rightarrow> string \<Rightarrow> ('z envConfig \<Rightarrow> 'z envConfig) list \<Rightarrow> 'z provider" where
  "FromEnv getenv envVar opts = env_provider (env_config getenv opts) envVar"

section \<open>Files\<close>

record fileInfo =
  fiName :: string
  fiSize :: int
  fiMode :: "32 word"

text \<open>An empty slice stands for a nil one.\<close>

record 'z filesystem =
  ReadFile :: "string \<Rightarrow> 'z store_scheme \<Rightarrow> (gerr + nat) \<times> 'z store_scheme"
  Stat :: "string \<Rightarrow> 'z store_scheme \<Rightarrow> (gerr + fileInfo) \<times> 'z store_scheme"

text \<open>
  The file system of the operating system: os.Stat and os.ReadFile are parameters that see
  the store and may change the rest of the state; os.ReadFile returns a new slice.
\<close>

definition osfs ::
    "(string \<Rightarrow> 'z store_scheme \<Rightarrow> (gerr + byte list) \<times> 'z) \<Rightarrow> (string \<Rightarrow> 'z store_scheme \<Rightarrow> (gerr + fileInfo) \<times> 'z) \<Rightarrow>
     'z filesystem" where
  "osfs osReadFile osStat =
     \<lparr>ReadFile = (\<lambda>name st. case osReadFile name st of (r, z) \<Rightarrow>
        (case r of Inl e \<Rightarrow> (Inl e, st\<lparr>store.more := z\<rparr>)
         | Inr bs \<Rightarrow> (case alloc bs (st\<lparr>store.more := z\<rparr>) of (a, st1) \<Rightarrow> (Inr a, st1)))),
      Stat = (\<lambda>name st. case osStat name st of (r, z) \<Rightarrow> (r, st\<lparr>store.more := z\<rparr>))\<rparr>"

record 'z fileConfig =
  filesystem :: "'z filesystem"
  fdecoder :: "decoder option"
  ftrim :: bool
  checkPermissions :: bool

definition WithFilesystem :: "'z filesystem \<Rightarrow> 'z fileConfig \<Rightarrow> 'z fileConfig" where
  "WithFilesystem f = (\<lambda>c. c\<lparr>filesystem := f\<rparr>)"

definition WithFileDecoder :: "decoder \<Rightarrow> 'z fileConfig \<Rightarrow> 'z fileConfig" where
  "WithFileDecoder d = (\<lambda>c. c\<lparr>fdecoder := Some d\<rparr>)"

definition WithFileTrimWhitespace :: "'z fileConfig \<Rightarrow> 'z fileConfig" where
  "WithFileTrimWhitespace = (\<lambda>c. c\<lparr>ftrim := True\<rparr>)"

definition WithoutPermissionCheck :: "'z fileConfig \<Rightarrow> 'z fileConfig" where
  "WithoutPermissionCheck = (\<lambda>c. c\<lparr>checkPermissions := False\<rparr>)"

definition WithFileHex :: "'z fileConfig \<Rightarrow> 'z fileConfig" where
  "WithFileHex = WithFileDecoder hex_DecodeString"

definition WithFileBase64 :: "'z fileConfig \<Rightarrow> 'z fileConfig" where
  "WithFileBase64 = WithFileDecoder base64_DecodeString"

definition insecure :: "32 word \<Rightarrow> bool" where
  "insecure mode \<longleftrightarrow> mode AND 0x3F \<noteq> 0"

text \<open>The check of FromFile on the permissions.\<close>

definition check_file :: "'z fileConfig \<Rightarrow> string \<Rightarrow> 'z store_scheme \<Rightarrow> gerr option \<times> 'z store_scheme" where
  "check_file c path st =
     (if checkPermissions c then
        (case Stat (filesystem c) path st of (r, st1) \<Rightarrow>
           (case r of
              Inl e \<Rightarrow> (Some (Wrap ''stat key file'' [e]), st1)
            | Inr info \<Rightarrow>
                if insecure (fiMode info) then
                  (Some (Err (''key file '' @ path @ '' has insecure permissions (must be 0600 or stricter)'')), st1)
                else (None, st1)))
      else (None, st))"

definition file_provider :: "'z fileConfig \<Rightarrow> string \<Rightarrow> 'z provider" where
  "file_provider c path st =
     (case check_file c path st of (bad, st1) \<Rightarrow>
        (case bad of
           Some e \<Rightarrow> (fail_key e, st1)
         | None \<Rightarrow>
             (case ReadFile (filesystem c) path st1 of (r, st2) \<Rightarrow>
                (case r of
                   Inl e \<Rightarrow> (fail_key (Wrap ''read key file'' [e]), st2)
                 | Inr a \<Rightarrow>
                     if buf st2 a = [] then (fail_key (Err (''key file '' @ path @ '' is empty'')), st2)
                     else processKey a (ftrim c) (fdecoder c) st2))))"

definition file_config :: "'z filesystem \<Rightarrow> ('z fileConfig \<Rightarrow> 'z fileConfig) list \<Rightarrow> 'z fileConfig" where
  "file_config os opts =
     apply_opts opts \<lparr>filesystem = os, fdecoder = None, ftrim = False, checkPermissions = True\<rparr>"

definition FromFile ::
    "'z filesystem \<Rightarrow> string \<Rightarrow> ('z fileConfig \<Rightarrow> 'z fileConfig) list \<Rightarrow> 'z provider" where
  "FromFile os path opts = file_provider (file_config os opts) path"

section \<open>Test doubles\<close>

definition StaticProvider :: "nat \<Rightarrow> 'z provider" where
  "StaticProvider data st = ((Some data, \<lambda>s. s, None), st)"

definition ErrorProvider :: "gerr \<Rightarrow> 'z provider" where
  "ErrorProvider err st = ((None, \<lambda>s. s, Some err), st)"

text \<open>The files of the double are slices that its map and its callers share.\<close>

record mock_file =
  Data :: nat
  Mode :: "32 word"

definition ErrNotExist :: gerr where
  "ErrNotExist = Err ''file does not exist''"

definition mock_ReadFile :: "(string \<Rightarrow> mock_file option) \<Rightarrow> string \<Rightarrow> 'z store_scheme \<Rightarrow> (gerr + nat) \<times> 'z store_scheme" where
  "mock_ReadFile files name st =
     (case files name of None \<Rightarrow> (Inl (Wrap (''read '' @ name) [ErrNotExist]), st) | Some f \<Rightarrow> (Inr (Data f), st))"

definition mock_Stat :: "(string \<Rightarrow> mock_file option) \<Rightarrow> string \<Rightarrow> 'z store_scheme \<Rightarrow> (gerr + fileInfo) \<times> 'z store_scheme" where
  "mock_Stat files name st =
     (case files name of
        None \<Rightarrow> (Inl (Wrap (''stat '' @ name) [ErrNotExist]), st)
      | Some f \<Rightarrow> (Inr \<lparr>fiName = name, fiSize = int (length (buf st (Data f))), fiMode = Mode f\<rparr>, st))"

definition mock_filesystem :: "(string \<Rightarrow> mock_file option) \<Rightarrow> 'z filesystem" where
  "mock_filesystem files = \<lparr>ReadFile = mock_ReadFile files, Stat = mock_Stat files\<rparr>"

section \<open>The contract of a provider\<close>

text \<open>
  What the users of a provider rely on. Buffers that existed before are left alone; a key is
  a new buffer that is not empty, free zeroes it, and the call itself has zeroed every other
  new buffer; with an error the key is nil, free does nothing and every new buffer is zero,
  except that a decoder may have returned bytes with its error (partial).
\<close>

locale key_provider =
  fixes prov :: "'z provider" and partial :: "byte list \<Rightarrow> bool"
  assumes prov_frame: "store_ok st \<Longrightarrow> prov st = (res, st') \<Longrightarrow>
      store_ok st' \<and> lim st \<le> lim st' \<and> (\<forall>a < lim st. buf st' a = buf st a)"
    and prov_key: "store_ok st \<Longrightarrow> prov st = ((key, free, None), st') \<Longrightarrow>
      \<exists>k. key = Some k \<and> free = clear k \<and> lim st \<le> k \<and> k < lim st' \<and> buf st' k \<noteq> [] \<and>
        (\<forall>a. lim st \<le> a \<longrightarrow> a \<noteq> k \<longrightarrow> zeroed st' a)"
    and prov_error: "store_ok st \<Longrightarrow> prov st = ((key, free, Some e), st') \<Longrightarrow>
      key = None \<and> free = (\<lambda>s. s) \<and> (\<forall>a. lim st \<le> a \<longrightarrow> zeroed st' a \<or> partial (buf st' a))"
begin

text \<open>After free nothing that the provider made is left, and free is idempotent.\<close>

lemma free_wipes:
  assumes "store_ok st" and "prov st = ((key, free, err), st')" and "lim st \<le> a"
  shows "zeroed (free st') a \<or> err \<noteq> None \<and> partial (buf st' a)"
proof (cases err)
  case None
  then show ?thesis using prov_key [OF assms(1)] assms(2,3) by fastforce
next
  case (Some e)
  then show ?thesis using prov_error [OF assms(1)] assms(2,3) by auto
qed

lemma free_idem:
  assumes "store_ok st" and "prov st = ((key, free, err), st')"
  shows "free (free s) = free s"
  using assms prov_key [of st key free st'] prov_error [of st key free _ st'] by (cases err) auto

lemma free_frame:
  assumes "store_ok st" and "prov st = ((key, free, err), st')"
  shows "lim (free s) = lim s" and "store_ok s \<Longrightarrow> store_ok (free s)" and "a < lim st \<Longrightarrow> buf (free s) a = buf s a"
    and "zeroed s a \<Longrightarrow> zeroed (free s) a"
proof -
  have "free = (\<lambda>s. s) \<or> (\<exists>k. free = clear k \<and> lim st \<le> k)"
    using assms prov_key [of st key free st'] prov_error [of st key free _ st'] by (cases err) blast+
  then show "lim (free s) = lim s" "store_ok s \<Longrightarrow> store_ok (free s)" "a < lim st \<Longrightarrow> buf (free s) a = buf s a"
    "zeroed s a \<Longrightarrow> zeroed (free s) a"
    by (auto simp: store_simps)
qed

end

text \<open>The bytes that a decoder can return together with an error.\<close>

definition partial_output :: "decoder option \<Rightarrow> byte list \<Rightarrow> bool" where
  "partial_output dec bs \<longleftrightarrow> (\<exists>d s e. dec = Some d \<and> d s = (bs, Some e))"

text \<open>The contract of processKey for a buffer it owns, all buffers from l on being new.\<close>

definition loads :: "(byte list \<Rightarrow> bool) \<Rightarrow> nat \<Rightarrow> 'z store_scheme \<Rightarrow>
    (nat option \<times> 'z free \<times> gerr option) \<times> 'z store_scheme \<Rightarrow> bool" where
  "loads partial l st res \<longleftrightarrow>
     (case res of ((key, free, err), st') \<Rightarrow>
        store_ok st' \<and> lim st \<le> lim st' \<and> (\<forall>a < l. buf st' a = buf st a) \<and>
        (case err of
           None \<Rightarrow> \<exists>k. key = Some k \<and> free = clear k \<and> l \<le> k \<and> k < lim st' \<and> buf st' k \<noteq> [] \<and>
             (\<forall>a. l \<le> a \<longrightarrow> a \<noteq> k \<longrightarrow> zeroed st' a)
         | Some e \<Rightarrow> key = None \<and> free = (\<lambda>s. s) \<and> (\<forall>a. l \<le> a \<longrightarrow> zeroed st' a \<or> partial (buf st' a))))"

lemma process_decoded_loads:
  assumes "store_ok st" and "l \<le> data" and "data < lim st" and "buf st data \<noteq> []"
    and "\<forall>a. l \<le> a \<longrightarrow> a \<noteq> data \<longrightarrow> zeroed (deferred st) a"
    and "deferred = (\<lambda>s. s) \<or> deferred = clear orig \<and> l \<le> orig \<and> orig < data"
  shows "loads (partial_output dec) l st (process_decoded data dec deferred st)"
proof (cases dec)
  case None
  then show ?thesis
    using assms by (auto simp: loads_def process_decoded_def store_simps)
next
  case (Some d)
  obtain bs err where d: "d (buf st data) = (bs, err)" by (metis surj_pair)
  have z: "a \<noteq> lim st \<Longrightarrow> l \<le> a \<Longrightarrow> zeroed (deferred (clear data (snd (alloc bs st)))) a" for a
    using assms(5,6) by (cases "a = data") auto
  have p: "err = Some e \<Longrightarrow> partial_output dec bs" for e
    using Some d by (auto simp: partial_output_def)
  have f: "a < l \<Longrightarrow> buf (deferred (clear data (snd (alloc bs st)))) a = buf st a" for a
    using assms(2,3,6) by (auto simp: store_simps)
  have n: "buf (deferred (clear data (snd (alloc bs st)))) (lim st) = bs"
    using assms(3,6) by (auto simp: store_simps)
  have o: "store_ok (deferred (clear data (snd (alloc bs st))))" "lim (deferred (clear data (snd (alloc bs st)))) = Suc (lim st)"
    using assms(1,6) by (auto simp: store_simps)
  have l: "l \<le> lim st" using assms(2,3) by simp
  let ?s = "deferred (clear data (snd (alloc bs st)))"
  have e1: "bs = [] \<Longrightarrow> l \<le> a \<Longrightarrow> zeroed ?s a" for a
    using z [of a] n by (cases "a = lim st") (simp_all add: zeroed_empty)
  have e2: "err = Some e \<Longrightarrow> l \<le> a \<Longrightarrow> zeroed ?s a \<or> partial_output dec (buf ?s a)" for a e
    using z [of a] n p by (cases "a = lim st") auto
  note defs = loads_def process_decoded_def fail_key_def store_simps case_prod_unfold
  show ?thesis
  proof (cases err)
    case None
    show ?thesis
    proof (cases "bs = []")
      case True
      then show ?thesis using e1 f o by (simp add: defs Some d None)
    next
      case False
      then show ?thesis using z f o n l by (simp add: defs Some d None)
    qed
  next
    case e: (Some e)
    then show ?thesis using e2 [OF e] f o by (simp add: defs d) (simp add: Some d defs)
  qed
qed

lemma processKey_loads:
  assumes "store_ok st" and "l \<le> data" and "data < lim st" and "buf st data \<noteq> []"
    and "\<forall>a. l \<le> a \<longrightarrow> a \<noteq> data \<longrightarrow> zeroed st a"
  shows "loads (partial_output dec) l st (processKey data trim dec st)"
proof (cases trim)
  case False
  then show ?thesis
    using process_decoded_loads [of st l data "\<lambda>s. s"] assms by (simp add: processKey_def)
next
  case True
  let ?bs = "bytes_Map drop_space (buf st data)"
  let ?st = "snd (alloc ?bs st)"
  have l: "l \<le> lim st" using assms(2,3) by simp
  show ?thesis
  proof (cases "?bs = []")
    case e: True
    have "zeroed (clear data ?st) a" if "l \<le> a" for a
      using that assms(5) e by (cases "a = lim st") (auto simp: zeroed_empty store_simps)
    then show ?thesis
      using True e assms(1,2,3)
      by (auto simp: processKey_def loads_def fail_key_def store_simps case_prod_unfold)
  next
    case False
    have "loads (partial_output dec) l ?st (process_decoded (lim st) dec (clear data) ?st)"
      by (rule process_decoded_loads [where orig = data])
        (use assms False l in \<open>auto simp: store_simps\<close>)
    then show ?thesis
      using True False l by (auto simp: processKey_def loads_def store_simps case_prod_unfold split: option.splits)
  qed
qed

lemma fail_key_loads:
  "store_ok st' \<Longrightarrow> lim st \<le> lim st' \<Longrightarrow> \<forall>a < l. buf st' a = buf st a \<Longrightarrow> \<forall>a. l \<le> a \<longrightarrow> zeroed st' a \<Longrightarrow>
     loads partial l st (fail_key e, st')"
  by (simp add: loads_def fail_key_def)

lemma loads_mono:
  "loads partial l st1 r \<Longrightarrow> lim st \<le> lim st1 \<Longrightarrow> \<forall>a < l. buf st1 a = buf st a \<Longrightarrow> loads partial l st r"
  unfolding loads_def by (auto split: prod.splits)

text \<open>A provider that meets the contract of processKey from its own start meets key_provider.\<close>

lemma key_providerI:
  assumes "\<And>st. store_ok st \<Longrightarrow> loads partial (lim st) st (prov st)"
  shows "key_provider prov partial"
proof
  fix st :: "'a store_scheme" and res st' assume ok: "store_ok st" and p: "prov st = (res, st')"
  show "store_ok st' \<and> lim st \<le> lim st' \<and> (\<forall>a < lim st. buf st' a = buf st a)"
    using assms [OF ok] p by (cases res) (simp add: loads_def)
next
  fix st :: "'a store_scheme" and key free st' assume ok: "store_ok st" and p: "prov st = ((key, free, None), st')"
  show "\<exists>k. key = Some k \<and> free = clear k \<and> lim st \<le> k \<and> k < lim st' \<and> buf st' k \<noteq> [] \<and>
      (\<forall>a. lim st \<le> a \<longrightarrow> a \<noteq> k \<longrightarrow> zeroed st' a)"
    using assms [OF ok] p by (simp add: loads_def)
next
  fix st :: "'a store_scheme" and key free e st' assume ok: "store_ok st" and p: "prov st = ((key, free, Some e), st')"
  show "key = None \<and> free = (\<lambda>s. s) \<and> (\<forall>a. lim st \<le> a \<longrightarrow> zeroed st' a \<or> partial (buf st' a))"
    using assms [OF ok] p by (simp add: loads_def)
qed

text \<open>A new buffer handed to processKey.\<close>

lemma alloc_processKey_loads:
  assumes "store_ok st1" and "lim st1 = lim st" and "\<forall>a < lim st. buf st1 a = buf st a" and "bs \<noteq> []"
  shows "loads (partial_output dec) (lim st) st (processKey (lim st) trim dec (snd (alloc bs st1)))"
proof (rule loads_mono)
  show "loads (partial_output dec) (lim st) (snd (alloc bs st1)) (processKey (lim st) trim dec (snd (alloc bs st1)))"
    by (rule processKey_loads) (use assms in \<open>auto simp: store_simps store_ok_zeroed\<close>)
qed (use assms in \<open>auto simp: store_simps\<close>)

interpretation from_env: key_provider "env_provider c envVar" "partial_output (edecoder c)" for c envVar
proof (rule key_providerI)
  fix st :: "'a store_scheme" assume ok: "store_ok st"
  show "loads (partial_output (edecoder c)) (lim st) st (env_provider c envVar st)"
  proof (cases "getter c envVar st = []")
    case True
    then show ?thesis
      using ok fail_key_loads [of st st "lim st"] by (simp add: env_provider_def store_ok_zeroed)
  next
    case False
    then show ?thesis
      using alloc_processKey_loads [OF ok refl _ False] by (simp add: env_provider_def case_prod_unfold store_simps)
  qed
qed

lemma more_update_simps [simp]:
  "buf (store.more_update f st) = buf st" "lim (store.more_update f st) = lim st"
  "store_ok (store.more_update f st) \<longleftrightarrow> store_ok st" "zeroed (store.more_update f st) a \<longleftrightarrow> zeroed st a"
  by (simp_all add: store_ok_def zeroed_def)

interpretation from_file: key_provider "file_provider (c\<lparr>filesystem := osfs osReadFile osStat\<rparr>) path" "partial_output (fdecoder c)"
  for c osReadFile osStat path
proof (rule key_providerI)
  fix st :: "'a store_scheme" assume ok: "store_ok st"
  let ?c = "c\<lparr>filesystem := osfs osReadFile osStat\<rparr>"
  obtain bad st1 where check: "check_file ?c path st = (bad, st1)" by (metis surj_pair)
  have st1: "store_ok st1" "lim st1 = lim st" "buf st1 = buf st"
    using ok check by (auto simp: check_file_def osfs_def split: if_splits prod.splits sum.splits)
  obtain r z where read: "osReadFile path st1 = (r, z)" by (metis surj_pair)
  show "loads (partial_output (fdecoder c)) (lim st) st (file_provider ?c path st)"
  proof (cases bad)
    case (Some e)
    then show ?thesis
      using check st1 ok by (simp add: file_provider_def fail_key_loads store_ok_zeroed)
  next
    case None
    show ?thesis
    proof (cases r)
      case (Inl e)
      then show ?thesis
        using None check read st1 ok
        by (simp add: file_provider_def osfs_def fail_key_loads store_ok_zeroed)
    next
      case (Inr bs)
      have n: "loads p (lim st) st (fail_key e, snd (alloc [] (st1\<lparr>store.more := z\<rparr>)))" for p e
        by (rule fail_key_loads)
          (use st1 in \<open>auto simp: store_simps zeroed_def store_ok_def\<close>)
      show ?thesis
        using None Inr check read st1 n alloc_processKey_loads [of "st1\<lparr>store.more := z\<rparr>" st bs]
        by (simp add: file_provider_def osfs_def case_prod_unfold store_simps)
    qed
  qed
qed

section \<open>Trimming\<close>

definition space_rune :: "nat \<Rightarrow> bool" where
  "space_rune r \<longleftrightarrow> r \<in> {32, 9, 10, 13}"

definition space_byte :: "byte \<Rightarrow> bool" where
  "space_byte b \<longleftrightarrow> space_rune (unat b)"

lemma drop_space_eq: "drop_space r = (if space_rune r then None else Some r)"
  by (simp add: drop_space_def space_rune_def)

lemma encode_rune_bytes: "scalar r \<Longrightarrow> n \<in> set (encode_rune r) \<Longrightarrow> n < 256"
  by (auto simp: encode_rune_def scalar_def split: if_splits)

lemma encode_rune_spaces:
  "scalar r \<Longrightarrow> filter (\<lambda>n. \<not> space_rune n) (encode_rune r) = (if space_rune r then [] else encode_rune r)"
  by (auto simp: encode_rune_def space_rune_def)

lemma map_of_nat_filter:
  "\<forall>n \<in> set ns. n < 256 \<Longrightarrow>
     map (of_nat :: nat \<Rightarrow> byte) (filter (\<lambda>n. \<not> space_rune n) ns) =
     filter (\<lambda>b. \<not> space_byte b) (map of_nat ns)"
  by (induction ns) (auto simp: space_byte_def byte_simps)

text \<open>On ASCII text the runes are the bytes.\<close>

lemma scalar_ascii: "n < 128 \<Longrightarrow> scalar n"
  by (simp add: scalar_def)

lemma ascii_encode: "\<forall>b \<in> set s. unat b < 128 \<Longrightarrow> concat (map encode_rune (map unat s)) = map unat (s :: byte list)"
  by (induction s) (auto simp: encode_rune_def)

lemma trim_utf8:
  assumes "s = map of_nat (concat (map encode_rune rs))" and "\<forall>r \<in> set rs. scalar r"
  shows "bytes_Map drop_space s = filter (\<lambda>b. \<not> space_byte b) s"
proof -
  let ?ns = "concat (map encode_rune rs)"
  have n: "\<forall>n \<in> set ?ns. n < 256" using assms(2) encode_rune_bytes by auto
  have "concat (map encode_rune (List.map_filter drop_space rs)) = filter (\<lambda>n. \<not> space_rune n) ?ns"
    using assms(2) by (induction rs) (auto simp: map_filter_simps encode_rune_spaces drop_space_eq)
  then show ?thesis
    using n map_of_nat_filter [OF n] map_runes_valid [OF assms(2)]
    by (simp only: bytes_Map_def assms(1) map_unat_of_nat)
qed

text \<open>Outside UTF-8 trimming changes a key: the byte 255 becomes the three bytes of U+FFFD.\<close>

lemma trim_corrupts_raw_key: "bytes_Map drop_space [0xFF] = [0xEF, 0xBF, 0xBD]"
  by (simp add: bytes_Map_def map_runes.simps first_byte_def drop_space_def RuneError_def encode_rune_def scalar_def)

lemma insecure_iff: "insecure m \<longleftrightarrow> (\<exists>n < 6. bit m n)"
proof -
  have m: "(0x3F :: 32 word) = mask 6" by (simp add: mask_eq_exp_minus_1)
  have "\<exists>n < 32. bit m n \<and> n < 6" if "n < 6" "bit m n" for n
    using that by (intro exI [of _ n]) simp
  then show ?thesis unfolding insecure_def m by (auto simp: bit_eq_iff bit_simps)
qed

text \<open>Owner execution is not among the bits, so the mode 0700 passes the check.\<close>

lemma mode_0700_passes: "\<not> insecure 0x1C0"
  by (simp add: insecure_def)

text \<open>
  A hexadecimal file that ends in a newline, loaded without trimming, is refused; but the
  decoder has returned the whole key with its error, and that buffer is never erased.
\<close>

lemma hex_decode_newline: "hex_DecodeString (hex_encode k @ [10]) = (k, Some InvalidByteError)"
proof (induction k)
  case Nil
  then show ?case by (simp add: hex_encode_def hex_nibble_def)
next
  case (Cons b k)
  have "unat b div 16 < 16" using unat_byte_less [of b] by linarith
  moreover have "of_nat (16 * (unat b div 16) + unat b mod 16) = b" by (simp only: mult_div_mod_eq of_nat_unat_byte)
  ultimately show ?case using Cons.IH by (simp add: hex_encode_def hex_nibble_char)
qed

lemma decode_error_leaves_key:
  assumes "buf st a = hex_encode k @ [10]" and "a < lim st"
  shows "\<exists>st'. processKey a False (Some hex_DecodeString) st =
    (fail_key (Wrap ''decode key'' [InvalidByteError]), st') \<and> buf st' (lim st) = k"
  using assms by (simp add: processKey_def process_decoded_def hex_decode_newline store_simps case_prod_unfold)

text \<open>
  The mock file system hands out the slice in its map. A load without a decoder therefore
  works once: free erases the file, and the next load returns a key of zeros.
\<close>

lemma mock_file_loads_once:
  assumes "buf st a \<noteq> []"
    and "FromFile (mock_filesystem [''k'' \<mapsto> \<lparr>Data = a, Mode = 0x180\<rparr>]) ''k'' [] st = ((key, free, err), st1)"
  shows "err = None \<and> (\<exists>st2. FromFile (mock_filesystem [''k'' \<mapsto> \<lparr>Data = a, Mode = 0x180\<rparr>]) ''k'' [] (free st1) =
      ((Some a, clear a, None), st2) \<and> buf st2 a = replicate (length (buf st a)) 0)"
  using assms
  by (auto simp: FromFile_def file_config_def file_provider_def check_file_def mock_filesystem_def mock_Stat_def
      mock_ReadFile_def insecure_def processKey_def process_decoded_def store_simps)

section \<open>Properties\<close>

text \<open>
  C36. Trimming removes exactly the whitespace bytes. On text in UTF-8, of any runes,
  bytes.Map with the function of processKey is the filter on the bytes.
\<close>

theorem trim_is_filter:
  assumes "\<forall>r \<in> set rs. scalar r" and "s = map of_nat (concat (map encode_rune rs))"
  shows "bytes_Map drop_space s = filter (\<lambda>b. \<not> space_byte b) s"
  using assms by (intro trim_utf8)

theorem trim_is_filter_witness:
  "bytes_Map drop_space (map of_nat (concat (map encode_rune [65, 32, 0x20AC, 10, 66]))) = [65, 0xE2, 0x82, 0xAC, 66]"
  by (subst trim_is_filter [OF _ refl]) (simp_all add: scalar_def encode_rune_def space_byte_def space_rune_def)

text \<open>
  C34. Nothing of a key outlives free. For FromEnv, and for FromFile on the file system of the
  operating system, with any options: after free every buffer that the load has made is
  zero, those of earlier data are untouched, and free is idempotent; a key is returned
  exactly without error and is not empty. The only exception are the bytes that a decoder
  returned together with its error.
\<close>

theorem keys_are_wiped:
  assumes "prov = FromEnv getenv envVar eopts \<and> dec = edecoder (env_config getenv eopts) \<or>
      prov = FromFile os path fopts \<and> dec = fdecoder (file_config os fopts) \<and>
        filesystem (file_config os fopts) = os \<and> os = osfs osReadFile osStat"
    and "store_ok st" and "prov st = ((key, free, err), st')"
  shows "(\<forall>a. lim st \<le> a \<longrightarrow> zeroed (free st') a \<or> err \<noteq> None \<and> partial_output dec (buf st' a)) \<and>
    (\<forall>a < lim st. buf (free st') a = buf st a) \<and> (\<forall>s. free (free s) = free s) \<and>
    (key = None \<longleftrightarrow> err \<noteq> None) \<and> (\<forall>k. key = Some k \<longrightarrow> buf st' k \<noteq> [])"
proof -
  have e: "c\<lparr>filesystem := f\<rparr> = c" if "filesystem c = f" for c :: "'a fileConfig" and f
    using that by (intro fileConfig.equality) simp_all
  from assms(1) have kp: "key_provider prov (partial_output dec)"
  proof
    assume "prov = FromEnv getenv envVar eopts \<and> dec = edecoder (env_config getenv eopts)"
    then show ?thesis using from_env.key_provider_axioms by (simp add: FromEnv_def [abs_def])
  next
    assume a: "prov = FromFile os path fopts \<and> dec = fdecoder (file_config os fopts) \<and>
        filesystem (file_config os fopts) = os \<and> os = osfs osReadFile osStat"
    then have f: "filesystem (file_config os fopts) = osfs osReadFile osStat"
      and p: "prov = FromFile os path fopts" "dec = fdecoder (file_config os fopts)" by auto
    show ?thesis
      unfolding p FromFile_def [abs_def]
      using from_file.key_provider_axioms [where c = "file_config os fopts" and osReadFile = osReadFile
          and osStat = osStat, unfolded e [OF f]] by simp
  qed
  note k = key_provider.prov_frame [OF kp assms(2,3)] key_provider.free_wipes [OF kp assms(2,3)]
    key_provider.free_idem [OF kp assms(2,3)] key_provider.free_frame(3) [OF kp assms(2,3)]
  have "(key = None \<longleftrightarrow> err \<noteq> None) \<and> (\<forall>k. key = Some k \<longrightarrow> buf st' k \<noteq> [])"
    using key_provider.prov_key [OF kp assms(2)] key_provider.prov_error [OF kp assms(2)] assms(3)
    by (cases err) fastforce+
  then show ?thesis using k by simp
qed

theorem keys_are_wiped_witness:
  "zeroed ((fst (snd (fst (FromEnv (\<lambda>v st. [65, 32]) ''K'' [WithEnvTrimWhitespace] \<lparr>buf = (\<lambda>a. []), lim = 0\<rparr>))))
     (snd (FromEnv (\<lambda>v st. [65, 32]) ''K'' [WithEnvTrimWhitespace] \<lparr>buf = (\<lambda>a. []), lim = 0\<rparr>))) 1"
proof -
  let ?st = "\<lparr>buf = (\<lambda>a. []), lim = 0\<rparr> :: store"
  let ?p = "FromEnv (\<lambda>v st. [65, 32]) ''K'' [WithEnvTrimWhitespace] :: unit provider"
  obtain key free err st' where p: "?p ?st = ((key, free, err), st')" by (metis surj_pair)
  let ?dec = "edecoder (env_config (\<lambda>v st :: store. [65, 32]) [WithEnvTrimWhitespace])"
  have "?dec = None" by (simp add: env_config_def WithEnvTrimWhitespace_def)
  then have "\<not> partial_output ?dec bs" for bs by (simp add: partial_output_def)
  then show ?thesis
    using keys_are_wiped [where prov = ?p and st = ?st and dec = ?dec and getenv = "\<lambda>v st. [65, 32]"
        and envVar = "''K''" and eopts = "[WithEnvTrimWhitespace]", OF _ _ p] p
    by (simp add: store_ok_def)
qed

lemma file_config_snoc:
  "file_config os (opts @ [WithoutPermissionCheck]) = (file_config os opts)\<lparr>checkPermissions := False\<rparr>"
  by (simp add: file_config_def apply_opts_def WithoutPermissionCheck_def)

text \<open>
  An exposed key file is not read. With the permission check on, an error of Stat or a
  mode with any of the six permission bits of group and others makes FromFile fail without
  calling ReadFile; otherwise the load goes on exactly as without the check.
\<close>

lemma insecure_file_not_read:
  assumes "checkPermissions (file_config os opts)"
    and "Stat (filesystem (file_config os opts)) path st = (r, st1)"
  shows "(\<forall>e. r = Inl e \<longrightarrow> FromFile os path opts st = (fail_key (Wrap ''stat key file'' [e]), st1)) \<and>
    (\<forall>info. r = Inr info \<longrightarrow> (\<exists>n < 6. bit (fiMode info) n) \<longrightarrow>
       (\<exists>e. FromFile os path opts st = (fail_key e, st1))) \<and>
    (\<forall>info. r = Inr info \<longrightarrow> \<not> (\<exists>n < 6. bit (fiMode info) n) \<longrightarrow>
       FromFile os path opts st = FromFile os path (opts @ [WithoutPermissionCheck]) st1)"
  using assms
  by (auto simp: FromFile_def file_provider_def check_file_def insecure_iff file_config_snoc
      split: sum.splits prod.splits)

lemma encodings_ascii:
  "b \<in> set (hex_encode k) \<Longrightarrow> unat b < 128"
  "b \<in> set (base64_encode k) \<Longrightarrow> unat b < 128"
proof -
  have h: "n < 16 \<Longrightarrow> unat (hex_char n) < 128" for n
    unfolding hex_char_def by (subst unat_of_nat_byte) auto
  show "b \<in> set (hex_encode k) \<Longrightarrow> unat b < 128"
    using h less_mult_imp_div_less [of _ 16 16] by (auto simp: hex_encode_def)
  have d: "unat (b64_char n) < 128" if "n < 64" for n using that by (auto simp: unat_b64_char)
  show "b \<in> set (base64_encode k) \<Longrightarrow> unat b < 128"
    using bytes_of_24(4) [of _ _ 0] bytes_of_24(4) bytes_of_24(4) [of _ 0 0]
    by (induction k rule: base64_encode.induct) (auto simp: Let_def intro!: d)
qed

lemma encode_Nil: "hex_encode k = [] \<longleftrightarrow> k = []" "base64_encode k = [] \<longleftrightarrow> k = []"
proof -
  show "hex_encode k = [] \<longleftrightarrow> k = []" by (cases k) (simp_all add: hex_encode_def)
  show "base64_encode k = [] \<longleftrightarrow> k = []" by (cases k rule: base64_encode.cases) (simp_all add: Let_def)
qed

text \<open>
  C35. An encoded key file loads. If the file, without its whitespace, is the hexadecimal or
  base64 encoding of a key that is not empty, then FromFile with trimming and that decoder
  returns the key in a buffer of its own, and has already zeroed the file contents and the
  trimmed text.
\<close>

theorem encoded_file_loads:
  assumes "(dec, enc) = (hex_DecodeString, hex_encode) \<or> (dec, enc) = (base64_DecodeString, base64_encode)"
    and "filter (\<lambda>b. \<not> space_byte b) content = enc k" and "k \<noteq> []"
    and "osStat path st = (Inr info, z1)" and "\<not> insecure (fiMode info)"
    and "osReadFile path (st\<lparr>store.more := z1\<rparr>) = (Inr content, z2)" and "store_ok st"
  shows "\<exists>a st'. FromFile (osfs osReadFile osStat) path [WithFileTrimWhitespace, WithFileDecoder dec] st =
      ((Some a, clear a, None), st') \<and> buf st' a = k \<and> (\<forall>b. lim st \<le> b \<longrightarrow> b \<noteq> a \<longrightarrow> zeroed st' b)"
proof -
  let ?p = "FromFile (osfs osReadFile osStat) path [WithFileTrimWhitespace, WithFileDecoder dec]"
  have enc: "enc k \<noteq> []" "\<forall>b \<in> set (enc k). unat b < 128" "dec (enc k) = (k, None)"
    using assms(1,3) by (auto simp: encode_Nil hex_decode_encode base64_decode_encode dest: encodings_ascii)
  have "unat b < 128" if "b \<in> set content" for b
  proof (cases "space_byte b")
    case True
    then show ?thesis by (auto simp: space_byte_def space_rune_def)
  next
    case False
    then have "b \<in> set (enc k)" unfolding assms(2) [symmetric] using that by simp
    then show ?thesis using enc(2) by blast
  qed
  then have "content = map of_nat (concat (map encode_rune (map unat content)))" "\<forall>r \<in> set (map unat content). scalar r"
    using ascii_encode [of content] by (auto simp: comp_def intro: scalar_ascii)
  from trim_utf8 [OF this] have trim: "bytes_Map drop_space content = enc k" using assms(2) by simp
  have "content \<noteq> []" using enc(1) assms(2) by auto
  then obtain a st' where r: "?p st = ((Some a, clear a, None), st')" "buf st' a = k"
    using assms(3-6) trim enc
    by (simp add: FromFile_def file_config_def WithFileTrimWhitespace_def WithFileDecoder_def file_provider_def
        check_file_def osfs_def processKey_def process_decoded_def store_simps case_prod_unfold)
  have "?p = file_provider ((file_config (osfs osReadFile osStat) [WithFileTrimWhitespace, WithFileDecoder dec])
      \<lparr>filesystem := osfs osReadFile osStat\<rparr>) path"
    by (simp add: FromFile_def [abs_def] file_config_def WithFileTrimWhitespace_def WithFileDecoder_def)
  from from_file.prov_key [OF assms(7) r(1) [unfolded this]] r show ?thesis by blast
qed

text \<open>The file 4f 4B followed by a newline, read by an owner-only os.\<close>

theorem encoded_file_loads_witness:
  "\<exists>a st'. FromFile (osfs (\<lambda>p st. (Inr [52, 102, 32, 52, 98, 10], ())) (\<lambda>p st. (Inr \<lparr>fiName = p, fiSize = 6, fiMode = 0x180\<rparr>, ())))
      ''k'' [WithFileTrimWhitespace, WithFileDecoder hex_DecodeString] \<lparr>buf = (\<lambda>a. []), lim = 0\<rparr> =
      ((Some a, clear a, None), st') \<and> buf st' a = [0x4F, 0x4B] \<and> (\<forall>b. b \<noteq> a \<longrightarrow> zeroed st' b)"
  using encoded_file_loads [where st = "\<lparr>buf = (\<lambda>a. []), lim = 0\<rparr>" and dec = hex_DecodeString and enc = hex_encode
      and k = "[0x4F, 0x4B]" and content = "[52, 102, 32, 52, 98, 10]" and path = "''k''"
      and osReadFile = "\<lambda>p st. (Inr [52, 102, 32, 52, 98, 10], ())"
      and osStat = "\<lambda>p st. (Inr \<lparr>fiName = p, fiSize = 6, fiMode = 0x180\<rparr>, ())"
      and info = "\<lparr>fiName = ''k'', fiSize = 6, fiMode = 0x180\<rparr>" and ?z1.0 = "()" and ?z2.0 = "()"]
  by (simp add: hex_encode_def hex_char_def space_byte_def space_rune_def insecure_def store_ok_def)

end
