(* ===== verification/Mtls.thy ===== *)
theory Mtls
  imports Keyloader
begin

text \<open>
  Package mtls (certkit/mtls/mtls.go). tls.X509KeyPair and the parsing of PEM certificates
  are parameters on the bytes; a pool is the list of the certificates appended to it, and
  AppendCertsFromPEM reports whether it has appended any, as package x509 documents. The
  deferred calls of free run in the reverse order of the loads, on every return.
\<close>

datatype clientAuthType = NoClientCert | RequestClientCert | RequireAnyClientCert
  | VerifyClientCertIfGiven | RequireAndVerifyClientCert

definition VersionTLS13 :: "16 word" where
  "VersionTLS13 = 0x0304"

record ('cert, 'x) tlsConfig =
  Certificates :: "'cert list"
  ClientAuth :: clientAuthType
  ClientCAs :: "'x list"
  RootCAs :: "'x list"
  MinVersion :: "16 word"
  ServerName :: string

definition WithServerName :: "string \<Rightarrow> ('cert, 'x) tlsConfig \<Rightarrow> ('cert, 'x) tlsConfig" where
  "WithServerName name = (\<lambda>c. c\<lparr>ServerName := name\<rparr>)"

definition bytes_of :: "'z store_scheme \<Rightarrow> nat option \<Rightarrow> byte list" where
  "bytes_of st ptr = (case ptr of None \<Rightarrow> [] | Some a \<Rightarrow> buf st a)"

definition AppendCertsFromPEM :: "(byte list \<Rightarrow> 'x list) \<Rightarrow> 'x list \<Rightarrow> byte list \<Rightarrow> bool \<times> 'x list" where
  "AppendCertsFromPEM parseCerts pool pem = (parseCerts pem \<noteq> [], pool @ parseCerts pem)"

text \<open>A call of a provider whose free is deferred to the end of the rest.\<close>

definition with_key ::
    "string \<Rightarrow> 'z provider \<Rightarrow> (nat option \<Rightarrow> 'z store_scheme \<Rightarrow> (gerr + 'r) \<times> 'z store_scheme) \<Rightarrow>
     'z store_scheme \<Rightarrow> (gerr + 'r) \<times> 'z store_scheme" where
  "with_key msg prov rest st =
     (case prov st of ((ptr, free, err), st1) \<Rightarrow>
        (case err of
           Some e \<Rightarrow> (Inl (Wrap msg [e]), st1)
         | None \<Rightarrow> (case rest ptr st1 of (r, st2) \<Rightarrow> (r, free st2))))"

text \<open>The last part: the CA is loaded after the pair has been parsed.\<close>

definition load_ca ::
    "(byte list \<Rightarrow> 'x list) \<Rightarrow> 'z provider \<Rightarrow> (('cert, 'x) tlsConfig \<Rightarrow> ('cert, 'x) tlsConfig) list \<Rightarrow> 'cert \<Rightarrow>
     'z store_scheme \<Rightarrow> (gerr + ('cert, 'x) tlsConfig) \<times> 'z store_scheme" where
  "load_ca parseCerts ca opts tlsCert =
     with_key ''load CA certificate'' ca (\<lambda>caPEM st3.
       (case AppendCertsFromPEM parseCerts [] (bytes_of st3 caPEM) of (appended, caPool) \<Rightarrow>
          if \<not> appended then (Inl (Err ''parse CA certificate: invalid PEM''), st3)
          else (Inr (apply_opts opts
            \<lparr>Certificates = [tlsCert], ClientAuth = RequireAndVerifyClientCert, ClientCAs = caPool,
             RootCAs = caPool, MinVersion = VersionTLS13, ServerName = ''''\<rparr>), st3)))"

definition NewTLSConfig ::
    "(byte list \<Rightarrow> byte list \<Rightarrow> gerr + 'cert) \<Rightarrow> (byte list \<Rightarrow> 'x list) \<Rightarrow> 'z provider \<Rightarrow> 'z provider \<Rightarrow> 'z provider \<Rightarrow>
     (('cert, 'x) tlsConfig \<Rightarrow> ('cert, 'x) tlsConfig) list \<Rightarrow> 'z store_scheme \<Rightarrow>
     (gerr + ('cert, 'x) tlsConfig) \<times> 'z store_scheme" where
  "NewTLSConfig X509KeyPair parseCerts cert key ca opts =
     with_key ''load certificate'' cert (\<lambda>certPEM.
     with_key ''load private key'' key (\<lambda>keyPEM st2.
       (case X509KeyPair (bytes_of st2 certPEM) (bytes_of st2 keyPEM) of
          Inl e \<Rightarrow> (Inl (Wrap ''parse certificate/key pair'' [e]), st2)
        | Inr tlsCert \<Rightarrow> load_ca parseCerts ca opts tlsCert st2)))"

section \<open>Erasure\<close>

text \<open>
  A computation that leaves nothing behind: older buffers keep their contents, and every new
  buffer is zero or holds what a failed decoder has returned.
\<close>

definition wipes :: "(byte list \<Rightarrow> bool) \<Rightarrow> ('z store_scheme \<Rightarrow> 'r \<times> 'z store_scheme) \<Rightarrow> bool" where
  "wipes partial f \<longleftrightarrow> (\<forall>st r st'. store_ok st \<longrightarrow> f st = (r, st') \<longrightarrow>
     store_ok st' \<and> lim st \<le> lim st' \<and> (\<forall>a < lim st. buf st' a = buf st a) \<and>
     (\<forall>a. lim st \<le> a \<longrightarrow> zeroed st' a \<or> partial (buf st' a)))"

lemma wipesD:
  assumes "wipes partial f" and "store_ok st" and "f st = (r, st')"
  shows "store_ok st'" and "lim st \<le> lim st'" and "a < lim st \<Longrightarrow> buf st' a = buf st a"
    and "lim st \<le> a \<Longrightarrow> zeroed st' a \<or> partial (buf st' a)"
  using assms unfolding wipes_def by blast+

context key_provider
begin

lemma with_key_wipes:
  assumes "\<And>ptr. wipes other (rest ptr)"
  shows "wipes (\<lambda>bs. partial bs \<or> other bs) (with_key msg prov rest)"
  unfolding wipes_def
proof (intro allI impI)
  fix st r st' assume ok: "store_ok st" and w: "with_key msg prov rest st = (r, st')"
  obtain ptr free err st1 where p: "prov st = ((ptr, free, err), st1)" by (metis surj_pair)
  note f = prov_frame [OF ok p]
  show "store_ok st' \<and> lim st \<le> lim st' \<and> (\<forall>a < lim st. buf st' a = buf st a) \<and>
      (\<forall>a. lim st \<le> a \<longrightarrow> zeroed st' a \<or> partial (buf st' a) \<or> other (buf st' a))"
  proof (cases err)
    case (Some e)
    then show ?thesis using w p f prov_error [OF ok, of ptr free e st1] by (auto simp: with_key_def)
  next
    case None
    obtain r2 st2 where r: "rest ptr st1 = (r2, st2)" by (metis surj_pair)
    then have st': "st' = free st2" using w p None by (simp add: with_key_def)
    obtain k where k: "free = clear k" "lim st \<le> k" "k < lim st1" "\<forall>a. lim st \<le> a \<longrightarrow> a \<noteq> k \<longrightarrow> zeroed st1 a"
      using prov_key [OF ok, of ptr free st1] p None by blast
    have w2: "store_ok st2" "lim st1 \<le> lim st2" "a < lim st1 \<Longrightarrow> buf st2 a = buf st1 a"
      "lim st1 \<le> a \<Longrightarrow> zeroed st2 a \<or> other (buf st2 a)" for a
      using wipesD [OF assms _ r] f by auto
    have "zeroed st' a \<or> partial (buf st' a) \<or> other (buf st' a)" if "lim st \<le> a" for a
    proof (cases "a < lim st1")
      case True
      then have "a \<noteq> k \<Longrightarrow> zeroed st2 a" using that k(4) w2(3) [of a] by (simp add: zeroed_def)
      then show ?thesis by (auto simp: st' k(1))
    next
      case False
      then show ?thesis using k w2(4) [of a] by (auto simp: st' store_simps)
    qed
    moreover have "buf st' a = buf st a" if "a < lim st" for a
      using that f k w2(3) [of a] by (simp add: st' store_simps)
    ultimately show ?thesis using f k w2(1,2) by (auto simp: st' store_simps)
  qed
qed

end

text \<open>Three providers under the contract.\<close>

locale key_loading = cert: key_provider cert pcert + key: key_provider key pkey + ca: key_provider ca pca
  for cert key ca :: "'z provider" and pcert pkey pca
begin

lemma load_ca_wipes: "wipes (\<lambda>bs. pca bs \<or> False) (load_ca parseCerts ca opts tlsCert)"
  unfolding load_ca_def AppendCertsFromPEM_def
  by (rule ca.with_key_wipes) (auto simp: wipes_def store_ok_zeroed split: if_splits)

lemma pair_wipes:
  "wipes pca (\<lambda>st2. case X509KeyPair (bytes_of st2 c) (bytes_of st2 k) of
     Inl e \<Rightarrow> (Inl (Wrap msg [e]), st2) | Inr tlsCert \<Rightarrow> load_ca parseCerts ca opts tlsCert st2)"
  unfolding wipes_def
proof (intro allI impI)
  fix st r st'
  assume ok: "store_ok st" and r: "(case X509KeyPair (bytes_of st c) (bytes_of st k) of
     Inl e \<Rightarrow> (Inl (Wrap msg [e]), st) | Inr tlsCert \<Rightarrow> load_ca parseCerts ca opts tlsCert st) = (r, st')"
  then show "store_ok st' \<and> lim st \<le> lim st' \<and> (\<forall>a < lim st. buf st' a = buf st a) \<and>
      (\<forall>a. lim st \<le> a \<longrightarrow> zeroed st' a \<or> pca (buf st' a))"
  proof (cases "X509KeyPair (bytes_of st c) (bytes_of st k)")
    case (Inl e)
    then show ?thesis using r ok by (auto simp: store_ok_zeroed)
  next
    case (Inr t)
    then have "load_ca parseCerts ca opts t st = (r, st')" using r by simp
    from wipesD [OF load_ca_wipes ok this] show ?thesis by blast
  qed
qed

lemma config_wipes:
  "wipes (\<lambda>bs. pcert bs \<or> pkey bs \<or> pca bs) (NewTLSConfig X509KeyPair parseCerts cert key ca opts)"
  unfolding NewTLSConfig_def by (intro cert.with_key_wipes key.with_key_wipes pair_wipes)

end

interpretation file_keys: key_loading
    "file_provider (c1\<lparr>filesystem := osfs osReadFile osStat\<rparr>) path1"
    "file_provider (c2\<lparr>filesystem := osfs osReadFile osStat\<rparr>) path2"
    "file_provider (c3\<lparr>filesystem := osfs osReadFile osStat\<rparr>) path3"
    "partial_output (fdecoder c1)" "partial_output (fdecoder c2)" "partial_output (fdecoder c3)"
  for c1 c2 c3 path1 path2 path3 osReadFile osStat
  by unfold_locales

interpretation env_keys: key_loading
    "env_provider c1 var1" "env_provider c2 var2" "env_provider c3 var3"
    "partial_output (edecoder c1)" "partial_output (edecoder c2)" "partial_output (edecoder c3)"
  for c1 c2 c3 var1 var2 var3
  by unfold_locales

section \<open>Result\<close>

lemma with_key_Inr:
  assumes "with_key msg prov rest st = (Inr r, st')"
  shows "\<exists>ptr free st1 st2. prov st = ((ptr, free, None), st1) \<and> rest ptr st1 = (Inr r, st2) \<and> st' = free st2"
  using assms by (auto simp: with_key_def split: prod.splits option.splits)

lemma only_names:
  assumes "\<forall>opt \<in> set opts. \<exists>name. opt = WithServerName name"
  shows "\<exists>name. apply_opts opts c = c\<lparr>ServerName := name\<rparr>"
  using assms
proof (induction opts arbitrary: c)
  case Nil
  have "c = c\<lparr>ServerName := ServerName c\<rparr>" by (rule tlsConfig.equality) simp_all
  then show ?case by (simp only: apply_opts_Nil) (rule exI)
next
  case (Cons opt opts)
  from Cons.prems obtain n where o: "opt = WithServerName n" by auto
  from Cons.IH [of "c\<lparr>ServerName := n\<rparr>"] Cons.prems o show ?case by (auto simp: WithServerName_def)
qed

lemma NewTLSConfig_Inr:
  assumes "NewTLSConfig X509KeyPair parseCerts cert key ca opts st = (Inr c, st')"
  shows "\<exists>certPEM keyPEM t pool. X509KeyPair certPEM keyPEM = Inr t \<and> pool \<noteq> [] \<and>
    c = apply_opts opts \<lparr>Certificates = [t], ClientAuth = RequireAndVerifyClientCert, ClientCAs = pool,
      RootCAs = pool, MinVersion = VersionTLS13, ServerName = ''''\<rparr>"
proof -
  obtain cp kp st2 st3 where "(case X509KeyPair (bytes_of st2 cp) (bytes_of st2 kp) of
      Inl e \<Rightarrow> (Inl (Wrap ''parse certificate/key pair'' [e]), st2)
    | Inr tlsCert \<Rightarrow> load_ca parseCerts ca opts tlsCert st2) = (Inr c, st3)"
    using assms unfolding NewTLSConfig_def by (blast dest: with_key_Inr)
  then obtain t where t: "X509KeyPair (bytes_of st2 cp) (bytes_of st2 kp) = Inr t"
    and l: "load_ca parseCerts ca opts t st2 = (Inr c, st3)" by (auto split: sum.splits)
  from with_key_Inr [OF l [unfolded load_ca_def]] t show ?thesis
    by (auto simp: AppendCertsFromPEM_def split: if_splits)
qed

section \<open>Properties\<close>


text \<open>Three files that hold a byte each.\<close>

definition one_byte_files :: "unit filesystem" where
  "one_byte_files = osfs (\<lambda>p st. (Inr [65], ())) (\<lambda>p st. (Inr \<lparr>fiName = p, fiSize = 1, fiMode = 0x180\<rparr>, ()))"

definition one_byte_keys :: "(gerr + (byte list, byte list) tlsConfig) \<times> store" where
  "one_byte_keys = NewTLSConfig (\<lambda>c k. Inr c) (\<lambda>b. [b]) (FromFile one_byte_files ''cert'' []) (FromFile one_byte_files ''key'' [])
     (FromFile one_byte_files ''ca'' []) [WithServerName ''db''] \<lparr>buf = (\<lambda>a. []), lim = 0\<rparr>"


end
