(* ===== verification/Pki.thy ===== *)
theory Pki
  imports Bytes
begin

unbundle bit_operations_syntax

text \<open>
  Package pki (certkit/pki/pki.go): the checks around crypto/x509, encoding/pem, net/url and
  the random source, which are parameters, gathered in a record. An action takes the world
  and returns an error or a value, with the new world; io_bind is the early return on an
  error, and io_wrap the fmt.Errorf around it. A certificate is the fields of
  x509.Certificate that the package sets or reads; a bundle holds PEM bytes.
\<close>

section \<open>Actions\<close>

type_synonym ('w, 'a) io = "'w \<Rightarrow> (gerr + 'a) \<times> 'w"

definition io_return :: "'a \<Rightarrow> ('w, 'a) io" where
  "io_return a = (\<lambda>w. (Inr a, w))"

definition io_lift :: "gerr + 'a \<Rightarrow> ('w, 'a) io" where
  "io_lift r = (\<lambda>w. (r, w))"

definition io_bind :: "('w, 'a) io \<Rightarrow> ('a \<Rightarrow> ('w, 'b) io) \<Rightarrow> ('w, 'b) io" where
  "io_bind m f = (\<lambda>w. case m w of (r, w1) \<Rightarrow> (case r of Inl e \<Rightarrow> (Inl e, w1) | Inr a \<Rightarrow> f a w1))"

definition io_wrap :: "string \<Rightarrow> ('w, 'a) io \<Rightarrow> ('w, 'a) io" where
  "io_wrap msg m = (\<lambda>w. case m w of (r, w1) \<Rightarrow> (case r of Inl e \<Rightarrow> Inl (Wrap msg [e]) | Inr a \<Rightarrow> Inr a, w1))"

definition io_check :: "bool \<Rightarrow> string \<Rightarrow> ('w, unit) io" where
  "io_check bad msg = io_lift (if bad then Inl (Err msg) else Inr ())"

named_theorems io_simps "successful actions"

lemma io_bind_Inr [io_simps]:
  "io_bind m f w = (Inr b, w') \<longleftrightarrow> (\<exists>a w1. m w = (Inr a, w1) \<and> f a w1 = (Inr b, w'))"
  by (auto simp: io_bind_def split: prod.splits sum.splits)

lemma io_wrap_Inr [io_simps]: "io_wrap msg m w = (Inr a, w') \<longleftrightarrow> m w = (Inr a, w')"
  by (auto simp: io_wrap_def split: prod.splits sum.splits)

lemma io_return_Inr [io_simps]: "io_return a w = (Inr b, w') \<longleftrightarrow> a = b \<and> w = w'"
  by (auto simp: io_return_def)

lemma io_lift_Inr [io_simps]: "io_lift r w = (Inr b, w') \<longleftrightarrow> r = Inr b \<and> w = w'"
  by (auto simp: io_lift_def)

lemma io_check_Inr [io_simps]: "io_check bad msg w = (Inr u, w') \<longleftrightarrow> \<not> bad \<and> w = w'"
  by (auto simp: io_check_def io_lift_def)

section \<open>Certificates and the library\<close>

record cert_bundle =
  CertPEM :: "byte list"
  KeyPEM :: "byte list"

datatype extKeyUsage = ExtKeyUsageServerAuth | ExtKeyUsageClientAuth

definition KeyUsageDigitalSignature :: "16 word" where
  "KeyUsageDigitalSignature = 1"

definition KeyUsageCertSign :: "16 word" where
  "KeyUsageCertSign = 32"

definition KeyUsageCRLSign :: "16 word" where
  "KeyUsageCRLSign = 64"

record 'u certificate =
  SerialNumber :: int
  CommonName :: string
  Organization :: "string list"
  DNSNames :: "string list"
  IPAddresses :: "byte list list"
  URIs :: "'u list"
  NotBefore :: time
  NotAfter :: time
  KeyUsage :: "16 word"
  ExtKeyUsage :: "extKeyUsage list"
  BasicConstraintsValid :: bool
  IsCA :: bool
  MaxPathLen :: int
  MaxPathLenZero :: bool

text \<open>
  ParsePKCS8 returns None for a key that is not a crypto.Signer; pem_Decode returns the bytes
  of the first block; Now is time.Now and randInt is rand.Int of rand.Reader.
\<close>

record ('w, 'k, 'p, 'u) crypto =
  Now :: "'w \<Rightarrow> time \<times> 'w"
  randInt :: "int \<Rightarrow> ('w, int) io"
  Public :: "'k \<Rightarrow> 'p"
  CreateCertificate :: "'u certificate \<Rightarrow> 'u certificate \<Rightarrow> 'p \<Rightarrow> 'k \<Rightarrow> ('w, byte list) io"
  ParseCertificate :: "byte list \<Rightarrow> gerr + 'u certificate"
  MarshalPKCS8 :: "'k \<Rightarrow> gerr + byte list"
  ParsePKCS8 :: "byte list \<Rightarrow> gerr + 'k option"
  pem_Encode :: "string \<Rightarrow> byte list \<Rightarrow> byte list"
  pem_Decode :: "byte list \<Rightarrow> byte list option"
  url_Parse :: "string \<Rightarrow> gerr + 'u"
  IsAbs :: "'u \<Rightarrow> bool"
  url_String :: "'u \<Rightarrow> string"

definition io_now :: "('w, 'k, 'p, 'u) crypto \<Rightarrow> ('w, time) io" where
  "io_now lib = (\<lambda>w. case Now lib w of (t, w1) \<Rightarrow> (Inr t, w1))"

lemma io_now_Inr [io_simps]: "io_now lib w = (Inr t, w') \<longleftrightarrow> Now lib w = (t, w')"
  by (auto simp: io_now_def split: prod.splits)

text \<open>
  The generators of the library that the key algorithms name, on rand.Reader. mldsaKey turns
  a typed nil key into a nil interface, which are both an error without a key here.
\<close>

datatype curve = P256 | P384

datatype mldsaParameters = ML_DSA_44 | ML_DSA_65 | ML_DSA_87

record ('w, 'k) keygen =
  ecdsa_GenerateKey :: "curve \<Rightarrow> ('w, 'k) io"
  rsa_GenerateKey :: "nat \<Rightarrow> ('w, 'k) io"
  ed25519_GenerateKey :: "('w, 'k) io"
  mldsa_GenerateKey :: "mldsaParameters \<Rightarrow> ('w, 'k) io"

definition ECDSAP256 :: "('w, 'k) keygen \<Rightarrow> ('w, 'k) io" where
  "ECDSAP256 g = ecdsa_GenerateKey g P256"

definition ECDSAP384 :: "('w, 'k) keygen \<Rightarrow> ('w, 'k) io" where
  "ECDSAP384 g = ecdsa_GenerateKey g P384"

definition RSA2048 :: "('w, 'k) keygen \<Rightarrow> ('w, 'k) io" where
  "RSA2048 g = rsa_GenerateKey g 2048"

definition RSA4096 :: "('w, 'k) keygen \<Rightarrow> ('w, 'k) io" where
  "RSA4096 g = rsa_GenerateKey g 4096"

definition Ed25519 :: "('w, 'k) keygen \<Rightarrow> ('w, 'k) io" where
  "Ed25519 g = ed25519_GenerateKey g"

definition mldsaKey :: "('w, 'k) keygen \<Rightarrow> mldsaParameters \<Rightarrow> ('w, 'k) io" where
  "mldsaKey g params = (\<lambda>w. case mldsa_GenerateKey g params w of (r, w1) \<Rightarrow>
     (case r of Inl e \<Rightarrow> (Inl e, w1) | Inr key \<Rightarrow> (Inr key, w1)))"

definition MLDSA44 :: "('w, 'k) keygen \<Rightarrow> ('w, 'k) io" where
  "MLDSA44 g = mldsaKey g ML_DSA_44"

definition MLDSA65 :: "('w, 'k) keygen \<Rightarrow> ('w, 'k) io" where
  "MLDSA65 g = mldsaKey g ML_DSA_65"

definition MLDSA87 :: "('w, 'k) keygen \<Rightarrow> ('w, 'k) io" where
  "MLDSA87 g = mldsaKey g ML_DSA_87"

section \<open>Configuration\<close>

record certConfig =
  maxPathLen :: int
  maxPathLenZero :: bool
  serial :: "int option"
  uris :: "string list"

definition WithMaxPathLen :: "int \<Rightarrow> certConfig \<Rightarrow> certConfig" where
  "WithMaxPathLen n = (\<lambda>c. c\<lparr>maxPathLen := n, maxPathLenZero := (n = 0)\<rparr>)"

definition WithSerial :: "int option \<Rightarrow> certConfig \<Rightarrow> certConfig" where
  "WithSerial s = (\<lambda>c. c\<lparr>serial := s\<rparr>)"

definition WithURIs :: "string list \<Rightarrow> certConfig \<Rightarrow> certConfig" where
  "WithURIs us = (\<lambda>c. c\<lparr>uris := us\<rparr>)"

text \<open>big.Int.Bytes: the digits of the absolute value to the base 256.\<close>

fun int_Bytes :: "nat \<Rightarrow> byte list" where
  "int_Bytes n = (if n = 0 then [] else int_Bytes (n div 256) @ [of_nat (n mod 256)])"

declare int_Bytes.simps [simp del]

definition randomSerial :: "('w, 'k, 'p, 'u) crypto \<Rightarrow> ('w, int) io" where
  "randomSerial lib = io_bind (randInt lib (2 ^ 128)) (\<lambda>s. io_return (s + 1))"

definition resolveSerial :: "('w, 'k, 'p, 'u) crypto \<Rightarrow> certConfig \<Rightarrow> ('w, int) io" where
  "resolveSerial lib cfg =
     (case serial cfg of
        None \<Rightarrow> randomSerial lib
      | Some s \<Rightarrow>
          io_lift (if s \<le> 0 then Inl (Err ''serial must be a positive integer'')
            else if length (int_Bytes (nat \<bar>s\<bar>)) > 20 then
              Inl (Err ''serial exceeds maximum length of 20 octets (RFC 5280)'')
            else Inr s))"

definition isASCII :: "string \<Rightarrow> bool" where
  "isASCII s \<longleftrightarrow> list_all (\<lambda>c. (of_char c :: nat) \<le> 127) s"

fun resolve_uris :: "('w, 'k, 'p, 'u) crypto \<Rightarrow> string list \<Rightarrow> gerr + 'u list" where
  "resolve_uris lib [] = Inr []"
| "resolve_uris lib (raw # rest) =
     (case url_Parse lib raw of
        Inl e \<Rightarrow> Inl (Wrap (''parse URI SAN '' @ raw) [e])
      | Inr u \<Rightarrow>
          if \<not> IsAbs lib u then Inl (Err (''URI SAN '' @ raw @ '' is not absolute (no scheme)''))
          else if \<not> isASCII raw then Inl (Err (''URI SAN '' @ raw @ '' contains non-ASCII characters''))
          else if url_String lib u \<noteq> raw then
            Inl (Err (''URI SAN '' @ raw @ '' is not in normalised form (would be issued as '' @ url_String lib u @ '')''))
          else (case resolve_uris lib rest of Inl e \<Rightarrow> Inl e | Inr us \<Rightarrow> Inr (u # us)))"

definition resolveURIs :: "('w, 'k, 'p, 'u) crypto \<Rightarrow> certConfig \<Rightarrow> gerr + 'u list" where
  "resolveURIs lib cfg = resolve_uris lib (uris cfg)"

section \<open>Bundles\<close>

definition marshalPrivateKey :: "('w, 'k, 'p, 'u) crypto \<Rightarrow> 'k \<Rightarrow> gerr + byte list" where
  "marshalPrivateKey lib key =
     (case MarshalPKCS8 lib key of Inl e \<Rightarrow> Inl e | Inr der \<Rightarrow> Inr (pem_Encode lib ''PRIVATE KEY'' der))"

definition parseCA :: "('w, 'k, 'p, 'u) crypto \<Rightarrow> cert_bundle \<Rightarrow> gerr + 'u certificate \<times> 'k" where
  "parseCA lib ca =
     (case pem_Decode lib (CertPEM ca) of
        None \<Rightarrow> Inl (Err ''decode CA certificate PEM: no PEM block found'')
      | Some certBlock \<Rightarrow>
          (case ParseCertificate lib certBlock of
             Inl e \<Rightarrow> Inl (Wrap ''parse CA certificate'' [e])
           | Inr cert \<Rightarrow>
               (case pem_Decode lib (KeyPEM ca) of
                  None \<Rightarrow> Inl (Err ''decode CA key PEM: no PEM block found'')
                | Some keyBlock \<Rightarrow>
                    (case ParsePKCS8 lib keyBlock of
                       Inl e \<Rightarrow> Inl (Wrap ''parse CA private key'' [e])
                     | Inr None \<Rightarrow> Inl (Err ''CA private key does not implement crypto.Signer'')
                     | Inr (Some key) \<Rightarrow> Inr (cert, key)))))"

definition minute :: duration where
  "minute = 60 * 10 ^ 9"

text \<open>Signing and encoding, which GenerateCA and generateCert do alike but for the messages.\<close>

definition sign_bundle ::
    "string \<Rightarrow> ('w, 'k, 'p, 'u) crypto \<Rightarrow> 'u certificate \<Rightarrow> 'u certificate \<Rightarrow> 'k \<Rightarrow> 'k \<Rightarrow> ('w, cert_bundle) io" where
  "sign_bundle what lib template parent privateKey signKey =
     io_bind (io_wrap (''create '' @ what @ '' certificate'')
       (CreateCertificate lib template parent (Public lib privateKey) signKey)) (\<lambda>certDER.
     io_bind (io_wrap (''marshal '' @ what @ '' private key'') (io_lift (marshalPrivateKey lib privateKey))) (\<lambda>keyPEM.
     io_return \<lparr>CertPEM = pem_Encode lib ''CERTIFICATE'' certDER, KeyPEM = keyPEM\<rparr>))"

definition ca_config :: "(certConfig \<Rightarrow> certConfig) list \<Rightarrow> certConfig" where
  "ca_config opts = apply_opts opts \<lparr>maxPathLen = 0, maxPathLenZero = True, serial = None, uris = []\<rparr>"

text \<open>Validity starts a minute before the reading t of the clock.\<close>

definition ca_template :: "int \<Rightarrow> string \<Rightarrow> string \<Rightarrow> time \<Rightarrow> time \<Rightarrow> certConfig \<Rightarrow> 'u certificate" where
  "ca_template sn commonName org t notAfter cfg =
     \<lparr>SerialNumber = sn, CommonName = commonName, Organization = [org], DNSNames = [],
      IPAddresses = [], URIs = [], NotBefore = time_Add t (- minute), NotAfter = notAfter,
      KeyUsage = KeyUsageCertSign OR KeyUsageCRLSign, ExtKeyUsage = [], BasicConstraintsValid = True,
      IsCA = True, MaxPathLen = maxPathLen cfg, MaxPathLenZero = maxPathLenZero cfg\<rparr>"

definition GenerateCA ::
    "('w, 'k, 'p, 'u) crypto \<Rightarrow> ('w, 'k) io \<Rightarrow> string \<Rightarrow> string \<Rightarrow> duration \<Rightarrow> (certConfig \<Rightarrow> certConfig) list \<Rightarrow>
     ('w, cert_bundle) io" where
  "GenerateCA lib algorithm commonName org validity opts =
     (let cfg = ca_config opts in
      io_bind (io_wrap ''generate CA key'' algorithm) (\<lambda>privateKey.
      io_bind (io_wrap ''generate CA serial'' (resolveSerial lib cfg)) (\<lambda>sn.
      io_bind (io_now lib) (\<lambda>t1.
      io_bind (io_now lib) (\<lambda>t2.
        let template = ca_template sn commonName org t1 (time_Add t2 validity) cfg
        in sign_bundle ''CA'' lib template template privateKey privateKey)))))"

text \<open>The part of generateCert after its checks.\<close>

definition issue_leaf ::
    "('w, 'k, 'p, 'u) crypto \<Rightarrow> ('w, 'k) io \<Rightarrow> 'u certificate \<Rightarrow> 'k \<Rightarrow> string \<Rightarrow> string list \<Rightarrow> byte list list \<Rightarrow> 'u list \<Rightarrow>
     extKeyUsage list \<Rightarrow> certConfig \<Rightarrow> time \<Rightarrow> ('w, cert_bundle) io" where
  "issue_leaf lib algorithm caCert caKey commonName dnsNames ips us extUsage cfg leafNotAfter =
     io_bind (io_wrap ''generate leaf key'' algorithm) (\<lambda>privateKey.
     io_bind (io_wrap ''generate leaf serial'' (resolveSerial lib cfg)) (\<lambda>sn.
     io_bind (io_now lib) (\<lambda>t.
       let template = \<lparr>SerialNumber = sn, CommonName = commonName, Organization = Organization caCert,
         DNSNames = dnsNames, IPAddresses = ips, URIs = us, NotBefore = time_Add t (- minute),
         NotAfter = leafNotAfter, KeyUsage = KeyUsageDigitalSignature, ExtKeyUsage = extUsage,
         BasicConstraintsValid = False, IsCA = False, MaxPathLen = 0, MaxPathLenZero = False\<rparr>
       in sign_bundle ''leaf'' lib template caCert privateKey caKey)))"

definition leaf_config :: "(certConfig \<Rightarrow> certConfig) list \<Rightarrow> certConfig" where
  "leaf_config opts = apply_opts opts \<lparr>maxPathLen = 0, maxPathLenZero = False, serial = None, uris = []\<rparr>"

definition generateCert ::
    "('w, 'k, 'p, 'u) crypto \<Rightarrow> ('w, 'k) io \<Rightarrow> cert_bundle \<Rightarrow> string \<Rightarrow> string list \<Rightarrow> byte list list \<Rightarrow> duration \<Rightarrow>
     extKeyUsage list \<Rightarrow> (certConfig \<Rightarrow> certConfig) list \<Rightarrow> ('w, cert_bundle) io" where
  "generateCert lib algorithm ca commonName dnsNames ips validity extUsage opts =
     (let cfg = leaf_config opts in
      io_bind (io_wrap ''resolve leaf URI SANs'' (io_lift (resolveURIs lib cfg))) (\<lambda>us.
      io_bind (io_check (list_ex (\<lambda>u. u = ExtKeyUsageServerAuth) extUsage \<and> dnsNames = [] \<and> ips = [] \<and> us = [])
        ''server certificate requires at least one SAN (DNS name, IP address, or URI)'') (\<lambda>_.
      io_bind (io_wrap ''parse CA bundle'' (io_lift (parseCA lib ca))) (\<lambda>(caCert, caKey).
      io_bind (io_check (\<not> IsCA caCert) ''provided bundle is not a CA certificate'') (\<lambda>_.
      io_bind (io_now lib) (\<lambda>now.
      io_bind (io_check (After_time (time_Add now validity) (NotAfter caCert))
        ''leaf certificate validity extends beyond CA expiry'') (\<lambda>_.
      issue_leaf lib algorithm caCert caKey commonName dnsNames ips us extUsage cfg (time_Add now validity))))))))"

definition GenerateServerCert ::
    "('w, 'k, 'p, 'u) crypto \<Rightarrow> ('w, 'k) io \<Rightarrow> cert_bundle \<Rightarrow> string \<Rightarrow> string list \<Rightarrow> byte list list \<Rightarrow> duration \<Rightarrow>
     (certConfig \<Rightarrow> certConfig) list \<Rightarrow> ('w, cert_bundle) io" where
  "GenerateServerCert lib algorithm ca commonName dnsNames ips validity opts =
     generateCert lib algorithm ca commonName dnsNames ips validity [ExtKeyUsageServerAuth] opts"

definition GenerateClientCert ::
    "('w, 'k, 'p, 'u) crypto \<Rightarrow> ('w, 'k) io \<Rightarrow> cert_bundle \<Rightarrow> string \<Rightarrow> string list \<Rightarrow> byte list list \<Rightarrow> duration \<Rightarrow>
     (certConfig \<Rightarrow> certConfig) list \<Rightarrow> ('w, cert_bundle) io" where
  "GenerateClientCert lib algorithm ca commonName dnsNames ips validity opts =
     generateCert lib algorithm ca commonName dnsNames ips validity [ExtKeyUsageClientAuth] opts"

definition GeneratePeerCert ::
    "('w, 'k, 'p, 'u) crypto \<Rightarrow> ('w, 'k) io \<Rightarrow> cert_bundle \<Rightarrow> string \<Rightarrow> string list \<Rightarrow> byte list list \<Rightarrow> duration \<Rightarrow>
     (certConfig \<Rightarrow> certConfig) list \<Rightarrow> ('w, cert_bundle) io" where
  "GeneratePeerCert lib algorithm ca commonName dnsNames ips validity opts =
     generateCert lib algorithm ca commonName dnsNames ips validity [ExtKeyUsageServerAuth, ExtKeyUsageClientAuth] opts"

section \<open>Serial numbers and URIs\<close>

lemma int_Bytes_pos: "0 < n \<Longrightarrow> int_Bytes n = int_Bytes (n div 256) @ [of_nat (n mod 256)]"
  by (subst int_Bytes.simps) simp

lemma length_int_Bytes: "length (int_Bytes n) \<le> k \<longleftrightarrow> n < 256 ^ k"
proof (induction k arbitrary: n)
  case 0
  then show ?case using int_Bytes_pos [of n] by (cases "n = 0") (auto simp: int_Bytes.simps [of 0])
next
  case (Suc k)
  show ?case
  proof (cases "n = 0")
    case False
    then have "length (int_Bytes n) \<le> Suc k \<longleftrightarrow> n div 256 < 256 ^ k" using Suc.IH int_Bytes_pos [of n] by simp
    also have "\<dots> \<longleftrightarrow> n < 256 ^ Suc k" by (simp add: div_less_iff_less_mult mult.commute)
    finally show ?thesis .
  qed (simp add: int_Bytes.simps [of 0])
qed

text \<open>rand.Int returns a number in the range [0, max), as package crypto/rand documents.\<close>

definition rand_in_range :: "('w, 'k, 'p, 'u) crypto \<Rightarrow> bool" where
  "rand_in_range lib \<longleftrightarrow> (\<forall>m w s w'. randInt lib m w = (Inr s, w') \<longrightarrow> 0 \<le> s \<and> s < m)"

definition serial_ok :: "certConfig \<Rightarrow> int \<Rightarrow> bool" where
  "serial_ok cfg sn \<longleftrightarrow> 0 < sn \<and> sn < 2 ^ 160 \<and>
     (case serial cfg of None \<Rightarrow> sn \<le> 2 ^ 128 | Some s \<Rightarrow> sn = s)"

lemma resolveSerial_ok:
  assumes "rand_in_range lib" and "resolveSerial lib cfg w = (Inr sn, w')"
  shows "serial_ok cfg sn"
proof (cases "serial cfg")
  case None
  with assms(2) have r: "randInt lib (2 ^ 128) w = (Inr (sn - 1), w')"
    by (auto simp: resolveSerial_def randomSerial_def io_simps)
  have "0 \<le> sn - 1 \<and> sn - 1 < 2 ^ 128" using assms(1) r unfolding rand_in_range_def by blast
  with None show ?thesis by (auto simp: serial_ok_def)
next
  case (Some s)
  with assms(2) have "0 < s" "length (int_Bytes (nat s)) \<le> 20" "sn = s"
    by (auto simp: resolveSerial_def io_simps split: if_splits)
  then have "nat s < 256 ^ 20" "0 < s" "sn = s" using length_int_Bytes [of "nat s" 20] by auto
  with Some show ?thesis by (simp add: serial_ok_def nat_less_iff)
qed

text \<open>Any serial that is positive and fits into 20 octets is taken as it is.\<close>

lemma resolveSerial_accepts:
  "serial cfg = Some s \<Longrightarrow> 0 < s \<Longrightarrow> s < 2 ^ 160 \<Longrightarrow> resolveSerial lib cfg w = (Inr s, w)"
  using length_int_Bytes [of "nat s" 20] by (simp add: resolveSerial_def io_lift_def nat_less_iff)

definition uris_ok :: "('w, 'k, 'p, 'u) crypto \<Rightarrow> string list \<Rightarrow> 'u list \<Rightarrow> bool" where
  "uris_ok lib raws us \<longleftrightarrow> map (url_String lib) us = raws \<and> list_all isASCII raws \<and> list_all (IsAbs lib) us \<and>
     map (url_Parse lib) raws = map Inr us"

lemma resolve_uris_iff: "resolve_uris lib raws = Inr us \<longleftrightarrow> uris_ok lib raws us"
proof (induction raws arbitrary: us)
  case Nil
  then show ?case by (auto simp: uris_ok_def)
next
  case (Cons raw raws)
  have "resolve_uris lib (raw # raws) = Inr us \<longleftrightarrow>
      (\<exists>u us'. us = u # us' \<and> url_Parse lib raw = Inr u \<and> IsAbs lib u \<and> isASCII raw \<and> url_String lib u = raw \<and>
         resolve_uris lib raws = Inr us')"
    by (auto split: sum.splits)
  also have "\<dots> \<longleftrightarrow> uris_ok lib (raw # raws) us"
    unfolding Cons.IH by (cases us) (auto simp: uris_ok_def)
  finally show ?case .
qed

section \<open>Bundles\<close>

lemma sign_bundle_Inr:
  assumes "sign_bundle what lib template parent key signKey w = (Inr b, w')"
  shows "\<exists>der keyDER. CreateCertificate lib template parent (Public lib key) signKey w = (Inr der, w') \<and>
    MarshalPKCS8 lib key = Inr keyDER \<and>
    b = \<lparr>CertPEM = pem_Encode lib ''CERTIFICATE'' der, KeyPEM = pem_Encode lib ''PRIVATE KEY'' keyDER\<rparr>"
  using assms by (auto simp: sign_bundle_def marshalPrivateKey_def io_simps split: sum.splits)

text \<open>
  A leaf certificate with the contents that the caller, the CA and the configuration ask for.
\<close>

definition leaf_template_ok ::
    "('w, 'k, 'p, 'u) crypto \<Rightarrow> 'u certificate \<Rightarrow> string list \<Rightarrow> byte list list \<Rightarrow> extKeyUsage list \<Rightarrow> certConfig \<Rightarrow>
     'u certificate \<Rightarrow> bool" where
  "leaf_template_ok lib caCert dnsNames ips extUsage cfg t \<longleftrightarrow>
     \<not> IsCA t \<and> NotAfter t \<le> NotAfter caCert \<and> serial_ok cfg (SerialNumber t) \<and> uris_ok lib (uris cfg) (URIs t) \<and>
     DNSNames t = dnsNames \<and> IPAddresses t = ips \<and> ExtKeyUsage t = extUsage \<and>
     Organization t = Organization caCert \<and> KeyUsage t = KeyUsageDigitalSignature \<and>
     (ExtKeyUsageServerAuth \<in> set extUsage \<longrightarrow> dnsNames \<noteq> [] \<or> ips \<noteq> [] \<or> uris cfg \<noteq> [])"

lemma uris_ok_Nil: "uris_ok lib raws [] \<longleftrightarrow> raws = []"
  by (auto simp: uris_ok_def)

lemma generateCert_Inr:
  assumes "generateCert lib algorithm ca commonName dnsNames ips validity extUsage opts w = (Inr b, w')"
  shows "\<exists>caCert caKey us now w1. parseCA lib ca = Inr (caCert, caKey) \<and> IsCA caCert \<and>
    uris_ok lib (uris (leaf_config opts)) us \<and> Now lib w = (now, w1) \<and> now + validity \<le> NotAfter caCert \<and>
    (ExtKeyUsageServerAuth \<in> set extUsage \<longrightarrow> dnsNames \<noteq> [] \<or> ips \<noteq> [] \<or> us \<noteq> []) \<and>
    issue_leaf lib algorithm caCert caKey commonName dnsNames ips us extUsage (leaf_config opts) (now + validity) w1 =
      (Inr b, w')"
  using assms
  by (auto simp: generateCert_def Let_def io_simps resolveURIs_def resolve_uris_iff After_time_def time_Add_def
      list_ex_iff case_prod_unfold)

section \<open>Properties\<close>

text \<open>
  C38. A leaf certificate is issued only within what the CA and the standards allow. If any of
  the three leaf functions (that is, generateCert for any key usages) returns a bundle, then
  the given bundle parsed as a CA, whose key signed a template that is no CA, does not
  outlive it and inherits its organisation, with a serial number that is positive, fits in 20
  octets and is the configured one or at most 2 ^ 128; each URI name is exactly as given,
  absolute and ASCII, in order; a server certificate names something; and the private key
  of the bundle is the one whose public key was signed.
\<close>

theorem leaf_issued_soundly:
  assumes "generateCert lib algorithm ca commonName dnsNames ips validity extUsage opts w = (Inr b, w')"
    and "rand_in_range lib"
  shows "\<exists>caCert caKey key t w1 der keyDER. parseCA lib ca = Inr (caCert, caKey) \<and> IsCA caCert \<and>
    leaf_template_ok lib caCert dnsNames ips extUsage (leaf_config opts) t \<and> CommonName t = commonName \<and>
    CreateCertificate lib t caCert (Public lib key) caKey w1 = (Inr der, w') \<and> MarshalPKCS8 lib key = Inr keyDER \<and>
    b = \<lparr>CertPEM = pem_Encode lib ''CERTIFICATE'' der, KeyPEM = pem_Encode lib ''PRIVATE KEY'' keyDER\<rparr>"
proof -
  obtain caCert caKey us now w1 where g: "parseCA lib ca = Inr (caCert, caKey)" "IsCA caCert"
      "uris_ok lib (uris (leaf_config opts)) us" "now + validity \<le> NotAfter caCert"
      "ExtKeyUsageServerAuth \<in> set extUsage \<longrightarrow> dnsNames \<noteq> [] \<or> ips \<noteq> [] \<or> us \<noteq> []"
    and i: "issue_leaf lib algorithm caCert caKey commonName dnsNames ips us extUsage (leaf_config opts)
      (now + validity) w1 = (Inr b, w')"
    using generateCert_Inr [OF assms(1)] by blast
  obtain key w2 sn w3 tm w4 where s: "resolveSerial lib (leaf_config opts) w2 = (Inr sn, w3)"
    and b: "sign_bundle ''leaf'' lib \<lparr>SerialNumber = sn, CommonName = commonName, Organization = Organization caCert,
         DNSNames = dnsNames, IPAddresses = ips, URIs = us, NotBefore = time_Add tm (- minute),
         NotAfter = now + validity, KeyUsage = KeyUsageDigitalSignature, ExtKeyUsage = extUsage,
         BasicConstraintsValid = False, IsCA = False, MaxPathLen = 0, MaxPathLenZero = False\<rparr> caCert key caKey w4 =
      (Inr b, w')"
    using i unfolding issue_leaf_def Let_def io_simps by blast
  have "leaf_template_ok lib caCert dnsNames ips extUsage (leaf_config opts) \<lparr>SerialNumber = sn, CommonName = commonName,
         Organization = Organization caCert, DNSNames = dnsNames, IPAddresses = ips, URIs = us,
         NotBefore = time_Add tm (- minute), NotAfter = now + validity, KeyUsage = KeyUsageDigitalSignature,
         ExtKeyUsage = extUsage, BasicConstraintsValid = False, IsCA = False, MaxPathLen = 0, MaxPathLenZero = False\<rparr>"
    using g resolveSerial_ok [OF assms(2) s] by (auto simp: leaf_template_ok_def uris_ok_def)
  with sign_bundle_Inr [OF b] g show ?thesis by fastforce
qed

text \<open>A library on numbers: keys are numbers, URIs strings, the only certificate a CA.\<close>

definition toy_ca :: "string certificate" where
  "toy_ca = \<lparr>SerialNumber = 1, CommonName = ''ca'', Organization = [''o''], DNSNames = [], IPAddresses = [], URIs = [],
     NotBefore = 0, NotAfter = 9 * 10 ^ 9, KeyUsage = 96, ExtKeyUsage = [], BasicConstraintsValid = True,
     IsCA = True, MaxPathLen = 0, MaxPathLenZero = True\<rparr>"

definition toy_lib :: "(int, nat, nat, string) crypto" where
  "toy_lib = \<lparr>Now = (\<lambda>w. (w, w)), randInt = (\<lambda>m w. (if 0 < m then Inr (m - 1) else Inl (Err ''max''), w)), Public = (\<lambda>k. k),
     CreateCertificate = (\<lambda>t p pub k w. (if IsCA t \<and> (NotAfter t \<noteq> 9 * 10 ^ 9 \<or> Organization t \<noteq> [''o'']) then Inl (Err ''toy'')
       else Inr [if IsCA t then 1 else 0], w)),
     ParseCertificate = (\<lambda>b. Inr (if b = [1] then toy_ca else toy_ca\<lparr>IsCA := False\<rparr>)), MarshalPKCS8 = (\<lambda>k. Inr (replicate k 0)),
     ParsePKCS8 = (\<lambda>b. Inr (Some (length b))), pem_Encode = (\<lambda>t b. b), pem_Decode = Some,
     url_Parse = Inr, IsAbs = (\<lambda>u. True), url_String = (\<lambda>u. u)\<rparr>"

lemma toy_ca_simps [simp]:
  "NotAfter toy_ca = 9 * 10 ^ 9" "IsCA toy_ca" "Organization toy_ca = [''o'']"
  by (simp_all add: toy_ca_def)

lemma toy_leaf:
  "generateCert toy_lib (\<lambda>w. (Inr 5, w)) \<lparr>CertPEM = [1], KeyPEM = [0, 0]\<rparr> ''svc'' [] [] 1000 [ExtKeyUsageServerAuth]
     [WithURIs [''spiffe://x/y'']] 10 = (Inr \<lparr>CertPEM = [0], KeyPEM = [0, 0, 0, 0, 0]\<rparr>, 10)"
  by (simp add: generateCert_def toy_lib_def Let_def io_bind_def io_wrap_def io_lift_def io_check_def io_now_def io_return_def
      leaf_config_def WithURIs_def resolveURIs_def isASCII_def parseCA_def After_time_def time_Add_def issue_leaf_def
      resolveSerial_def randomSerial_def sign_bundle_def marshalPrivateKey_def replicate_eq_replicate eval_nat_numeral)

theorem leaf_issued_soundly_witness:
  "\<exists>t :: string certificate. serial_ok (leaf_config [WithURIs [''spiffe://x/y'']]) (SerialNumber t) \<and> URIs t = [''spiffe://x/y''] \<and>
     NotAfter t \<le> NotAfter toy_ca"
proof -
  have "rand_in_range toy_lib" by (auto simp: rand_in_range_def toy_lib_def split: if_splits)
  from leaf_issued_soundly [OF toy_leaf this] obtain caCert caKey t
    where p: "parseCA toy_lib \<lparr>CertPEM = [1], KeyPEM = [0, 0]\<rparr> = Inr (caCert, caKey)"
    and t: "leaf_template_ok toy_lib caCert [] [] [ExtKeyUsageServerAuth] (leaf_config [WithURIs [''spiffe://x/y'']]) t"
    by blast
  have "caCert = toy_ca" using p by (simp add: parseCA_def toy_lib_def)
  moreover have "uris (leaf_config [WithURIs [''spiffe://x/y'']]) = [''spiffe://x/y'']"
    by (simp add: leaf_config_def WithURIs_def)
  ultimately show ?thesis using t by (intro exI [of _ t]) (simp add: leaf_template_ok_def uris_ok_def toy_lib_def)
qed

text \<open>
  What package x509 and package pem document of a certificate or key they have written: it
  is read back, with times cut to seconds, and a signer stays a signer.
\<close>

definition x509_laws :: "('w, 'k, 'p, 'u) crypto \<Rightarrow> bool" where
  "x509_laws lib \<longleftrightarrow> (\<forall>t b. pem_Decode lib (pem_Encode lib t b) = Some b) \<and>
     (\<forall>k d. MarshalPKCS8 lib k = Inr d \<longrightarrow> ParsePKCS8 lib d = Inr (Some k)) \<and>
     (\<forall>t p pub k w der w'. CreateCertificate lib t p pub k w = (Inr der, w') \<longrightarrow>
        (\<exists>c. ParseCertificate lib der = Inr c \<and> IsCA c = IsCA t \<and> (IsCA t \<longrightarrow> Organization c = Organization t \<and>
           NotAfter c = NotAfter t div 10 ^ 9 * 10 ^ 9)))"

lemma GenerateCA_Inr:
  assumes "GenerateCA lib algorithm commonName org validity opts w = (Inr b, w')"
  shows "\<exists>key t now wa wb w1 der keyDER. Now lib wa = (now, wb) \<and> IsCA t \<and> Organization t = [org] \<and>
    NotAfter t = now + validity \<and> CreateCertificate lib t t (Public lib key) key w1 = (Inr der, w') \<and>
    MarshalPKCS8 lib key = Inr keyDER \<and>
    b = \<lparr>CertPEM = pem_Encode lib ''CERTIFICATE'' der, KeyPEM = pem_Encode lib ''PRIVATE KEY'' keyDER\<rparr>"
proof -
  obtain key sn t1 wa now wb where n: "Now lib wa = (now, wb)"
    and s: "sign_bundle ''CA'' lib (ca_template sn commonName org t1 (now + validity) (ca_config opts))
      (ca_template sn commonName org t1 (now + validity) (ca_config opts)) key key wb = (Inr b, w')"
    using assms unfolding GenerateCA_def Let_def io_simps time_Add_def by blast
  let ?t = "ca_template sn commonName org t1 (now + validity) (ca_config opts)"
  have "IsCA ?t" "Organization ?t = [org]" "NotAfter ?t = now + validity" by (simp_all add: ca_template_def)
  then show ?thesis using sign_bundle_Inr [OF s] n by blast
qed


lemma toy_laws: "x509_laws toy_lib"
  by (auto simp: x509_laws_def toy_lib_def split: if_splits)

lemma toy_generated:
  "GenerateCA toy_lib (\<lambda>w. (Inr 2, w)) ''ca'' ''o'' (9 * 10 ^ 9 - 10) [WithMaxPathLen 0] 10 =
     (Inr \<lparr>CertPEM = [1], KeyPEM = [0, 0]\<rparr>, 10)"
  by (simp add: GenerateCA_def toy_lib_def Let_def io_bind_def io_wrap_def io_lift_def io_now_def io_return_def
      ca_config_def WithMaxPathLen_def ca_template_def time_Add_def resolveSerial_def randomSerial_def sign_bundle_def
      marshalPrivateKey_def eval_nat_numeral)


end
