(* ===== verification/Certkit.thy ===== *)
theory Certkit
  imports Mtls Pki
begin

text \<open>
  The packages of certkit together: package pki issues a CA and a leaf, the bundles are stored
  in files, and package mtls loads them through the providers of package keyloader.
\<close>

section \<open>Providers that yield given bytes\<close>

definition yields :: "'z provider \<Rightarrow> byte list \<Rightarrow> bool" where
  "yields prov bs \<longleftrightarrow> (\<forall>st. store_ok st \<longrightarrow> (\<exists>k st1. prov st = ((Some k, clear k, None), st1) \<and> buf st1 k = bs))"

lemma yieldsE:
  assumes "yields prov bs" and "store_ok st"
  obtains k st1 where "prov st = ((Some k, clear k, None), st1)" and "buf st1 k = bs"
  using assms unfolding yields_def by blast

text \<open>A file that can be read at any time, with these contents and a mode of its owner's.\<close>

definition file_holds ::
    "(string \<Rightarrow> 'z store_scheme \<Rightarrow> (gerr + byte list) \<times> 'z) \<Rightarrow> (string \<Rightarrow> 'z store_scheme \<Rightarrow> (gerr + fileInfo) \<times> 'z) \<Rightarrow>
     string \<Rightarrow> byte list \<Rightarrow> bool" where
  "file_holds osReadFile osStat path bs \<longleftrightarrow> bs \<noteq> [] \<and>
     (\<forall>st. (\<exists>info z. osStat path st = (Inr info, z) \<and> \<not> insecure (fiMode info)) \<and>
       (\<exists>z. osReadFile path st = (Inr bs, z)))"

lemma raw_file_yields:
  assumes "file_holds osReadFile osStat path bs"
  shows "yields (FromFile (osfs osReadFile osStat) path []) bs"
  unfolding yields_def
proof (intro allI impI)
  fix st :: "'a store_scheme"
  obtain info z where s: "osStat path st = (Inr info, z)" "\<not> insecure (fiMode info)"
    using assms unfolding file_holds_def by blast
  obtain z' where r: "osReadFile path (st\<lparr>store.more := z\<rparr>) = (Inr bs, z')"
    using assms unfolding file_holds_def by blast
  have "bs \<noteq> []" using assms by (simp add: file_holds_def)
  then show "\<exists>k st1. FromFile (osfs osReadFile osStat) path [] st = ((Some k, clear k, None), st1) \<and> buf st1 k = bs"
    using s r by (simp add: FromFile_def file_config_def file_provider_def check_file_def osfs_def processKey_def
        process_decoded_def store_simps case_prod_unfold)
qed

lemma raw_file_provider:
  "FromFile (osfs osReadFile osStat) path [] =
     file_provider ((file_config (osfs osReadFile osStat) [])\<lparr>filesystem := osfs osReadFile osStat\<rparr>) path"
  by (simp add: FromFile_def [abs_def] file_config_def)

section \<open>Loading a configuration\<close>

context key_loading
begin

text \<open>Each key is still in its buffer when it is parsed, whatever was loaded after it.\<close>

lemma config_from_keys:
  assumes "yields cert C" and "yields key K" and "yields ca A" and "store_ok st"
    and "X509KeyPair C K = Inr t" and "parseCerts A \<noteq> []"
  shows "fst (NewTLSConfig X509KeyPair parseCerts cert key ca opts st) =
    Inr (apply_opts opts \<lparr>Certificates = [t], ClientAuth = RequireAndVerifyClientCert, ClientCAs = parseCerts A,
      RootCAs = parseCerts A, MinVersion = VersionTLS13, ServerName = ''''\<rparr>)"
proof -
  obtain kc st1 where c: "cert st = ((Some kc, clear kc, None), st1)" "buf st1 kc = C"
    by (rule yieldsE [OF assms(1,4)])
  have st1: "store_ok st1" using cert.prov_frame [OF assms(4) c(1)] by simp
  have kc: "kc < lim st1" using cert.prov_key [OF assms(4) c(1)] by auto
  obtain kk st2 where k: "key st1 = ((Some kk, clear kk, None), st2)" "buf st2 kk = K"
    by (rule yieldsE [OF assms(2) st1])
  have st2: "store_ok st2" "buf st2 kc = C" using key.prov_frame [OF st1 k(1)] kc c(2) by auto
  obtain ka st3 where a: "ca st2 = ((Some ka, clear ka, None), st3)" "buf st3 ka = A"
    by (rule yieldsE [OF assms(3) st2(1)])
  show ?thesis
    using assms(5,6) c(1) k a st2(2)
    by (simp add: NewTLSConfig_def load_ca_def with_key_def bytes_of_def AppendCertsFromPEM_def)
qed

end

section \<open>Issued bundles\<close>

text \<open>
  What package tls documents of the certificates and keys that package x509 has written: a key
  and the certificate of its public half parse as a pair, and a PEM file of one certificate
  adds that one to a pool.
\<close>

definition tls_laws ::
    "('w, 'k, 'p, 'u) crypto \<Rightarrow> (byte list \<Rightarrow> byte list \<Rightarrow> gerr + 'cert) \<Rightarrow> (byte list \<Rightarrow> 'u certificate list) \<Rightarrow> bool" where
  "tls_laws lib X509KeyPair parseCerts \<longleftrightarrow>
     (\<forall>t p k s w der w' d. CreateCertificate lib t p (Public lib k) s w = (Inr der, w') \<longrightarrow> MarshalPKCS8 lib k = Inr d \<longrightarrow>
        (\<exists>pair. X509KeyPair (pem_Encode lib ''CERTIFICATE'' der) (pem_Encode lib ''PRIVATE KEY'' d) = Inr pair)) \<and>
     (\<forall>der c. ParseCertificate lib der = Inr c \<longrightarrow> parseCerts (pem_Encode lib ''CERTIFICATE'' der) = [c])"

lemma tls_lawsD:
  assumes "tls_laws lib X509KeyPair parseCerts"
  shows "CreateCertificate lib t p (Public lib k) s w = (Inr der, w') \<Longrightarrow> MarshalPKCS8 lib k = Inr d \<Longrightarrow>
      \<exists>pair. X509KeyPair (pem_Encode lib ''CERTIFICATE'' der) (pem_Encode lib ''PRIVATE KEY'' d) = Inr pair"
    and "ParseCertificate lib der = Inr c \<Longrightarrow> parseCerts (pem_Encode lib ''CERTIFICATE'' der) = [c]"
  using assms unfolding tls_laws_def by blast+

lemma issue_leaf_Inr:
  assumes "issue_leaf lib algorithm caCert caKey cn dns ips us ext cfg notAfter w = (Inr b, w')"
  shows "\<exists>t key w1 der keyDER. CreateCertificate lib t caCert (Public lib key) caKey w1 = (Inr der, w') \<and>
    MarshalPKCS8 lib key = Inr keyDER \<and>
    b = \<lparr>CertPEM = pem_Encode lib ''CERTIFICATE'' der, KeyPEM = pem_Encode lib ''PRIVATE KEY'' keyDER\<rparr>"
  using assms unfolding issue_leaf_def Let_def io_simps by (blast dest: sign_bundle_Inr)

lemma leaf_pair:
  assumes "generateCert lib alg ca cn dns ips v ext opts w = (Inr leaf, w')" and "tls_laws lib X509KeyPair parseCerts"
  shows "\<exists>pair. X509KeyPair (CertPEM leaf) (KeyPEM leaf) = Inr pair"
proof -
  obtain t caCert key caKey w1 der keyDER where l: "CreateCertificate lib t caCert (Public lib key) caKey w1 = (Inr der, w')"
    "MarshalPKCS8 lib key = Inr keyDER"
    "leaf = \<lparr>CertPEM = pem_Encode lib ''CERTIFICATE'' der, KeyPEM = pem_Encode lib ''PRIVATE KEY'' keyDER\<rparr>"
    using generateCert_Inr [OF assms(1)] by (blast dest: issue_leaf_Inr)
  then show ?thesis using tls_lawsD(1) [OF assms(2) l(1,2)] by simp
qed

lemma ca_pool:
  assumes "GenerateCA lib alg cn org v opts w = (Inr ca, w')" and "x509_laws lib" and "tls_laws lib X509KeyPair parseCerts"
  shows "\<exists>c. parseCerts (CertPEM ca) = [c] \<and> IsCA c \<and> Organization c = [org]"
proof -
  obtain key t w1 der keyDER where g: "IsCA t" "Organization t = [org]"
      "CreateCertificate lib t t (Public lib key) key w1 = (Inr der, w')"
    and ca: "ca = \<lparr>CertPEM = pem_Encode lib ''CERTIFICATE'' der, KeyPEM = pem_Encode lib ''PRIVATE KEY'' keyDER\<rparr>"
    using GenerateCA_Inr [OF assms(1)] by blast
  obtain c where "ParseCertificate lib der = Inr c" "IsCA c" "Organization c = [org]"
    using assms(2) g unfolding x509_laws_def by metis
  then show ?thesis using tls_lawsD(2) [OF assms(3)] ca by auto
qed

section \<open>An example\<close>

text \<open>The library on numbers of theory Pki, with an armour that is never empty.\<close>

definition armoured :: "(int, nat, nat, string) crypto" where
  "armoured = toy_lib\<lparr>pem_Encode := (\<lambda>t b. 45 # b), pem_Decode := (\<lambda>b. case b of [] \<Rightarrow> None | _ # d \<Rightarrow> Some d)\<rparr>"

definition toy_pair :: "byte list \<Rightarrow> byte list \<Rightarrow> gerr + byte list" where
  "toy_pair c k = Inr c"

definition toy_certs :: "byte list \<Rightarrow> string certificate list" where
  "toy_certs b = (case pem_Decode armoured b of None \<Rightarrow> []
     | Some d \<Rightarrow> (case ParseCertificate armoured d of Inl e \<Rightarrow> [] | Inr c \<Rightarrow> [c]))"

definition toy_read :: "string \<Rightarrow> store \<Rightarrow> (gerr + byte list) \<times> unit" where
  "toy_read p st = (Inr (if p = ''ca'' then [45, 1] else if p = ''crt'' then [45, 0] else [45, 0, 0, 0, 0, 0]), ())"

definition toy_stat :: "string \<Rightarrow> store \<Rightarrow> (gerr + fileInfo) \<times> unit" where
  "toy_stat p st = (Inr \<lparr>fiName = p, fiSize = 2, fiMode = 0x180\<rparr>, ())"

lemma armoured_ca:
  "GenerateCA armoured (\<lambda>w. (Inr 2, w)) ''ca'' ''o'' (9 * 10 ^ 9 - 10) [WithMaxPathLen 0] 10 =
     (Inr \<lparr>CertPEM = [45, 1], KeyPEM = [45, 0, 0]\<rparr>, 10)"
  by (simp add: GenerateCA_def armoured_def toy_lib_def Let_def io_bind_def io_wrap_def io_lift_def io_now_def io_return_def
      ca_config_def WithMaxPathLen_def ca_template_def time_Add_def resolveSerial_def randomSerial_def sign_bundle_def
      marshalPrivateKey_def eval_nat_numeral)

lemma armoured_leaf:
  "generateCert armoured (\<lambda>w. (Inr 5, w)) \<lparr>CertPEM = [45, 1], KeyPEM = [45, 0, 0]\<rparr> ''svc'' [''svc''] [] 1000
     [ExtKeyUsageServerAuth, ExtKeyUsageClientAuth] [] 10 = (Inr \<lparr>CertPEM = [45, 0], KeyPEM = [45, 0, 0, 0, 0, 0]\<rparr>, 10)"
  by (simp add: generateCert_def armoured_def toy_lib_def Let_def io_bind_def io_wrap_def io_lift_def io_check_def io_now_def
      io_return_def leaf_config_def resolveURIs_def parseCA_def After_time_def time_Add_def issue_leaf_def
      resolveSerial_def randomSerial_def sign_bundle_def marshalPrivateKey_def replicate_eq_replicate eval_nat_numeral)

lemma armoured_laws: "x509_laws armoured" "tls_laws armoured toy_pair toy_certs"
  by (auto simp: x509_laws_def tls_laws_def toy_pair_def toy_certs_def armoured_def toy_lib_def split: if_splits)

section \<open>Property\<close>



end
