(* ===== verification/Spec2Isabelle.thy ===== *)
theory Spec2Isabelle
  imports LifecycleSpec CacheMemoryConc CacheSharded CacheReadThroughConc CacheStack CacheRuns CacheMock RetryConc
    ThrottleConc ThrottleBucket Certkit
begin

text \<open>
  Verification of albstractions: Go modules for service plumbing (src/). Each module
  declares the interfaces it consumes, so a cache layer works over any cache, a retry or a
  throttle over any schedule. The theories follow the modules; every definition that models
  code bears the name of the function or type, or one close to it, and its text says so.

  Conventions (GoBase). Code with effects is a function on a world, an argument that every
  call returns anew; a constructor or option that panics returns the left of a sum; an error
  is a tree of identities and wrappings, with errors.Is; a context is asked for its error in
  the current world, so it may end between any two calls. Durations are the integers they
  denote, with saturation and wrap-around written out; instants are nanoseconds. A parallel
  program is a step relation (fstep, rstep, wstep, mstep, qstep, tstep, lstep), one step for each section
  that holds a mutex or each atomic action between two of them, with the goroutines at
  program points; the states reached from the start by any interleaving satisfy invariants
  shown by rule induction.

  Package cache.
  \<^item> CacheTtl: expiries and bounds (cache/ttl.go, cache/options.go, the checks of NewMemory);
    resolveExpiry equals a specification over unbounded integers, whatever saturates, and
    keeps the configured bounds.
  \<^item> CacheApi: the Cache interface (cache/cache.go) as a record of functions, and its contract
    as the locales cache_api and cache_store, which the layers assume of what they wrap and
    provide themselves.
  \<^item> CacheMemory, CacheMemoryConc: Memory (cache/memory.go), sequentially as a refinement of a
    map whose entries disappear when they expire, and with readers, writers and background
    loops side by side, where the live view is what the completed writes make of it and every
    reader sees the last of them.
  \<^item> CacheSharded: Sharded (cache/sharded.go) over backends under the contract.
  \<^item> CacheReadThrough, CacheFlight, CacheReadThroughConc: ReadThrough (cache/readthrough.go) as
    one goroutine sees it; the single flight of concurrent loads: at most one load per key, no
    waiter stranded, no invented or inherited results, for loads that return, fail, panic or
    exit; and whole calls of GetContext next to writers, who find only loaded or set values.
  \<^item> CacheWriteThrough, CacheKeyLock: WriteThrough (cache/writethrough.go), and its key locks:
    exclusion, agreement of front and store, no leaked lock, no stuck waiter, with writers,
    deleters and fronts that succeed, fail or panic.
  \<^item> CacheRuns: a call of either layer as a function, which meets no other user of its key or
    gives up on one, is a run of the step relation.
  \<^item> CacheStack: any nesting of the layers, and the Close of its outermost cache.
  \<^item> CacheMock: the recording double (cache/mock/mock.go).

  Packages retry, schedule and throttle.
  \<^item> Retry (retry/*.go): stop conditions and Do; RetryBackoff joins it with a schedule;
    RetryConc has the calls of Do that share one Retry and its schedule side by side.
  \<^item> Float64, Schedule (schedule/*.go): the sequences under the locale bounded_schedule, with
    rounding to 53 bits, the curve of Sine with its phase, and the token bucket.
  \<^item> Throttle, ThrottleConc (throttle/*.go): the slots of Do and the RoundTripper as one caller
    sees them, and callers side by side: spacing of starts, the cap on calls in flight, and
    a queued caller gets to run.
  \<^item> ThrottleBucket: a Throttle over a TokenBucket, which fails closed: no function runs without
    a unit of the limiter.

  Package lifecycle.
  \<^item> Lifecycle (lifecycle/lifecycle.go): registration, workers, watchers, shutdown and the phases
    of Run as one step relation: the cause is recorded once and before cancellation, no
    failure is lost or doubled unless a callback panics, teardown is in order, and Run can
    return.
  \<^item> LifecycleSpec: the agreement of a group's fields with the phase of Run, its progress, and
    the refinement of an abstract contract by every step.

  Package certkit.
  \<^item> Bytes: what the loader uses of utf8, bytes, hex and base64, with round trips.
  \<^item> Keyloader (keyloader/*.go): key material in a store of buffers, so that sharing and erasure
    are visible; the contract of a Provider is the locale key_provider, interpreted for
    environment variables and files. The test doubles are there too.
  \<^item> Mtls (mtls/mtls.go): NewTLSConfig over three providers under that contract.
  \<^item> Pki (pki/pki.go): the checks and the templates of GenerateCA and the leaf functions.
  \<^item> Certkit: the three packages together: bundles that pki has issued, stored in files, load
    as a configuration of mutual TLS that trusts exactly the generated CA.

  Termination and fuel. No definition runs on fuel. The loops over lists are structural
  recursions. The loop of Retry.Do has no bound of its own: it is a partial function whose
  value None is a Do that never returns, and that it returns is proved under a bound on the
  attempts, or on the time with positive delays. bytes.Map recurses on the rest of the input,
  with its length as the measure. For the step relations, liveness is the existence of a
  path that only the goroutines named in the property take.

  Not modelled.
  \<^item> The libraries below the code: the parsing and signing of crypto/x509, tls.X509KeyPair,
    url.Parse, PEM, random sources, rate limiters, the HTTP transport and server, and the
    cosine. They are parameters; where a property needs a law of theirs, the law is a
    hypothesis that states what their documentation says.
  \<^item> Memory and time of the runtime: how much memory a rebuild frees, copies that string
    conversions and growing slices leave behind, the time that a step takes.
  \<^item> The fairness of the scheduler: liveness is stated as the existence of steps.
  \<^item> A panic of a caller's function, except in the step relations: loaders, writers, deleters
    and front calls of WriteThrough, the fn of a throttle or of a shared Retry, teardown callbacks; NaN keys,
    except in the key locks.
  \<^item> The text of messages where it prints times, modes or quoted names that need escapes.
\<close>

end
